theory Spec2Isabelle
  imports Complex_Main "HOL-Library.Sublist" "HOL-Library.AList" "HOL-Library.Multiset"
begin

section \<open>Syntax tree and control-flow graph types\<close>

text \<open>
  The syntax tree node of the parser interface.  Byte offsets and row/column numbers
  are natural numbers.  The field \<open>end\<close> is written \<open>end'\<close> and the optional field
  \<open>text\<close> is written \<open>text'\<close>, since both words are reserved.
\<close>

record Position =
  row :: nat
  column :: nat

datatype AstNode = AstNode
  (kind: string)
  (start: nat)
  (end': nat)
  (startPosition: Position)
  (endPosition: Position)
  (text': "string option")
  (isNamed: bool)
  (children: "AstNode list")

datatype CfgBlockKind = Entry | Exit | Statement | Branch | Loop | Return | Match

text \<open>
  Record fields carry a short prefix (\<open>b_\<close> for a block, \<open>e_\<close> for an edge), since
  several interfaces of the program share field names.  An absent edge label
  (\<open>undefined\<close>) is \<open>None\<close>.
\<close>

record CfgBlock =
  b_id :: string
  b_label :: string
  b_statements :: "string list"
  b_start :: nat
  b_end :: nat
  b_startPosition :: Position
  b_endPosition :: Position
  b_kind :: CfgBlockKind
  b_astPath :: string

record CfgEdge =
  e_from :: string
  e_to :: string
  e_label :: "string option"

record Cfg =
  blocks :: "CfgBlock list"
  edges :: "CfgEdge list"

section \<open>Node-kind tables\<close>

definition IF_TYPES :: "string set" where
  "IF_TYPES = {''if_statement'', ''if_expression'', ''if_let_expression'',
    ''conditional_expression'', ''ternary_expression''}"

definition LOOP_TYPES :: "string set" where
  "LOOP_TYPES = {''for_statement'', ''for_expression'', ''for_in_statement'',
    ''while_statement'', ''while_expression'', ''loop_expression'',
    ''do_statement'', ''for_range_statement''}"

definition MATCH_TYPES :: "string set" where
  "MATCH_TYPES = {''match_expression'', ''switch_statement'', ''switch_expression''}"

definition RETURN_TYPES :: "string set" where
  "RETURN_TYPES = {''return_statement'', ''return_expression'',
    ''break_statement'', ''break_expression'',
    ''continue_statement'', ''continue_expression'',
    ''throw_statement'', ''raise_statement''}"

definition FUNCTION_TYPES :: "string set" where
  "FUNCTION_TYPES = {''function_declaration'', ''function_definition'', ''function_item'',
    ''method_definition'', ''method_declaration'',
    ''arrow_function'', ''lambda'', ''lambda_expression'',
    ''closure_expression'',
    ''let_declaration'',
    ''value_definition''}"

definition CONTAINER_TYPES :: "string set" where
  "CONTAINER_TYPES = {''program'', ''source_file'', ''source'',
    ''block'', ''statement_block'', ''compound_statement'',
    ''declaration_list'', ''field_declaration_list'',
    ''expression_statement'', ''lexical_declaration'',
    ''variable_declaration'', ''short_var_declaration'',
    ''assignment_statement'', ''assignment_expression'',
    ''call_expression'', ''module''} \<union> FUNCTION_TYPES"

section \<open>Text helpers\<close>

text \<open>
  Decimal rendering of a counter or an index inside a template string.
\<close>

definition digitChar :: "nat \<Rightarrow> char" where
  "digitChar d = ''0123456789'' ! d"

function decimal :: "nat \<Rightarrow> string" where
  "decimal n = (if n < 10 then [digitChar n] else decimal (n div 10) @ [digitChar (n mod 10)])"
  by pat_completeness auto
termination
  by (relation "measure (\<lambda>n. n)") auto

declare decimal.simps [simp del]

text \<open>
  \<open>makeId\<close> reads the module-level counter and increments it; the counter is a
  component of the build state below, so here the function takes the counter value.
\<close>

definition makeId :: "nat \<Rightarrow> string" where
  "makeId n = ''cfg_'' @ decimal n"

text \<open>
  Characters removed by \<open>trim\<close>: the white space and line terminators of the
  8-bit range.
\<close>

definition isSpace :: "char \<Rightarrow> bool" where
  "isSpace c = (c \<in> {CHR 0x09, CHR 0x0A, CHR 0x0B, CHR 0x0C, CHR 0x0D, CHR 0x20, CHR 0xA0})"

definition trim :: "string \<Rightarrow> string" where
  "trim s = rev (dropWhile isSpace (rev (dropWhile isSpace s)))"

definition truncate' :: "string \<Rightarrow> nat \<Rightarrow> string" where
  "truncate' s mx =
     (let line = trim (takeWhile (\<lambda>c. c \<noteq> CHR 0x0A) s)
      in if length line > mx then take (mx - 2) line @ ''..'' else line)"

definition nodeText :: "AstNode \<Rightarrow> string \<Rightarrow> string" where
  "nodeText node code = take (end' node - start node) (drop (start node) code)"

definition summary :: "AstNode \<Rightarrow> string \<Rightarrow> nat \<Rightarrow> string" where
  "summary node code mx = truncate' (nodeText node code) mx"

section \<open>Locating the parts of a control-flow node\<close>

definition findCondition :: "AstNode \<Rightarrow> AstNode option" where
  "findCondition node =
     (case find (\<lambda>child. kind child = ''condition'' \<or>
                          kind child = ''parenthesized_expression'' \<or>
                          kind child = ''binary_expression'' \<or>
                          kind child = ''comparison_operator'') (children node) of
        Some child \<Rightarrow> Some child
      | None \<Rightarrow>
          (let named = filter isNamed (children node)
           in if length named \<ge> 2 then Some (named ! 1) else None))"

definition findBody :: "AstNode \<Rightarrow> AstNode option" where
  "findBody node =
     find (\<lambda>child. kind child = ''block'' \<or>
                   kind child = ''statement_block'' \<or>
                   kind child = ''compound_statement'' \<or>
                   kind child = ''consequence'' \<or>
                   kind child = ''body'') (children node)"

definition findElse :: "AstNode \<Rightarrow> AstNode option" where
  "findElse node =
     find (\<lambda>child. kind child = ''else_clause'' \<or>
                   kind child = ''else'' \<or>
                   kind child = ''alternative'') (children node)"

definition isArmKind :: "string \<Rightarrow> bool" where
  "isArmKind k = (k = ''match_arm'' \<or> k = ''switch_case'' \<or> k = ''switch_default'' \<or>
                  k = ''case_clause'' \<or> k = ''default_clause'' \<or> k = ''match_case'')"

definition isArmBlockKind :: "string \<Rightarrow> bool" where
  "isArmBlockKind k = (k = ''match_block'' \<or> k = ''switch_body'')"

fun findArms :: "AstNode \<Rightarrow> AstNode list" where
  "findArms (AstNode k s e sp ep t nm cs) =
     concat (map (\<lambda>child.
        (if isArmKind (kind child) then [child] else []) @
        (if isArmBlockKind (kind child) then findArms child else [])) cs)"

section \<open>Recursive CFG construction\<close>

text \<open>
  The build state: the context object (\<open>blocks\<close>, \<open>edges\<close>, \<open>code\<close>) together with
  the module-level counter \<open>nextBlockId\<close>.  Every function that mutates the context
  or the counter returns the new state next to its result.
\<close>

record BuildCtx =
  ctx_blocks :: "CfgBlock list"
  ctx_edges :: "CfgEdge list"
  ctx_code :: string
  nextBlockId :: nat

record BuildResult =
  r_entry :: string
  r_exits :: "string list"

definition makeBlock ::
  "BuildCtx \<Rightarrow> string \<Rightarrow> CfgBlockKind \<Rightarrow> AstNode \<Rightarrow> string \<Rightarrow> string list \<Rightarrow> CfgBlock \<times> BuildCtx" where
  "makeBlock ctx label knd node astPath statements =
     (let block = \<lparr>b_id = makeId (nextBlockId ctx),
                    b_label = label,
                    b_statements = statements,
                    b_start = start node,
                    b_end = end' node,
                    b_startPosition = startPosition node,
                    b_endPosition = endPosition node,
                    b_kind = knd,
                    b_astPath = astPath\<rparr>
      in (block, ctx\<lparr>nextBlockId := nextBlockId ctx + 1,
                     ctx_blocks := ctx_blocks ctx @ [block]\<rparr>))"

definition addEdge :: "BuildCtx \<Rightarrow> string \<Rightarrow> string \<Rightarrow> string option \<Rightarrow> BuildCtx" where
  "addEdge ctx frm to lbl =
     ctx\<lparr>ctx_edges := ctx_edges ctx @ [\<lparr>e_from = frm, e_to = to, e_label = lbl\<rparr>]\<rparr>"

text \<open>The loop \<open>for (const ex of exits) addEdge(ctx, ex, to, label)\<close>.\<close>

definition addEdgesFrom :: "BuildCtx \<Rightarrow> string list \<Rightarrow> string \<Rightarrow> string option \<Rightarrow> BuildCtx" where
  "addEdgesFrom ctx exits to lbl = fold (\<lambda>ex c. addEdge c ex to lbl) exits ctx"

fun join :: "string \<Rightarrow> string list \<Rightarrow> string" where
  "join sep [] = []"
| "join sep [x] = x"
| "join sep (x # y # ys) = x @ sep @ join sep (y # ys)"

definition armLabel :: "AstNode \<Rightarrow> nat \<Rightarrow> string \<Rightarrow> string" where
  "armLabel arm i code =
     (let joined = join '' '' (map (\<lambda>c. summary c code 20) (filter isNamed (children arm)))
      in truncate' (if joined = [] then ''arm '' @ decimal i else joined) 24)"

definition isContainerLike :: "AstNode \<Rightarrow> bool" where
  "isContainerLike node =
     (if \<not> isNamed node then False
      else list_ex (\<lambda>c. kind c \<in> IF_TYPES \<or>
                         kind c \<in> LOOP_TYPES \<or>
                         kind c \<in> MATCH_TYPES \<or>
                         kind c \<in> RETURN_TYPES \<or>
                         kind c \<in> FUNCTION_TYPES) (children node))"

text \<open>The chaining loop at the end of \<open>buildChildren\<close>.\<close>

definition chainResults :: "BuildCtx \<Rightarrow> BuildResult list \<Rightarrow> BuildCtx" where
  "chainResults ctx results =
     fold (\<lambda>i c. addEdgesFrom c (r_exits (results ! (i - 1))) (r_entry (results ! i)) None)
          [1..<length results] ctx"

definition childIndices :: "AstNode \<Rightarrow> (AstNode \<times> nat) list" where
  "childIndices node =
     filter (\<lambda>(child, index). isNamed child) (zip (children node) [0..<length (children node)])"

text \<open>Helper for the termination argument: the largest node of a list.\<close>

definition maxSize :: "AstNode list \<Rightarrow> nat" where
  "maxSize ns = foldr (\<lambda>n m. max (size n) m) ns 0"

text \<open>Size bounds used by the termination argument.\<close>

lemma size_find: "find P xs = Some x \<Longrightarrow> size x < Suc (size_list size xs)"
  by (induction xs) (auto split: if_splits)

lemma findBody_size: "findBody node = Some b \<Longrightarrow> size b < size node"
  by (cases node) (auto simp: findBody_def dest: size_find)

lemma findElse_size: "findElse node = Some b \<Longrightarrow> size b < size node"
  by (cases node) (auto simp: findElse_def dest: size_find)

lemma findBody_size': "Some b = findBody node \<Longrightarrow> 3 * size b < Suc (3 * size node)"
  using findBody_size[of node b] by simp

lemma findElse_size': "Some b = findElse node \<Longrightarrow> 3 * size b < Suc (3 * size node)"
  using findElse_size[of node b] by simp

lemma size_mem: "x \<in> set xs \<Longrightarrow> size x < Suc (size_list size xs)"
  by (induction xs) auto

lemma findArms_size: "a \<in> set (findArms node) \<Longrightarrow> size a < size node"
proof (induction node arbitrary: a rule: findArms.induct)
  case (1 k s e sp ep t nm cs)
  from "1.prems" obtain child where c: "child \<in> set cs"
    and a: "(isArmKind (kind child) \<and> a = child) \<or> (isArmBlockKind (kind child) \<and> a \<in> set (findArms child))"
    by (auto split: if_splits)
  have "size child < Suc (size_list size cs)" using c by (rule size_mem)
  moreover have "size a \<le> size child"
  proof (cases "isArmKind (kind child) \<and> a = child")
    case True
    then show ?thesis by simp
  next
    case False
    with a have "isArmBlockKind (kind child)" "a \<in> set (findArms child)" by auto
    from "1.IH"[OF c this] show ?thesis by simp
  qed
  ultimately show ?case by simp
qed

lemma maxSize_le: "(\<And>a. a \<in> set ns \<Longrightarrow> size a \<le> m) \<Longrightarrow> maxSize ns \<le> m"
  by (induction ns) (auto simp: maxSize_def)

lemma maxSize_Cons: "maxSize (n # ns) = max (size n) (maxSize ns)"
  by (simp add: maxSize_def)

lemma maxSize_findArms: "maxSize (findArms node) < size node"
proof -
  have "maxSize (findArms node) \<le> size node - 1"
    by (rule maxSize_le) (use findArms_size in fastforce)
  moreover have "size node > 0" by (cases node) simp
  ultimately show ?thesis by simp
qed

lemma maxSize_childIndices: "maxSize (map fst (childIndices node)) < size node"
proof -
  have "maxSize (map fst (childIndices node)) \<le> size node - 1"
  proof (rule maxSize_le)
    fix a assume "a \<in> set (map fst (childIndices node))"
    then have "a \<in> set (children node)"
      by (auto simp: childIndices_def dest: set_zip_leftD)
    then show "size a \<le> size node - 1"
      by (cases node) (auto dest: size_mem)
  qed
  moreover have "size node > 0" by (cases node) simp
  ultimately show ?thesis by simp
qed

lemma maxSize_findArms3: "Suc (3 * maxSize (findArms node)) < 3 * size node"
  using maxSize_findArms[of node] by simp

lemma maxSize_childIndices3: "Suc (Suc (3 * maxSize (map fst (childIndices node)))) < 3 * size node"
  using maxSize_childIndices[of node] by simp

text \<open>
  \<open>buildNode\<close> and \<open>buildChildren\<close> are mutually recursive.  The loop over the named
  children in \<open>buildChildren\<close> is \<open>buildEach\<close> (accumulating \<open>results\<close>), the loop
  over the arms of a match is \<open>buildArms\<close> (with the loop index and the accumulated
  \<open>exits\<close>).
\<close>

function
  buildNode :: "BuildCtx \<Rightarrow> AstNode \<Rightarrow> string \<Rightarrow> string \<Rightarrow> BuildResult option \<times> BuildCtx" and
  buildChildren :: "BuildCtx \<Rightarrow> AstNode \<Rightarrow> string \<Rightarrow> string \<Rightarrow> BuildResult option \<times> BuildCtx" and
  buildEach :: "BuildCtx \<Rightarrow> (AstNode \<times> nat) list \<Rightarrow> string \<Rightarrow> string \<Rightarrow> BuildResult list
                  \<Rightarrow> BuildResult list \<times> BuildCtx" and
  buildArms :: "BuildCtx \<Rightarrow> AstNode list \<Rightarrow> nat \<Rightarrow> string \<Rightarrow> string \<Rightarrow> string \<Rightarrow> string list
                  \<Rightarrow> string list \<times> BuildCtx"
where
  "buildNode ctx node astPath code =
     (if kind node \<in> IF_TYPES then
        (let condNode = findCondition node;
             condText = (case condNode of Some c \<Rightarrow> summary c code 48 | None \<Rightarrow> ''condition'');
             (branchBlock, ctx1) =
                makeBlock ctx (''if '' @ condText) Branch node astPath [''if '' @ condText];
             body = findBody node;
             (trueResult, ctx2) =
                (case body of Some b \<Rightarrow> buildChildren ctx1 b astPath code | None \<Rightarrow> (None, ctx1));
             ctx3 = (case trueResult of
                       Some r \<Rightarrow> addEdge ctx2 (b_id branchBlock) (r_entry r) (Some ''true'')
                     | None \<Rightarrow> ctx2);
             elseNode = findElse node;
             (falseResult, ctx4) =
                (case elseNode of Some e \<Rightarrow> buildChildren ctx3 e astPath code | None \<Rightarrow> (None, ctx3));
             ctx5 = (case falseResult of
                       Some r \<Rightarrow> addEdge ctx4 (b_id branchBlock) (r_entry r) (Some ''false'')
                     | None \<Rightarrow> ctx4);
             exits = (case trueResult of Some r \<Rightarrow> r_exits r | None \<Rightarrow> [b_id branchBlock]) @
                     (case falseResult of
                        Some r \<Rightarrow> r_exits r
                      | None \<Rightarrow> if elseNode = None then [b_id branchBlock] else [])
         in (Some \<lparr>r_entry = b_id branchBlock, r_exits = exits\<rparr>, ctx5))
      else if kind node \<in> LOOP_TYPES then
        (let condNode = findCondition node;
             condText = (case condNode of Some c \<Rightarrow> summary c code 48 | None \<Rightarrow> []);
             keyword = (if take 3 (kind node) = ''for'' then ''for'' else ''while'');
             loopLabel = (if condText \<noteq> [] then keyword @ '' '' @ condText else keyword);
             (loopBlock, ctx1) = makeBlock ctx loopLabel Loop node astPath [loopLabel];
             body = findBody node;
             (bodyResult, ctx2) =
                (case body of Some b \<Rightarrow> buildChildren ctx1 b astPath code | None \<Rightarrow> (None, ctx1));
             ctx3 = (case bodyResult of
                       Some r \<Rightarrow>
                         addEdgesFrom (addEdge ctx2 (b_id loopBlock) (r_entry r) (Some ''body''))
                           (r_exits r) (b_id loopBlock) (Some ''next'')
                     | None \<Rightarrow> ctx2)
         in (Some \<lparr>r_entry = b_id loopBlock, r_exits = [b_id loopBlock]\<rparr>, ctx3))
      else if kind node \<in> MATCH_TYPES then
        (let (matchBlock, ctx1) =
                makeBlock ctx ''match'' Match node astPath [summary node code 32];
             arms = findArms node;
             (exits, ctx2) = buildArms ctx1 arms 0 (b_id matchBlock) astPath code []
         in (Some \<lparr>r_entry = b_id matchBlock,
                   r_exits = (if length exits = 0 then [b_id matchBlock] else exits)\<rparr>, ctx2))
      else if kind node \<in> RETURN_TYPES then
        (let (block, ctx1) =
                makeBlock ctx (summary node code 48) Return node astPath [summary node code 48]
         in (Some \<lparr>r_entry = b_id block, r_exits = []\<rparr>, ctx1))
      else if kind node \<in> FUNCTION_TYPES then
        (let fnName = find (\<lambda>c. kind c = ''identifier'' \<or> kind c = ''name'') (children node);
             label = (case fnName of Some f \<Rightarrow> ''fn '' @ summary f code 24 | None \<Rightarrow> ''fn'');
             (entryBlock, ctx1) = makeBlock ctx label Entry node astPath [label];
             body = findBody node;
             (bodyResult, ctx2) =
                (case body of Some b \<Rightarrow> buildChildren ctx1 b astPath code | None \<Rightarrow> (None, ctx1))
         in (case bodyResult of
               Some r \<Rightarrow>
                 (let ctx3 = addEdge ctx2 (b_id entryBlock) (r_entry r) None;
                      (exitBlock, ctx4) = makeBlock ctx3 ''end'' Exit node astPath [''end''];
                      ctx5 = addEdgesFrom ctx4 (r_exits r) (b_id exitBlock) None
                  in (Some \<lparr>r_entry = b_id entryBlock, r_exits = [b_id exitBlock]\<rparr>, ctx5))
             | None \<Rightarrow>
                 (Some \<lparr>r_entry = b_id entryBlock, r_exits = [b_id entryBlock]\<rparr>, ctx2)))
      else if kind node \<in> CONTAINER_TYPES \<or> isContainerLike node then
        buildChildren ctx node astPath code
      else if isNamed node \<and> kind node \<noteq> ''comment'' then
        (let (block, ctx1) =
                makeBlock ctx (summary node code 48) Statement node astPath [summary node code 48]
         in (Some \<lparr>r_entry = b_id block, r_exits = [b_id block]\<rparr>, ctx1))
      else (None, ctx))"
| "buildChildren ctx node astPath code =
     (let namedChildren = filter isNamed (children node)
      in if length namedChildren = 0 then (None, ctx)
         else
           (let (results, ctx1) = buildEach ctx (childIndices node) astPath code []
            in if length results = 0 then (None, ctx1)
               else (Some \<lparr>r_entry = r_entry (results ! 0),
                           r_exits = r_exits (results ! (length results - 1))\<rparr>,
                     chainResults ctx1 results)))"
| "buildEach ctx [] astPath code results = (results, ctx)"
| "buildEach ctx ((child, index) # rest) astPath code results =
     (let childPath = astPath @ ''-'' @ decimal index;
          (result, ctx1) = buildNode ctx child childPath code
      in buildEach ctx1 rest astPath code
           (case result of Some r \<Rightarrow> results @ [r] | None \<Rightarrow> results))"
| "buildArms ctx [] i matchId astPath code exits = (exits, ctx)"
| "buildArms ctx (arm # arms) i matchId astPath code exits =
     (let lbl = armLabel arm i code;
          (armResult, ctx1) = buildChildren ctx arm (astPath @ ''-arm'' @ decimal i) code
      in (case armResult of
            Some r \<Rightarrow>
              buildArms (addEdge ctx1 matchId (r_entry r) (Some lbl)) arms (i + 1) matchId
                astPath code (exits @ r_exits r)
          | None \<Rightarrow> buildArms ctx1 arms (i + 1) matchId astPath code exits))"
  by pat_completeness auto

termination
proof (relation "inv_image (less_than <*lex*> less_than)
    (\<lambda>x. case x of
       Inl (Inl (ctx, node, astPath, code)) \<Rightarrow> (3 * size node + 1, 0)
     | Inl (Inr (ctx, node, astPath, code)) \<Rightarrow> (3 * size node, 0)
     | Inr (Inl (ctx, cs, astPath, code, results)) \<Rightarrow> (3 * maxSize (map fst cs) + 2, length cs)
     | Inr (Inr (ctx, arms, i, matchId, astPath, code, exits)) \<Rightarrow> (3 * maxSize arms + 2, length arms))", goal_cases)
  case 1 show ?case by (intro wf_inv_image wf_lex_prod wf_less_than)
next
  case 2 then show ?case by (simp add: findBody_size')
next
  case 3 then show ?case by (simp add: findElse_size')
next
  case 4 then show ?case by (simp add: findBody_size')
next
  case 5 then show ?case by (simp add: maxSize_findArms3)
next
  case 6 then show ?case by (simp add: findBody_size')
next
  case 7 then show ?case by simp
next
  case 8 then show ?case by (simp add: maxSize_childIndices3)
next
  case 9 then show ?case by (auto simp add: maxSize_Cons max_def)
next
  case 10 then show ?case by (auto simp add: maxSize_Cons max_def)
next
  case 11 then show ?case by (auto simp add: maxSize_Cons max_def)
next
  case 12 then show ?case by (auto simp add: maxSize_Cons max_def)
next
  case 13 then show ?case by (auto simp add: maxSize_Cons max_def)
qed

section \<open>Public API\<close>

text \<open>
  The deduplication key of an edge; a missing label and the empty label give the same key.
\<close>

definition edgeKey :: "CfgEdge \<Rightarrow> string" where
  "edgeKey e = e_from e @ ''->'' @ e_to e @ '':'' @ (case e_label e of Some l \<Rightarrow> l | None \<Rightarrow> [])"

text \<open>The filter with the set \<open>edgeSet\<close> of keys seen so far.\<close>

fun dedupEdges :: "string set \<Rightarrow> CfgEdge list \<Rightarrow> CfgEdge list" where
  "dedupEdges edgeSet [] = []"
| "dedupEdges edgeSet (e # es) =
     (let key = edgeKey e
      in if key \<in> edgeSet then dedupEdges edgeSet es
         else e # dedupEdges (insert key edgeSet) es)"

definition buildCfg :: "AstNode \<Rightarrow> string \<Rightarrow> Cfg" where
  "buildCfg ast code =
     (let ctx = \<lparr>ctx_blocks = [], ctx_edges = [], ctx_code = code, nextBlockId = 0\<rparr>;
          (result, ctx1) = buildChildren ctx ast ''root'' code;
          ctx2 =
            (case result of
               Some r \<Rightarrow>
                 if length (ctx_blocks ctx1) > 0 then
                   (let hasEntry = list_ex (\<lambda>b. b_kind b = Entry) (ctx_blocks ctx1)
                    in if \<not> hasEntry then
                         (let (entry, c1) = makeBlock ctx1 ''entry'' Entry ast ''root'' [''entry''];
                              c2 = addEdge c1 (b_id entry) (r_entry r) None;
                              c3 = c2\<lparr>ctx_blocks := butlast (ctx_blocks c2)\<rparr>;
                              c4 = c3\<lparr>ctx_blocks := entry # ctx_blocks c3\<rparr>
                          in c4)
                       else ctx1)
                 else ctx1
             | None \<Rightarrow> ctx1);
          ctx3 = ctx2\<lparr>ctx_edges := dedupEdges {} (ctx_edges ctx2)\<rparr>
      in \<lparr>blocks = ctx_blocks ctx3, edges = ctx_edges ctx3\<rparr>)"

section \<open>Layered graph layout\<close>

text \<open>
  The layout component.  Numbers that hold pixel quantities are modelled as exact
  reals; layers, columns and indices are integers.  The canvas text measurement is a
  parameter of every function that uses it.
\<close>

record LayoutBlock =
  lb_block :: CfgBlock
  lb_x :: real
  lb_y :: real
  lb_width :: real
  lb_height :: real
  lb_column :: nat
  lb_row :: int

definition BLOCK_FONT :: string where
  \<open>BLOCK_FONT = ''12px "SF Mono", "Cascadia Code", "Fira Code", Consolas, monospace''\<close>

definition BLOCK_FONT_SMALL :: string where
  \<open>BLOCK_FONT_SMALL = ''10px "SF Mono", "Cascadia Code", "Fira Code", Consolas, monospace''\<close>

definition BLOCK_PADDING_X :: real where "BLOCK_PADDING_X = 16"
definition BLOCK_PADDING_Y :: real where "BLOCK_PADDING_Y = 10"
definition BLOCK_MIN_W :: real where "BLOCK_MIN_W = 100"
definition BLOCK_MAX_W :: real where "BLOCK_MAX_W = 280"
definition BLOCK_GAP_X :: real where "BLOCK_GAP_X = 60"
definition BLOCK_GAP_Y :: real where "BLOCK_GAP_Y = 56"

text \<open>\<open>Math.max\<close> and \<open>Math.min\<close> over a first argument and a spread list.\<close>

definition mathMax :: "real \<Rightarrow> real list \<Rightarrow> real" where
  "mathMax x xs = fold max xs x"

definition mathMin :: "real \<Rightarrow> real list \<Rightarrow> real" where
  "mathMin x xs = fold min xs x"

definition getBlockDimensions :: "(string \<Rightarrow> string \<Rightarrow> real) \<Rightarrow> CfgBlock \<Rightarrow> real \<times> real" where
  "getBlockDimensions measureText block =
     (let labelW = measureText (b_label block) BLOCK_FONT;
          stmtWidths = map (\<lambda>s. measureText s BLOCK_FONT_SMALL) (b_statements block);
          maxTextW = mathMax labelW stmtWidths;
          width = min BLOCK_MAX_W (max BLOCK_MIN_W (maxTextW + BLOCK_PADDING_X * 2));
          lineH = 16;
          stmtH = (if length (b_statements block) > 0
                   then real (length (b_statements block)) * lineH + 4 else 0);
          height = BLOCK_PADDING_Y * 2 + 14 + stmtH
      in (width, height))"

text \<open>
  A \<open>Map\<close> with string keys is an association list in insertion order;
  \<open>get(k) || []\<close> is \<open>getOr\<close>.
\<close>

definition getOr :: "('k \<times> 'v list) list \<Rightarrow> 'k \<Rightarrow> 'v list" where
  "getOr m k = (case map_of m k of Some vs \<Rightarrow> vs | None \<Rightarrow> [])"

definition addBlock ::
  "CfgBlock \<Rightarrow> (string \<times> string list) list \<times> (string \<times> string list) list
     \<Rightarrow> (string \<times> string list) list \<times> (string \<times> string list) list" where
  "addBlock b sp =
     (case sp of (successors, predecessors) \<Rightarrow>
        (AList.update (b_id b) [] successors, AList.update (b_id b) [] predecessors))"

definition initAdjacency ::
  "CfgBlock list \<Rightarrow> (string \<times> string list) list \<times> (string \<times> string list) list" where
  "initAdjacency bs = fold addBlock bs ([], [])"

definition addAdjacency ::
  "CfgEdge \<Rightarrow> (string \<times> string list) list \<times> (string \<times> string list) list
     \<Rightarrow> (string \<times> string list) list \<times> (string \<times> string list) list" where
  "addAdjacency e sp =
     (case sp of (successors, predecessors) \<Rightarrow>
        (case (map_of successors (e_from e), map_of predecessors (e_to e)) of
           (Some ss, Some ps) \<Rightarrow>
             (AList.update (e_from e) (ss @ [e_to e]) successors,
              AList.update (e_to e) (ps @ [e_from e]) predecessors)
         | _ \<Rightarrow> (successors, predecessors)))"

definition buildAdjacency ::
  "Cfg \<Rightarrow> (string \<times> string list) list \<times> (string \<times> string list) list" where
  "buildAdjacency cfg = fold addAdjacency (edges cfg) (initAdjacency (blocks cfg))"

text \<open>
  The closure \<open>assignLayer\<close> reads \<open>predecessors\<close> and updates the map \<open>layer\<close> and the
  set \<open>visited\<close>; \<open>maxPredLayer\<close> is its loop over the predecessors, with the running
  maximum.
\<close>

record LayerState =
  layer :: "string \<rightharpoonup> int"
  visited :: "string set"

function
  assignLayer :: "(string \<times> string list) list \<Rightarrow> LayerState \<Rightarrow> string \<Rightarrow> int \<times> LayerState" and
  maxPredLayer :: "(string \<times> string list) list \<Rightarrow> LayerState \<Rightarrow> string list \<Rightarrow> int
                     \<Rightarrow> int \<times> LayerState"
where
  "assignLayer predecessors st i =
     (case layer st i of
        Some l \<Rightarrow> (l, st)
      | None \<Rightarrow>
          if i \<in> visited st then (0, st)
          else
            (let st1 = st\<lparr>visited := insert i (visited st)\<rparr>;
                 preds = getOr predecessors i;
                 (maxPred, st2) = maxPredLayer predecessors st1 preds (- 1);
                 l = maxPred + 1
             in (l, st2\<lparr>layer := (layer st2)(i \<mapsto> l)\<rparr>)))"
| "maxPredLayer predecessors st [] maxPred = (maxPred, st)"
| "maxPredLayer predecessors st (p # ps) maxPred =
     (let (l, st') = assignLayer predecessors st p
      in maxPredLayer predecessors st' ps (max maxPred l))"
  by pat_completeness auto

lemma visited_mono_partial:
  "assignLayer_maxPredLayer_dom (Inl (P, st, i)) \<Longrightarrow>
     visited st \<subseteq> visited (snd (assignLayer P st i))"
  "assignLayer_maxPredLayer_dom (Inr (P, st, ps, m)) \<Longrightarrow>
     visited st \<subseteq> visited (snd (maxPredLayer P st ps m))"
proof (induction P st i and P st ps m rule: assignLayer_maxPredLayer.pinduct)
  case (1 predecessors st i)
  show ?case
  proof (cases "layer st i = None \<and> i \<notin> visited st")
    case False
    then show ?thesis using "1.hyps" by (auto simp: assignLayer.psimps split: option.splits)
  next
    case True
    then have n: "layer st i = None" and v: "i \<notin> visited st" by simp_all
    from "1.IH"[OF n v refl refl]
    have "insert i (visited st) \<subseteq> visited (snd (maxPredLayer predecessors
        (st\<lparr>visited := insert i (visited st)\<rparr>) (getOr predecessors i) (- 1)))"
      by simp
    then show ?thesis
      using "1.hyps" n v by (auto simp: assignLayer.psimps Let_def split: prod.splits)
  qed
next
  case (2 predecessors st maxPred)
  then show ?case by (simp add: maxPredLayer.psimps)
next
  case (3 predecessors st p ps maxPred)
  obtain l st' where a: "assignLayer predecessors st p = (l, st')" by fastforce
  from "3.IH"(1) a have s1: "visited st \<subseteq> visited st'" by simp
  have s2: "visited st' \<subseteq> visited (snd (maxPredLayer predecessors st' ps (max maxPred l)))"
    using "3.IH"(2)[of "(l, st')" l st'] a by simp
  show ?case using s1 s2 a "3.hyps" by (auto simp: maxPredLayer.psimps)
qed

termination assignLayer
proof (relation "inv_image (less_than <*lex*> less_than <*lex*> less_than)
    (\<lambda>x. case x of
       Inl (P, st, i) \<Rightarrow> (card (fst ` set P - visited st), 1, 0)
     | Inr (P, st, ps, m) \<Rightarrow>
         (card (fst ` set P - visited st), if ps = [] then 0 else 2, length ps))", goal_cases)
  case 1
  show ?case by (intro wf_inv_image wf_lex_prod wf_less_than)
next
  case (2 predecessors st i x1 x2)
  show ?case
  proof (cases "getOr predecessors i = []")
    case True
    have "card (fst ` set predecessors - insert i (visited st))
        \<le> card (fst ` set predecessors - visited st)"
      by (intro card_mono) auto
    then show ?thesis using True 2 by auto
  next
    case False
    then have "i \<in> fst ` set predecessors"
      by (auto simp: getOr_def split: option.splits dest!: map_of_SomeD intro: rev_image_eqI)
    then have "card (fst ` set predecessors - insert i (visited st))
        < card (fst ` set predecessors - visited st)"
      using 2 by (intro psubset_card_mono) auto
    then show ?thesis using 2 by simp
  qed
next
  case (3 predecessors st p ps maxPred)
  then show ?case by simp
next
  case (4 predecessors st p ps maxPred x xa y)
  have "visited st \<subseteq> visited y"
    using visited_mono_partial(1)[OF 4(3)] 4(1,2) by (metis snd_conv)
  then have "card (fst ` set predecessors - visited y) \<le> card (fst ` set predecessors - visited st)"
    by (intro card_mono) auto
  then show ?case by auto
qed

declare assignLayer.simps [simp del]

definition assignAll :: "(string \<times> string list) list \<Rightarrow> CfgBlock list \<Rightarrow> LayerState" where
  "assignAll predecessors bs =
     fold (\<lambda>b st. snd (assignLayer predecessors st (b_id b))) bs
          \<lparr>layer = Map.empty, visited = {}\<rparr>"

text \<open>Grouping: \<open>layer.get(b.id) || 0\<close>, then push onto the list of that layer.\<close>

definition layerOr0 :: "(string \<rightharpoonup> int) \<Rightarrow> string \<Rightarrow> int" where
  "layerOr0 lay i = (case lay i of Some l \<Rightarrow> l | None \<Rightarrow> 0)"

definition groupByLayer :: "(string \<rightharpoonup> int) \<Rightarrow> CfgBlock list \<Rightarrow> (int \<times> CfgBlock list) list" where
  "groupByLayer lay bs =
     fold (\<lambda>b layers.
             (let l = layerOr0 lay (b_id b)
              in AList.update l (getOr layers l @ [b]) layers))
          bs []"

text \<open>
  The barycenter of a block: the mean position of its predecessors in the previous
  layer (\<open>prevPos.get(p) ?? 0\<close>), or 0 without predecessors.
\<close>

definition prevPosOf :: "CfgBlock list \<Rightarrow> (string \<rightharpoonup> nat)" where
  "prevPosOf prevBlocks =
     fold (\<lambda>(b, i) m. m(b_id b \<mapsto> i)) (zip prevBlocks [0..<length prevBlocks]) Map.empty"

definition barycenter :: "(string \<times> string list) list \<Rightarrow> (string \<rightharpoonup> nat) \<Rightarrow> CfgBlock \<Rightarrow> real" where
  "barycenter predecessors prevPos a =
     (let aPreds = getOr predecessors (b_id a)
      in if length aPreds > 0
         then fold (\<lambda>p s. s + real (case prevPos p of Some i \<Rightarrow> i | None \<Rightarrow> 0)) aPreds 0
                / real (length aPreds)
         else 0)"

text \<open>
  The reordering loop over the layers 1, 2, \<dots> in key order.  The comparator
  \<open>aAvg - bAvg\<close> with the stable \<open>Array.prototype.sort\<close> is the stable sort by
  barycenter.
\<close>

definition orderLayers ::
  "(string \<times> string list) list \<Rightarrow> int list \<Rightarrow> (int \<times> CfgBlock list) list
     \<Rightarrow> (int \<times> CfgBlock list) list" where
  "orderLayers predecessors sortedLayerKeys layers =
     fold (\<lambda>li layers.
             (let layerKey = sortedLayerKeys ! li;
                  bs = getOr layers layerKey;
                  prevBlocks = getOr layers (sortedLayerKeys ! (li - 1));
                  prevPos = prevPosOf prevBlocks
              in AList.update layerKey (sort_key (barycenter predecessors prevPos) bs) layers))
          [1..<length sortedLayerKeys] layers"

text \<open>The inner positioning loop over the blocks of one layer.\<close>

fun placeRow ::
  "(CfgBlock \<times> real \<times> real) list \<Rightarrow> nat \<Rightarrow> real \<Rightarrow> real \<Rightarrow> int \<Rightarrow> LayoutBlock list" where
  "placeRow [] i currentX currentY layerKey = []"
| "placeRow ((b, w, h) # rest) i currentX currentY layerKey =
     \<lparr>lb_block = b, lb_x = currentX, lb_y = currentY, lb_width = w, lb_height = h,
      lb_column = i, lb_row = layerKey\<rparr>
     # placeRow rest (i + 1) (currentX + (w + BLOCK_GAP_X)) currentY layerKey"

definition placeLayer ::
  "(string \<Rightarrow> string \<Rightarrow> real) \<Rightarrow> (int \<times> CfgBlock list) list \<Rightarrow> int
     \<Rightarrow> LayoutBlock list \<times> real \<Rightarrow> LayoutBlock list \<times> real" where
  "placeLayer measureText layers layerKey acc =
     (case acc of (layoutBlocks, currentY) \<Rightarrow>
        (let bs = getOr layers layerKey;
             dims = map (getBlockDimensions measureText) bs;
             maxH = (case map snd dims of [] \<Rightarrow> 0 | h # hs \<Rightarrow> mathMax h hs);
             totalW = sum_list (map fst dims) + (real (length bs) - 1) * BLOCK_GAP_X;
             currentX = - totalW / 2
         in (layoutBlocks @ placeRow (zip bs dims) 0 currentX currentY layerKey,
             currentY + (maxH + BLOCK_GAP_Y))))"

definition normalizeX :: "LayoutBlock list \<Rightarrow> LayoutBlock list" where
  "normalizeX layoutBlocks =
     (case map lb_x layoutBlocks of
        [] \<Rightarrow> layoutBlocks
      | x # xs \<Rightarrow>
          (let minX = mathMin x xs
           in if minX < 0 then map (\<lambda>b. b\<lparr>lb_x := lb_x b - minX\<rparr>) layoutBlocks
              else layoutBlocks))"

definition layoutCfg :: "(string \<Rightarrow> string \<Rightarrow> real) \<Rightarrow> Cfg \<Rightarrow> LayoutBlock list" where
  "layoutCfg measureText cfg =
     (if length (blocks cfg) = 0 then []
      else
        (let (successors, predecessors) = buildAdjacency cfg;
             st = assignAll predecessors (blocks cfg);
             layers = groupByLayer (layer st) (blocks cfg);
             sortedLayerKeys = sort (map fst layers);
             layers' = orderLayers predecessors sortedLayerKeys layers;
             (layoutBlocks, currentY) =
                fold (placeLayer measureText layers') sortedLayerKeys ([], 0)
         in normalizeX layoutBlocks))"


definition backEdgeKey :: "CfgEdge \<Rightarrow> string" where
  "backEdgeKey e = e_from e @ ''->'' @ e_to e"


section \<open>Block identifiers are distinct\<close>

lemma digitChar_inj: "d < 10 \<Longrightarrow> d' < 10 \<Longrightarrow> digitChar d = digitChar d' \<Longrightarrow> d = d'"
  unfolding digitChar_def
  by (simp add: less_Suc_eq numeral_eq_Suc; elim disjE; simp)

lemma decimal_length: "length (decimal n) = (if n < 10 then 1 else Suc (length (decimal (n div 10))))"
  by (subst decimal.simps) simp

lemma decimal_nonempty: "decimal n \<noteq> []"
  by (subst decimal.simps) simp

lemma decimal_inj: "decimal m = decimal n \<Longrightarrow> m = n"
proof (induction m arbitrary: n rule: decimal.induct)
  case (1 m)
  show ?case
  proof (cases "m < 10")
    case True
    then have m1: "decimal m = [digitChar m]" by (subst decimal.simps) simp
    show ?thesis
    proof (cases "n < 10")
      case n: True
      then have "decimal n = [digitChar n]" by (subst decimal.simps) simp
      with m1 "1.prems" True n show ?thesis by (auto dest: digitChar_inj)
    next
      case False
      then have "decimal n = decimal (n div 10) @ [digitChar (n mod 10)]"
        by (subst decimal.simps) simp
      with m1 "1.prems" decimal_nonempty[of "n div 10"] show ?thesis by (cases "decimal (n div 10)") auto
    qed
  next
    case False
    then have m1: "decimal m = decimal (m div 10) @ [digitChar (m mod 10)]"
      by (subst decimal.simps) simp
    show ?thesis
    proof (cases "n < 10")
      case True
      then have "decimal n = [digitChar n]" by (subst decimal.simps) simp
      with m1 "1.prems" decimal_nonempty[of "m div 10"] show ?thesis by (cases "decimal (m div 10)") auto
    next
      case n: False
      then have "decimal n = decimal (n div 10) @ [digitChar (n mod 10)]"
        by (subst decimal.simps) simp
      with m1 "1.prems" have a: "decimal (m div 10) = decimal (n div 10)"
        and b: "digitChar (m mod 10) = digitChar (n mod 10)" by auto
      from "1.IH"[OF False a] have "m div 10 = n div 10" .
      moreover from b have "m mod 10 = n mod 10" by (intro digitChar_inj) simp_all
      ultimately show ?thesis by (metis div_mult_mod_eq)
    qed
  qed
qed

lemma makeId_inj [simp]: "makeId m = makeId n \<longleftrightarrow> m = n"
  by (auto simp: makeId_def dest: decimal_inj)

section \<open>Frame properties of the builder\<close>

definition freshIds :: "BuildCtx \<Rightarrow> BuildCtx \<Rightarrow> string set" where
  "freshIds c c' = makeId ` {nextBlockId c ..< nextBlockId c'}"

definition newBlocks :: "BuildCtx \<Rightarrow> BuildCtx \<Rightarrow> CfgBlock list" where
  "newBlocks c c' = drop (length (ctx_blocks c)) (ctx_blocks c')"

definition newEdges :: "BuildCtx \<Rightarrow> BuildCtx \<Rightarrow> CfgEdge list" where
  "newEdges c c' = drop (length (ctx_edges c)) (ctx_edges c')"

definition liveId :: "BuildCtx \<Rightarrow> BuildCtx \<Rightarrow> string \<Rightarrow> bool" where
  "liveId c c' i \<longleftrightarrow>
     i \<in> freshIds c c' \<and> (\<forall>b \<in> set (newBlocks c c'). b_id b = i \<longrightarrow> b_kind b \<noteq> Return)"

definition blocksExt :: "BuildCtx \<Rightarrow> BuildCtx \<Rightarrow> bool" where
  "blocksExt c c' \<longleftrightarrow>
     nextBlockId c \<le> nextBlockId c' \<and>
     prefix (ctx_blocks c) (ctx_blocks c') \<and>
     prefix (ctx_edges c) (ctx_edges c') \<and>
     map b_id (newBlocks c c') = map makeId [nextBlockId c ..< nextBlockId c']"

definition builds :: "BuildCtx \<Rightarrow> BuildCtx \<Rightarrow> bool" where
  "builds c c' \<longleftrightarrow>
     blocksExt c c' \<and>
     (\<forall>e \<in> set (newEdges c c'). liveId c c' (e_from e) \<and> e_to e \<in> freshIds c c')"

definition resOk :: "BuildCtx \<Rightarrow> BuildCtx \<Rightarrow> BuildResult \<Rightarrow> bool" where
  "resOk c c' r \<longleftrightarrow> r_entry r \<in> freshIds c c' \<and> (\<forall>x \<in> set (r_exits r). liveId c c' x)"

lemma blocksExt_refl [simp]: "blocksExt c c"
  by (simp add: blocksExt_def newBlocks_def)

lemma builds_refl [simp]: "builds c c"
  by (simp add: builds_def newEdges_def)

lemma blocksExtE:
  assumes "blocksExt c c'"
  obtains bs es where
    "ctx_blocks c' = ctx_blocks c @ bs" "ctx_edges c' = ctx_edges c @ es"
    "newBlocks c c' = bs" "newEdges c c' = es"
    "map b_id bs = map makeId [nextBlockId c ..< nextBlockId c']"
    "nextBlockId c \<le> nextBlockId c'"
proof -
  from assms obtain bs es where
    1: "ctx_blocks c' = ctx_blocks c @ bs" and 2: "ctx_edges c' = ctx_edges c @ es"
    unfolding blocksExt_def prefix_def by blast
  have 3: "newBlocks c c' = bs" by (simp add: newBlocks_def 1)
  have 4: "newEdges c c' = es" by (simp add: newEdges_def 2)
  from assms 3 have 5: "map b_id bs = map makeId [nextBlockId c ..< nextBlockId c']"
    by (simp add: blocksExt_def)
  from assms have 6: "nextBlockId c \<le> nextBlockId c'" by (simp add: blocksExt_def)
  from 1 2 3 4 5 6 show thesis by (rule that)
qed

lemma blocksExtI:
  assumes "ctx_blocks c' = ctx_blocks c @ bs" "ctx_edges c' = ctx_edges c @ es"
    "map b_id bs = map makeId [nextBlockId c ..< nextBlockId c']"
    "nextBlockId c \<le> nextBlockId c'"
  shows "blocksExt c c'"
  using assms by (simp add: blocksExt_def newBlocks_def)

lemma upt_split: "a \<le> b \<Longrightarrow> b \<le> c \<Longrightarrow> [a..<c] = [a..<b] @ [b..<(c::nat)]"
  by (metis le_Suc_ex upt_add_eq_append)

lemma blocksExt_trans:
  assumes "blocksExt a b" "blocksExt b c"
  shows "blocksExt a c"
proof -
  from assms(1) obtain bs1 es1 where
    1: "ctx_blocks b = ctx_blocks a @ bs1" "ctx_edges b = ctx_edges a @ es1"
       "map b_id bs1 = map makeId [nextBlockId a ..< nextBlockId b]"
       "nextBlockId a \<le> nextBlockId b"
    by (rule blocksExtE)
  from assms(2) obtain bs2 es2 where
    2: "ctx_blocks c = ctx_blocks b @ bs2" "ctx_edges c = ctx_edges b @ es2"
       "map b_id bs2 = map makeId [nextBlockId b ..< nextBlockId c]"
       "nextBlockId b \<le> nextBlockId c"
    by (rule blocksExtE)
  show ?thesis
  proof (rule blocksExtI)
    show "ctx_blocks c = ctx_blocks a @ (bs1 @ bs2)" by (simp add: 1 2)
    show "ctx_edges c = ctx_edges a @ (es1 @ es2)" by (simp add: 1 2)
    show "map b_id (bs1 @ bs2) = map makeId [nextBlockId a ..< nextBlockId c]"
      by (simp add: 1(3) 2(3) upt_split[OF 1(4) 2(4)])
    show "nextBlockId a \<le> nextBlockId c" using 1(4) 2(4) by simp
  qed
qed

lemma newBlocks_trans:
  assumes "blocksExt a b" "blocksExt b c"
  shows "newBlocks a c = newBlocks a b @ newBlocks b c"
proof -
  from assms(1) obtain bs1 es1 where
    1: "ctx_blocks b = ctx_blocks a @ bs1" "newBlocks a b = bs1"
    by (rule blocksExtE)
  from assms(2) obtain bs2 es2 where
    2: "ctx_blocks c = ctx_blocks b @ bs2" "newBlocks b c = bs2"
    by (rule blocksExtE)
  show ?thesis unfolding 1(2) 2(2) by (simp add: newBlocks_def 1(1) 2(1))
qed

lemma newEdges_trans:
  assumes "blocksExt a b" "blocksExt b c"
  shows "newEdges a c = newEdges a b @ newEdges b c"
proof -
  from assms(1) obtain bs1 es1 where
    1: "ctx_edges b = ctx_edges a @ es1" "newEdges a b = es1"
    by (rule blocksExtE)
  from assms(2) obtain bs2 es2 where
    2: "ctx_edges c = ctx_edges b @ es2" "newEdges b c = es2"
    by (rule blocksExtE)
  show ?thesis unfolding 1(2) 2(2) by (simp add: newEdges_def 1(1) 2(1))
qed

lemma freshIds_trans:
  assumes "blocksExt a b" "blocksExt b c"
  shows "freshIds a c = freshIds a b \<union> freshIds b c"
proof -
  have "nextBlockId a \<le> nextBlockId b" "nextBlockId b \<le> nextBlockId c"
    using assms by (simp_all add: blocksExt_def)
  then have "{nextBlockId a ..< nextBlockId c} =
      {nextBlockId a ..< nextBlockId b} \<union> {nextBlockId b ..< nextBlockId c}"
    by (simp add: ivl_disj_un_two(3))
  then show ?thesis by (simp add: freshIds_def image_Un)
qed

lemma newBlocks_ids:
  assumes "blocksExt c c'" "b \<in> set (newBlocks c c')"
  shows "b_id b \<in> freshIds c c'"
proof -
  have "b_id b \<in> set (map b_id (newBlocks c c'))" using assms(2) by simp
  also have "\<dots> = set (map makeId [nextBlockId c ..< nextBlockId c'])"
    using assms(1) by (simp add: blocksExt_def)
  finally show ?thesis by (simp add: freshIds_def)
qed

lemma freshIds_disj:
  assumes "i \<in> freshIds a b" "i \<in> freshIds b c"
  shows False
proof -
  from assms(1) obtain k where k: "i = makeId k" "k < nextBlockId b"
    by (auto simp: freshIds_def)
  from assms(2) obtain j where j: "i = makeId j" "nextBlockId b \<le> j"
    by (auto simp: freshIds_def)
  from k j show False by simp
qed

lemma liveId_mono:
  assumes "liveId a b i" "blocksExt a b" "blocksExt b c"
  shows "liveId a c i"
  unfolding liveId_def
proof (intro conjI ballI impI)
  show "i \<in> freshIds a c"
    using assms(1) by (simp add: liveId_def freshIds_trans[OF assms(2,3)])
next
  fix blk assume blk: "blk \<in> set (newBlocks a c)" "b_id blk = i"
  then consider "blk \<in> set (newBlocks a b)" | "blk \<in> set (newBlocks b c)"
    by (auto simp: newBlocks_trans[OF assms(2,3)])
  then show "b_kind blk \<noteq> Return"
  proof cases
    case 1
    with assms(1) blk(2) show ?thesis by (simp add: liveId_def)
  next
    case 2
    then have "i \<in> freshIds b c" using newBlocks_ids[OF assms(3)] blk(2) by blast
    moreover have "i \<in> freshIds a b" using assms(1) by (simp add: liveId_def)
    ultimately show ?thesis using freshIds_disj by blast
  qed
qed

lemma liveId_shift:
  assumes "liveId b c i" "blocksExt a b" "blocksExt b c"
  shows "liveId a c i"
  unfolding liveId_def
proof (intro conjI ballI impI)
  show "i \<in> freshIds a c"
    using assms(1) by (simp add: liveId_def freshIds_trans[OF assms(2,3)])
next
  fix blk assume blk: "blk \<in> set (newBlocks a c)" "b_id blk = i"
  then consider "blk \<in> set (newBlocks a b)" | "blk \<in> set (newBlocks b c)"
    by (auto simp: newBlocks_trans[OF assms(2,3)])
  then show "b_kind blk \<noteq> Return"
  proof cases
    case 2
    with assms(1) blk(2) show ?thesis by (simp add: liveId_def)
  next
    case 1
    then have "i \<in> freshIds a b" using newBlocks_ids[OF assms(2)] blk(2) by blast
    moreover have "i \<in> freshIds b c" using assms(1) by (simp add: liveId_def)
    ultimately show ?thesis using freshIds_disj by blast
  qed
qed

lemma builds_blocksExt: "builds c c' \<Longrightarrow> blocksExt c c'"
  by (simp add: builds_def)

lemma builds_trans:
  assumes "builds a b" "builds b c"
  shows "builds a c"
proof -
  have ab: "blocksExt a b" and bc: "blocksExt b c"
    using assms by (simp_all add: builds_def)
  show ?thesis
    unfolding builds_def
  proof (intro conjI ballI)
    show "blocksExt a c" using ab bc by (rule blocksExt_trans)
  next
    fix e assume "e \<in> set (newEdges a c)"
    then consider "e \<in> set (newEdges a b)" | "e \<in> set (newEdges b c)"
      by (auto simp: newEdges_trans[OF ab bc])
    then show "liveId a c (e_from e)"
    proof cases
      case 1
      then have "liveId a b (e_from e)" using assms(1) by (simp add: builds_def)
      then show ?thesis using ab bc by (rule liveId_mono)
    next
      case 2
      then have "liveId b c (e_from e)" using assms(2) by (simp add: builds_def)
      then show ?thesis using ab bc by (rule liveId_shift)
    qed
  next
    fix e assume "e \<in> set (newEdges a c)"
    then consider "e \<in> set (newEdges a b)" | "e \<in> set (newEdges b c)"
      by (auto simp: newEdges_trans[OF ab bc])
    then show "e_to e \<in> freshIds a c"
    proof cases
      case 1
      then have "e_to e \<in> freshIds a b" using assms(1) by (simp add: builds_def)
      then show ?thesis by (simp add: freshIds_trans[OF ab bc])
    next
      case 2
      then have "e_to e \<in> freshIds b c" using assms(2) by (simp add: builds_def)
      then show ?thesis by (simp add: freshIds_trans[OF ab bc])
    qed
  qed
qed

lemma resOk_mono: "resOk a b r \<Longrightarrow> blocksExt a b \<Longrightarrow> blocksExt b c \<Longrightarrow> resOk a c r"
  unfolding resOk_def using liveId_mono[of a b _ c] freshIds_trans[of a b c] by blast

lemma resOk_shift: "resOk b c r \<Longrightarrow> blocksExt a b \<Longrightarrow> blocksExt b c \<Longrightarrow> resOk a c r"
  unfolding resOk_def using liveId_shift[of b c _ a] freshIds_trans[of a b c] by blast

lemma makeBlock_props:
  assumes "makeBlock c l k n p s = (b, c')"
  shows "ctx_blocks c' = ctx_blocks c @ [b]" "ctx_edges c' = ctx_edges c"
    "nextBlockId c' = Suc (nextBlockId c)" "b_id b = makeId (nextBlockId c)"
    "b_kind b = k" "b_label b = l"
  using assms by (auto simp: makeBlock_def Let_def)

lemma makeBlock_builds:
  assumes "makeBlock c l k n p s = (b, c')"
  shows "builds c c'"
proof -
  note mp = makeBlock_props[OF assms]
  have ext: "blocksExt c c'"
    by (rule blocksExtI[where bs = "[b]" and es = "[]"]) (simp_all add: mp)
  moreover have "newEdges c c' = []" by (simp add: newEdges_def mp)
  ultimately show ?thesis by (simp add: builds_def)
qed

lemma makeBlock_fresh:
  assumes "makeBlock c l k n p s = (b, c')"
  shows "b_id b \<in> freshIds c c'"
  by (simp add: freshIds_def makeBlock_props[OF assms])

lemma makeBlock_live:
  assumes "makeBlock c l k n p s = (b, c')" "k \<noteq> Return"
  shows "liveId c c' (b_id b)"
  using assms(2) makeBlock_fresh[OF assms(1)]
  by (simp add: liveId_def newBlocks_def makeBlock_props[OF assms(1)])

lemma addEdge_simps [simp]:
  "ctx_blocks (addEdge c f t l) = ctx_blocks c"
  "nextBlockId (addEdge c f t l) = nextBlockId c"
  "ctx_edges (addEdge c f t l) = ctx_edges c @ [\<lparr>e_from = f, e_to = t, e_label = l\<rparr>]"
  by (simp_all add: addEdge_def)

lemma addEdge_frame [simp]:
  "freshIds c (addEdge c' f t l) = freshIds c c'"
  "newBlocks c (addEdge c' f t l) = newBlocks c c'"
  "liveId c (addEdge c' f t l) i = liveId c c' i"
  "freshIds (addEdge c f t l) c' = freshIds c c'"
  by (simp_all add: freshIds_def newBlocks_def liveId_def)

lemma addEdge_blocksExt: "blocksExt c c' \<Longrightarrow> blocksExt c (addEdge c' f t l)"
  by (erule blocksExtE, rule blocksExtI) simp_all

lemma addEdge_builds:
  assumes "builds c c'" "liveId c c' f" "t \<in> freshIds c c'"
  shows "builds c (addEdge c' f t l)"
proof -
  have ext: "blocksExt c c'" using assms(1) by (simp add: builds_def)
  then have "newEdges c (addEdge c' f t l) = newEdges c c' @ [\<lparr>e_from = f, e_to = t, e_label = l\<rparr>]"
    by (elim blocksExtE) (simp add: newEdges_def)
  then show ?thesis
    using assms addEdge_blocksExt[OF ext] by (auto simp: builds_def)
qed

lemma addEdgesFrom_Nil [simp]: "addEdgesFrom c [] t l = c"
  by (simp add: addEdgesFrom_def)

lemma addEdgesFrom_Cons [simp]:
  "addEdgesFrom c (x # xs) t l = addEdgesFrom (addEdge c x t l) xs t l"
  by (simp add: addEdgesFrom_def)

lemma addEdgesFrom_simps [simp]:
  "ctx_blocks (addEdgesFrom c xs t l) = ctx_blocks c"
  "nextBlockId (addEdgesFrom c xs t l) = nextBlockId c"
  "ctx_edges (addEdgesFrom c xs t l) =
     ctx_edges c @ map (\<lambda>x. \<lparr>e_from = x, e_to = t, e_label = l\<rparr>) xs"
  by (induction xs arbitrary: c; simp)+

lemma addEdgesFrom_frame [simp]:
  "freshIds c (addEdgesFrom c' xs t l) = freshIds c c'"
  "newBlocks c (addEdgesFrom c' xs t l) = newBlocks c c'"
  "liveId c (addEdgesFrom c' xs t l) i = liveId c c' i"
  by (simp_all add: freshIds_def newBlocks_def liveId_def)

lemma addEdgesFrom_builds:
  assumes "builds c c'" "\<forall>x \<in> set xs. liveId c c' x" "t \<in> freshIds c c'"
  shows "builds c (addEdgesFrom c' xs t l)"
  using assms
proof (induction xs arbitrary: c')
  case Nil
  then show ?case by simp
next
  case (Cons x xs)
  have "builds c (addEdge c' x t l)"
    using Cons.prems by (intro addEdge_builds) simp_all
  then show ?case using Cons.prems by (simp add: Cons.IH)
qed

lemma chainResults_simps [simp]:
  "ctx_blocks (chainResults c rs) = ctx_blocks c"
  "nextBlockId (chainResults c rs) = nextBlockId c"
proof -
  have "ctx_blocks (fold (\<lambda>i c. addEdgesFrom c (r_exits (rs ! (i - 1))) (r_entry (rs ! i)) None) is c)
      = ctx_blocks c \<and>
    nextBlockId (fold (\<lambda>i c. addEdgesFrom c (r_exits (rs ! (i - 1))) (r_entry (rs ! i)) None) is c)
      = nextBlockId c" for "is"
    by (induction "is" arbitrary: c) simp_all
  then show "ctx_blocks (chainResults c rs) = ctx_blocks c"
    "nextBlockId (chainResults c rs) = nextBlockId c"
    by (simp_all add: chainResults_def)
qed

lemma chainResults_frame [simp]:
  "freshIds c (chainResults c' rs) = freshIds c c'"
  "newBlocks c (chainResults c' rs) = newBlocks c c'"
  "liveId c (chainResults c' rs) i = liveId c c' i"
  by (simp_all add: freshIds_def newBlocks_def liveId_def)

lemma resOk_frame [simp]:
  "resOk c (addEdgesFrom c' xs t l) r = resOk c c' r"
  "resOk c (addEdge c' f t l) r = resOk c c' r"
  "resOk c (chainResults c' rs) r = resOk c c' r"
  by (simp_all add: resOk_def)

lemma chainResults_builds:
  assumes "builds c c'" "\<forall>r \<in> set rs. resOk c c' r"
  shows "builds c (chainResults c' rs)"
proof -
  have "builds c (fold (\<lambda>i c. addEdgesFrom c (r_exits (rs ! (i - 1))) (r_entry (rs ! i)) None) is d)"
    if "\<forall>i \<in> set is. 0 < i \<and> i < length rs" "builds c d" "\<forall>r \<in> set rs. resOk c d r"
    for "is" d
    using that
  proof (induction "is" arbitrary: d)
    case Nil
    then show ?case by simp
  next
    case (Cons i "is")
    have i: "0 < i" "i < length rs" using Cons.prems(1) by simp_all
    then have "rs ! (i - 1) \<in> set rs" "rs ! i \<in> set rs" by simp_all
    then have "resOk c d (rs ! (i - 1))" "resOk c d (rs ! i)"
      using Cons.prems(3) by blast+
    then have "builds c (addEdgesFrom d (r_exits (rs ! (i - 1))) (r_entry (rs ! i)) None)"
      using Cons.prems(2) by (intro addEdgesFrom_builds) (simp_all add: resOk_def)
    moreover have "\<forall>i \<in> set is. 0 < i \<and> i < length rs" using Cons.prems(1) by simp
    moreover have "\<forall>r \<in> set rs.
        resOk c (addEdgesFrom d (r_exits (rs ! (i - 1))) (r_entry (rs ! i)) None) r"
      using Cons.prems(3) by simp
    ultimately have "builds c (fold (\<lambda>i c. addEdgesFrom c (r_exits (rs ! (i - 1))) (r_entry (rs ! i)) None)
        is (addEdgesFrom d (r_exits (rs ! (i - 1))) (r_entry (rs ! i)) None))"
      by (intro Cons.IH)
    then show ?case by simp
  qed
  from this[of "[1..<length rs]" c'] assms show ?thesis by (simp add: chainResults_def)
qed

section \<open>One-step characterisation of buildNode\<close>

declare buildNode.simps [simp del] buildChildren.simps [simp del]

lemma kinds_disjoint:
  "k \<in> LOOP_TYPES \<Longrightarrow> k \<notin> IF_TYPES"
  "k \<in> MATCH_TYPES \<Longrightarrow> k \<notin> IF_TYPES \<and> k \<notin> LOOP_TYPES"
  "k \<in> RETURN_TYPES \<Longrightarrow> k \<notin> IF_TYPES \<and> k \<notin> LOOP_TYPES \<and> k \<notin> MATCH_TYPES"
  "k \<in> FUNCTION_TYPES \<Longrightarrow>
     k \<notin> IF_TYPES \<and> k \<notin> LOOP_TYPES \<and> k \<notin> MATCH_TYPES \<and> k \<notin> RETURN_TYPES"
  by (auto simp: IF_TYPES_def LOOP_TYPES_def MATCH_TYPES_def RETURN_TYPES_def FUNCTION_TYPES_def)

definition condLabel :: "AstNode \<Rightarrow> string \<Rightarrow> string" where
  "condLabel node code =
     ''if '' @ (case findCondition node of Some c \<Rightarrow> summary c code 48 | None \<Rightarrow> ''condition'')"

definition loopLabel :: "AstNode \<Rightarrow> string \<Rightarrow> string" where
  "loopLabel node code =
     (let condText = (case findCondition node of Some c \<Rightarrow> summary c code 48 | None \<Rightarrow> []);
          keyword = (if take 3 (kind node) = ''for'' then ''for'' else ''while'')
      in if condText \<noteq> [] then keyword @ '' '' @ condText else keyword)"

definition fnLabel :: "AstNode \<Rightarrow> string \<Rightarrow> string" where
  "fnLabel node code =
     (case find (\<lambda>c. kind c = ''identifier'' \<or> kind c = ''name'') (children node) of
        Some f \<Rightarrow> ''fn '' @ summary f code 24 | None \<Rightarrow> ''fn'')"

lemma buildNode_IF:
  assumes "kind node \<in> IF_TYPES"
    and "makeBlock ctx (condLabel node code) Branch node p [condLabel node code] = (bb, c1)"
    and "(case findBody node of Some b \<Rightarrow> buildChildren c1 b p code | None \<Rightarrow> (None, c1)) = (tr, c2)"
    and "c3 = (case tr of Some r \<Rightarrow> addEdge c2 (b_id bb) (r_entry r) (Some ''true'') | None \<Rightarrow> c2)"
    and "(case findElse node of Some e \<Rightarrow> buildChildren c3 e p code | None \<Rightarrow> (None, c3)) = (fr, c4)"
    and "c5 = (case fr of Some r \<Rightarrow> addEdge c4 (b_id bb) (r_entry r) (Some ''false'') | None \<Rightarrow> c4)"
  shows "buildNode ctx node p code =
     (Some \<lparr>r_entry = b_id bb,
            r_exits = (case tr of Some r \<Rightarrow> r_exits r | None \<Rightarrow> [b_id bb]) @
                      (case fr of Some r \<Rightarrow> r_exits r
                       | None \<Rightarrow> if findElse node = None then [b_id bb] else [])\<rparr>, c5)"
  using assms(1,2,3,5) unfolding assms(4,6)
  by (subst buildNode.simps) (simp add: Let_def condLabel_def)

lemma buildNode_LOOP:
  assumes "kind node \<in> LOOP_TYPES"
    and "makeBlock ctx (loopLabel node code) Loop node p [loopLabel node code] = (lb, c1)"
    and "(case findBody node of Some b \<Rightarrow> buildChildren c1 b p code | None \<Rightarrow> (None, c1)) = (br, c2)"
  shows "buildNode ctx node p code =
     (Some \<lparr>r_entry = b_id lb, r_exits = [b_id lb]\<rparr>,
      (case br of
         Some r \<Rightarrow> addEdgesFrom (addEdge c2 (b_id lb) (r_entry r) (Some ''body''))
                     (r_exits r) (b_id lb) (Some ''next'')
       | None \<Rightarrow> c2))"
  using assms kinds_disjoint(1)[OF assms(1)]
  by (subst buildNode.simps) (simp add: Let_def loopLabel_def)

lemma buildNode_MATCH:
  assumes "kind node \<in> MATCH_TYPES"
    and "makeBlock ctx ''match'' Match node p [summary node code 32] = (mb, c1)"
    and "buildArms c1 (findArms node) 0 (b_id mb) p code [] = (exits, c2)"
  shows "buildNode ctx node p code =
     (Some \<lparr>r_entry = b_id mb, r_exits = (if exits = [] then [b_id mb] else exits)\<rparr>, c2)"
  using assms kinds_disjoint(2)[OF assms(1)]
  by (subst buildNode.simps) (simp add: Let_def)

lemma buildNode_RETURN:
  assumes "kind node \<in> RETURN_TYPES"
    and "makeBlock ctx (summary node code 48) Return node p [summary node code 48] = (b, c1)"
  shows "buildNode ctx node p code = (Some \<lparr>r_entry = b_id b, r_exits = []\<rparr>, c1)"
  using assms kinds_disjoint(3)[OF assms(1)]
  by (subst buildNode.simps) (simp add: Let_def)

lemma buildNode_FUNCTION:
  assumes "kind node \<in> FUNCTION_TYPES"
    and "makeBlock ctx (fnLabel node code) Entry node p [fnLabel node code] = (eb, c1)"
    and "(case findBody node of Some b \<Rightarrow> buildChildren c1 b p code | None \<Rightarrow> (None, c1)) = (br, c2)"
    and "makeBlock (addEdge c2 (b_id eb) (r_entry (the br)) None) ''end'' Exit node p [''end'']
           = (xb, c4)"
  shows "buildNode ctx node p code =
     (case br of
        Some r \<Rightarrow> (Some \<lparr>r_entry = b_id eb, r_exits = [b_id xb]\<rparr>,
                   addEdgesFrom c4 (r_exits r) (b_id xb) None)
      | None \<Rightarrow> (Some \<lparr>r_entry = b_id eb, r_exits = [b_id eb]\<rparr>, c2))"
  using assms kinds_disjoint(4)[OF assms(1)]
  by (subst buildNode.simps) (auto simp add: Let_def fnLabel_def split: option.splits)

definition isControl :: "string \<Rightarrow> bool" where
  "isControl k \<longleftrightarrow> k \<in> IF_TYPES \<or> k \<in> LOOP_TYPES \<or> k \<in> MATCH_TYPES \<or>
     k \<in> RETURN_TYPES \<or> k \<in> FUNCTION_TYPES"

lemma buildNode_container:
  assumes "\<not> isControl (kind node)" "kind node \<in> CONTAINER_TYPES \<or> isContainerLike node"
  shows "buildNode ctx node p code = buildChildren ctx node p code"
  using assms by (subst buildNode.simps) (simp add: isControl_def)

lemma buildNode_statement:
  assumes "\<not> isControl (kind node)" "\<not> (kind node \<in> CONTAINER_TYPES \<or> isContainerLike node)"
    and "isNamed node" "kind node \<noteq> ''comment''"
    and "makeBlock ctx (summary node code 48) Statement node p [summary node code 48] = (b, c1)"
  shows "buildNode ctx node p code = (Some \<lparr>r_entry = b_id b, r_exits = [b_id b]\<rparr>, c1)"
  using assms by (subst buildNode.simps) (simp add: isControl_def)

lemma buildNode_null:
  assumes "\<not> isControl (kind node)" "\<not> (kind node \<in> CONTAINER_TYPES \<or> isContainerLike node)"
    and "\<not> (isNamed node \<and> kind node \<noteq> ''comment'')"
  shows "buildNode ctx node p code = (None, ctx)"
  using assms by (subst buildNode.simps) (auto simp add: isControl_def)

section \<open>The builder invariant\<close>

definition resPost :: "BuildCtx \<Rightarrow> BuildCtx \<Rightarrow> BuildResult option \<Rightarrow> bool" where
  "resPost c c' res =
     (case res of
        None \<Rightarrow> c' = c
      | Some r \<Rightarrow> nextBlockId c < nextBlockId c' \<and> r_entry r = makeId (nextBlockId c) \<and>
                  (\<forall>x \<in> set (r_exits r). liveId c c' x))"

definition nodeSpec :: "BuildCtx \<Rightarrow> BuildResult option \<times> BuildCtx \<Rightarrow> bool" where
  "nodeSpec c rc \<longleftrightarrow> builds c (snd rc) \<and> resPost c (snd rc) (fst rc)"

lemma nodeSpec_None [simp]: "nodeSpec c (None, c)"
  by (simp add: nodeSpec_def resPost_def)

lemma live_mono: "liveId a b i \<Longrightarrow> builds a b \<Longrightarrow> builds b c \<Longrightarrow> liveId a c i"
  unfolding builds_def by (blast intro: liveId_mono)

lemma live_shift: "liveId b c i \<Longrightarrow> builds a b \<Longrightarrow> builds b c \<Longrightarrow> liveId a c i"
  unfolding builds_def by (blast intro: liveId_shift)

lemma fresh_mono: "i \<in> freshIds a b \<Longrightarrow> builds a b \<Longrightarrow> builds b c \<Longrightarrow> i \<in> freshIds a c"
  unfolding builds_def using freshIds_trans[of a b c] by blast

lemma fresh_shift: "i \<in> freshIds b c \<Longrightarrow> builds a b \<Longrightarrow> builds b c \<Longrightarrow> i \<in> freshIds a c"
  unfolding builds_def using freshIds_trans[of a b c] by blast

lemma builds_next_le: "builds c c' \<Longrightarrow> nextBlockId c \<le> nextBlockId c'"
  by (simp add: builds_def blocksExt_def)

lemma resPost_entry: "resPost c c' (Some r) \<Longrightarrow> r_entry r \<in> freshIds c c'"
  by (simp add: resPost_def freshIds_def)

lemma resPost_exits: "resPost c c' (Some r) \<Longrightarrow> x \<in> set (r_exits r) \<Longrightarrow> liveId c c' x"
  by (simp add: resPost_def)

lemma bodySpec:
  assumes "\<And>b c. f node = Some b \<Longrightarrow> nodeSpec c (buildChildren c b p code)"
    and "(case f node of Some b \<Rightarrow> buildChildren c1 b p code | None \<Rightarrow> (None, c1)) = (r, c2)"
  shows "builds c1 c2" "resPost c1 c2 r"
proof -
  have "nodeSpec c1 (r, c2)"
  proof (cases "f node")
    case None
    with assms(2) show ?thesis by simp
  next
    case (Some b)
    with assms(1)[OF Some, of c1] assms(2) show ?thesis by simp
  qed
  then show "builds c1 c2" "resPost c1 c2 r" by (simp_all add: nodeSpec_def)
qed

lemma nodeSpec_IF:
  assumes k: "kind node \<in> IF_TYPES"
    and body: "\<And>b c. findBody node = Some b \<Longrightarrow> nodeSpec c (buildChildren c b p code)"
    and els: "\<And>b c. findElse node = Some b \<Longrightarrow> nodeSpec c (buildChildren c b p code)"
  shows "nodeSpec ctx (buildNode ctx node p code)"
proof -
  obtain bb c1 where mb:
    "makeBlock ctx (condLabel node code) Branch node p [condLabel node code] = (bb, c1)"
    by fastforce
  obtain tr c2 where t:
    "(case findBody node of Some b \<Rightarrow> buildChildren c1 b p code | None \<Rightarrow> (None, c1)) = (tr, c2)"
    by fastforce
  define c3 where
    "c3 = (case tr of Some r \<Rightarrow> addEdge c2 (b_id bb) (r_entry r) (Some ''true'') | None \<Rightarrow> c2)"
  obtain fr c4 where f:
    "(case findElse node of Some e \<Rightarrow> buildChildren c3 e p code | None \<Rightarrow> (None, c3)) = (fr, c4)"
    by fastforce
  define c5 where
    "c5 = (case fr of Some r \<Rightarrow> addEdge c4 (b_id bb) (r_entry r) (Some ''false'') | None \<Rightarrow> c4)"
  note eq = buildNode_IF[OF k mb t c3_def f c5_def]
  have b01: "builds ctx c1" using mb by (rule makeBlock_builds)
  have l1: "liveId ctx c1 (b_id bb)" using mb by (rule makeBlock_live) simp
  have n1: "nextBlockId c1 = Suc (nextBlockId ctx)" "b_id bb = makeId (nextBlockId ctx)"
    using makeBlock_props[OF mb] by simp_all
  have b12: "builds c1 c2" and p12: "resPost c1 c2 tr" using bodySpec[where f = findBody, OF body t] by simp_all
  have b02: "builds ctx c2" using b01 b12 by (rule builds_trans)
  have l2: "liveId ctx c2 (b_id bb)" using l1 b01 b12 by (rule live_mono)
  have b03: "builds ctx c3"
  proof (cases tr)
    case None
    then show ?thesis using b02 by (simp add: c3_def)
  next
    case (Some r)
    have "r_entry r \<in> freshIds ctx c2"
      using resPost_entry[of c1 c2 r] p12 Some b01 b12 by (auto intro: fresh_shift)
    then show ?thesis using Some b02 l2 by (simp add: c3_def addEdge_builds)
  qed
  have l3: "liveId ctx c3 (b_id bb)" using l2 by (simp add: c3_def split: option.splits)
  have tr3: "\<forall>x \<in> set (r_exits r). liveId ctx c3 x" if "tr = Some r" for r
    using that p12 b01 b12 by (auto simp: c3_def dest!: resPost_exits intro: live_shift)
  have b34: "builds c3 c4" and p34: "resPost c3 c4 fr" using bodySpec[where f = findElse, OF els f] by simp_all
  have b04: "builds ctx c4" using b03 b34 by (rule builds_trans)
  have l4: "liveId ctx c4 (b_id bb)" using l3 b03 b34 by (rule live_mono)
  have b05: "builds ctx c5"
  proof (cases fr)
    case None
    then show ?thesis using b04 by (simp add: c5_def)
  next
    case (Some r)
    have "r_entry r \<in> freshIds ctx c4"
      using resPost_entry[of c3 c4 r] p34 Some b03 b34 by (auto intro: fresh_shift)
    then show ?thesis using Some b04 l4 by (simp add: c5_def addEdge_builds)
  qed
  have l5: "liveId ctx c5 (b_id bb)" using l4 by (simp add: c5_def split: option.splits)
  have tr5: "\<forall>x \<in> set (r_exits r). liveId ctx c5 x" if "tr = Some r" for r
    using tr3[OF that] b03 b34 by (auto simp: c5_def intro: live_mono split: option.splits)
  have fr5: "\<forall>x \<in> set (r_exits r). liveId ctx c5 x" if "fr = Some r" for r
    using that p34 b03 b34 by (auto simp: c5_def dest!: resPost_exits intro: live_shift)
  have "nextBlockId ctx < nextBlockId c5"
    using n1 builds_next_le[OF b12] builds_next_le[OF b34]
    by (simp add: c5_def c3_def split: option.splits)
  then show ?thesis
    unfolding eq nodeSpec_def resPost_def using b05 l5 tr5 fr5 n1(2)
    by (auto split: option.splits)
qed

lemma nodeSpec_LOOP:
  assumes k: "kind node \<in> LOOP_TYPES"
    and body: "\<And>b c. findBody node = Some b \<Longrightarrow> nodeSpec c (buildChildren c b p code)"
  shows "nodeSpec ctx (buildNode ctx node p code)"
proof -
  obtain lb c1 where mb:
    "makeBlock ctx (loopLabel node code) Loop node p [loopLabel node code] = (lb, c1)"
    by fastforce
  obtain br c2 where t:
    "(case findBody node of Some b \<Rightarrow> buildChildren c1 b p code | None \<Rightarrow> (None, c1)) = (br, c2)"
    by fastforce
  define c3 where
    "c3 = (case br of
         Some r \<Rightarrow> addEdgesFrom (addEdge c2 (b_id lb) (r_entry r) (Some ''body''))
                     (r_exits r) (b_id lb) (Some ''next'')
       | None \<Rightarrow> c2)"
  note eq = buildNode_LOOP[OF k mb t, folded c3_def]
  have b01: "builds ctx c1" using mb by (rule makeBlock_builds)
  have l1: "liveId ctx c1 (b_id lb)" using mb by (rule makeBlock_live) simp
  have n1: "nextBlockId c1 = Suc (nextBlockId ctx)" "b_id lb = makeId (nextBlockId ctx)"
    using makeBlock_props[OF mb] by simp_all
  have b12: "builds c1 c2" and p12: "resPost c1 c2 br"
    using bodySpec[where f = findBody, OF body t] by simp_all
  have b02: "builds ctx c2" using b01 b12 by (rule builds_trans)
  have l2: "liveId ctx c2 (b_id lb)" using l1 b01 b12 by (rule live_mono)
  have f2: "b_id lb \<in> freshIds ctx c2" using l2 by (simp add: liveId_def)
  have b03: "builds ctx c3"
  proof (cases br)
    case None
    then show ?thesis using b02 by (simp add: c3_def)
  next
    case (Some r)
    have "r_entry r \<in> freshIds ctx c2"
      using resPost_entry[of c1 c2 r] p12 Some b01 b12 by (auto intro: fresh_shift)
    then have "builds ctx (addEdge c2 (b_id lb) (r_entry r) (Some ''body''))"
      using b02 l2 by (simp add: addEdge_builds)
    moreover have "\<forall>x \<in> set (r_exits r). liveId ctx c2 x"
      using Some p12 b01 b12 by (auto dest!: resPost_exits intro: live_shift)
    ultimately show ?thesis using Some f2 by (simp add: c3_def addEdgesFrom_builds)
  qed
  have l3: "liveId ctx c3 (b_id lb)" using l2 by (simp add: c3_def split: option.splits)
  have "nextBlockId ctx < nextBlockId c3"
    using n1 builds_next_le[OF b12] by (simp add: c3_def split: option.splits)
  then show ?thesis
    unfolding eq nodeSpec_def resPost_def using b03 l3 n1(2) by simp
qed

lemma nodeSpec_RETURN:
  assumes k: "kind node \<in> RETURN_TYPES"
  shows "nodeSpec ctx (buildNode ctx node p code)"
proof -
  obtain b c1 where mb:
    "makeBlock ctx (summary node code 48) Return node p [summary node code 48] = (b, c1)"
    by fastforce
  show ?thesis
    unfolding buildNode_RETURN[OF k mb] nodeSpec_def resPost_def
    using makeBlock_builds[OF mb] makeBlock_props[OF mb] by simp
qed

lemma nodeSpec_statement:
  assumes "\<not> isControl (kind node)" "\<not> (kind node \<in> CONTAINER_TYPES \<or> isContainerLike node)"
    and "isNamed node" "kind node \<noteq> ''comment''"
  shows "nodeSpec ctx (buildNode ctx node p code)"
proof -
  obtain b c1 where mb:
    "makeBlock ctx (summary node code 48) Statement node p [summary node code 48] = (b, c1)"
    by fastforce
  have "liveId ctx c1 (b_id b)" using mb by (rule makeBlock_live) simp
  then show ?thesis
    unfolding buildNode_statement[OF assms mb] nodeSpec_def resPost_def
    using makeBlock_builds[OF mb] makeBlock_props[OF mb] by simp
qed

lemma nodeSpec_FUNCTION:
  assumes k: "kind node \<in> FUNCTION_TYPES"
    and body: "\<And>b c. findBody node = Some b \<Longrightarrow> nodeSpec c (buildChildren c b p code)"
  shows "nodeSpec ctx (buildNode ctx node p code)"
proof -
  obtain eb c1 where mb:
    "makeBlock ctx (fnLabel node code) Entry node p [fnLabel node code] = (eb, c1)"
    by fastforce
  obtain br c2 where t:
    "(case findBody node of Some b \<Rightarrow> buildChildren c1 b p code | None \<Rightarrow> (None, c1)) = (br, c2)"
    by fastforce
  define c3 where "c3 = addEdge c2 (b_id eb) (r_entry (the br)) None"
  obtain xb c4 where mx: "makeBlock c3 ''end'' Exit node p [''end''] = (xb, c4)"
    by fastforce
  note eq = buildNode_FUNCTION[OF k mb t mx[unfolded c3_def]]
  have b01: "builds ctx c1" using mb by (rule makeBlock_builds)
  have l1: "liveId ctx c1 (b_id eb)" using mb by (rule makeBlock_live) simp
  have n1: "nextBlockId c1 = Suc (nextBlockId ctx)" "b_id eb = makeId (nextBlockId ctx)"
    using makeBlock_props[OF mb] by simp_all
  have b12: "builds c1 c2" and p12: "resPost c1 c2 br"
    using bodySpec[where f = findBody, OF body t] by simp_all
  have b02: "builds ctx c2" using b01 b12 by (rule builds_trans)
  have l2: "liveId ctx c2 (b_id eb)" using l1 b01 b12 by (rule live_mono)
  have lt2: "nextBlockId ctx < nextBlockId c2" using n1 builds_next_le[OF b12] by simp
  show ?thesis
  proof (cases br)
    case None
    then show ?thesis unfolding eq nodeSpec_def resPost_def using b02 l2 lt2 n1(2) by simp
  next
    case (Some r)
    have "r_entry r \<in> freshIds ctx c2"
      using resPost_entry[of c1 c2 r] p12 Some b01 b12 by (auto intro: fresh_shift)
    then have b03: "builds ctx c3" using b02 l2 Some by (simp add: c3_def addEdge_builds)
    have b34: "builds c3 c4" using mx by (rule makeBlock_builds)
    have b04: "builds ctx c4" using b03 b34 by (rule builds_trans)
    have "liveId c3 c4 (b_id xb)" using mx by (rule makeBlock_live) simp
    then have l4: "liveId ctx c4 (b_id xb)" using b03 b34 by (rule live_shift)
    then have f4: "b_id xb \<in> freshIds ctx c4" by (simp add: liveId_def)
    have "\<forall>x \<in> set (r_exits r). liveId ctx c3 x"
      using Some p12 b01 b12 by (auto simp: c3_def dest!: resPost_exits intro: live_shift)
    then have "\<forall>x \<in> set (r_exits r). liveId ctx c4 x"
      using b03 b34 by (auto intro: live_mono)
    then have b05: "builds ctx (addEdgesFrom c4 (r_exits r) (b_id xb) None)"
      using b04 f4 by (simp add: addEdgesFrom_builds)
    have "nextBlockId ctx < nextBlockId c4"
      using lt2 makeBlock_props(3)[OF mx] by (simp add: c3_def)
    then show ?thesis
      unfolding eq nodeSpec_def resPost_def using Some b05 l4 n1(2) by simp
  qed
qed

lemma nodeSpec_null:
  assumes "\<not> isControl (kind node)" "\<not> (kind node \<in> CONTAINER_TYPES \<or> isContainerLike node)"
    and "\<not> (isNamed node \<and> kind node \<noteq> ''comment'')"
  shows "nodeSpec ctx (buildNode ctx node p code)"
  unfolding buildNode_null[OF assms] by simp

lemma buildArms_spec:
  assumes "\<And>a c q. a \<in> set arms \<Longrightarrow> nodeSpec c (buildChildren c a q code)"
    and "builds c0 ctx" "liveId c0 ctx mid"
    and "buildArms ctx arms i mid p code exits = (exits', ctx')"
  shows "builds c0 ctx' \<and> blocksExt ctx ctx' \<and>
         (\<exists>new. exits' = exits @ new \<and> (\<forall>x \<in> set new. liveId c0 ctx' x))"
  using assms
proof (induction arms arbitrary: ctx i exits)
  case Nil
  then show ?case by simp
next
  case (Cons arm arms)
  obtain ar c1 where a: "buildChildren ctx arm (p @ ''-arm'' @ decimal i) code = (ar, c1)"
    by fastforce
  have "nodeSpec ctx (ar, c1)" using Cons.prems(1)[of arm ctx "p @ ''-arm'' @ decimal i"] a by simp
  then have b1: "builds ctx c1" and p1: "resPost ctx c1 ar" by (simp_all add: nodeSpec_def)
  have b01: "builds c0 c1" using Cons.prems(2) b1 by (rule builds_trans)
  have l1: "liveId c0 c1 mid" using Cons.prems(3,2) b1 by (rule live_mono)
  have rest: "\<And>a c q. a \<in> set arms \<Longrightarrow> nodeSpec c (buildChildren c a q code)"
    using Cons.prems(1) by simp
  show ?case
  proof (cases ar)
    case None
    with Cons.prems(4) a have "buildArms c1 arms (i + 1) mid p code exits = (exits', ctx')"
      by simp
    from Cons.IH[OF rest b01 l1 this] builds_blocksExt[OF b1] show ?thesis
      by (auto intro: blocksExt_trans)
  next
    case (Some r)
    define c2 where "c2 = addEdge c1 mid (r_entry r) (Some (armLabel arm i code))"
    from Some Cons.prems(4) a
    have call: "buildArms c2 arms (i + 1) mid p code (exits @ r_exits r) = (exits', ctx')"
      by (simp add: c2_def Let_def)
    have "r_entry r \<in> freshIds c0 c1"
      using resPost_entry[of ctx c1 r] p1 Some Cons.prems(2) b1 by (auto intro: fresh_shift)
    then have b02: "builds c0 c2" using b01 l1 by (simp add: c2_def addEdge_builds)
    have l2: "liveId c0 c2 mid" using l1 by (simp add: c2_def)
    from Cons.IH[OF rest b02 l2 call] obtain new where
      n: "builds c0 ctx'" "blocksExt c2 ctx'" "exits' = (exits @ r_exits r) @ new"
         "\<forall>x \<in> set new. liveId c0 ctx' x"
      by blast
    have e12: "blocksExt c1 c2" unfolding c2_def by (rule addEdge_blocksExt) simp
    have e: "blocksExt ctx ctx'"
      using builds_blocksExt[OF b1] e12 n(2) by (blast intro: blocksExt_trans)
    have "\<forall>x \<in> set (r_exits r). liveId c0 c2 x"
      using Some p1 Cons.prems(2) b1 by (auto simp: c2_def dest!: resPost_exits intro: live_shift)
    then have "\<forall>x \<in> set (r_exits r). liveId c0 ctx' x"
      using liveId_mono[OF _ builds_blocksExt[OF b02] n(2)] by blast
    with n e show ?thesis by auto
  qed
qed

lemma nodeSpec_MATCH:
  assumes k: "kind node \<in> MATCH_TYPES"
    and arms: "\<And>a c q. a \<in> set (findArms node) \<Longrightarrow> nodeSpec c (buildChildren c a q code)"
  shows "nodeSpec ctx (buildNode ctx node p code)"
proof -
  obtain mb c1 where m: "makeBlock ctx ''match'' Match node p [summary node code 32] = (mb, c1)"
    by fastforce
  obtain exits c2 where a: "buildArms c1 (findArms node) 0 (b_id mb) p code [] = (exits, c2)"
    by fastforce
  note eq = buildNode_MATCH[OF k m a]
  have b01: "builds ctx c1" using m by (rule makeBlock_builds)
  have l1: "liveId ctx c1 (b_id mb)" using m by (rule makeBlock_live) simp
  have n1: "nextBlockId c1 = Suc (nextBlockId ctx)" "b_id mb = makeId (nextBlockId ctx)"
    using makeBlock_props[OF m] by simp_all
  from buildArms_spec[OF arms b01 l1 a]
  have b02: "builds ctx c2" and e12: "blocksExt c1 c2" and ex: "\<forall>x \<in> set exits. liveId ctx c2 x"
    by auto
  have l2: "liveId ctx c2 (b_id mb)" using l1 builds_blocksExt[OF b01] e12 by (rule liveId_mono)
  have "nextBlockId ctx < nextBlockId c2" using n1 e12 by (simp add: blocksExt_def)
  then show ?thesis
    unfolding eq nodeSpec_def resPost_def using b02 l2 ex n1(2) by simp
qed

lemma buildEach_spec:
  assumes "\<And>child c q. child \<in> fst ` set cs \<Longrightarrow> nodeSpec c (buildNode c child q code)"
    and "buildEach ctx cs p code results = (results', ctx')"
  shows "builds ctx ctx' \<and>
         (\<exists>new. results' = results @ new \<and> (\<forall>r \<in> set new. resOk ctx ctx' r) \<and>
            (case new of [] \<Rightarrow> ctx' = ctx
             | r # _ \<Rightarrow> nextBlockId ctx < nextBlockId ctx' \<and> r_entry r = makeId (nextBlockId ctx)))"
  using assms
proof (induction cs arbitrary: ctx results)
  case Nil
  then show ?case by simp
next
  case (Cons ci cs)
  obtain child idx where ci: "ci = (child, idx)" by (cases ci)
  obtain res c1 where a: "buildNode ctx child (p @ ''-'' @ decimal idx) code = (res, c1)"
    by fastforce
  have "nodeSpec ctx (res, c1)" using Cons.prems(1)[of child ctx "p @ ''-'' @ decimal idx"] a ci by simp
  then have b1: "builds ctx c1" and p1: "resPost ctx c1 res" by (simp_all add: nodeSpec_def)
  have rest: "\<And>child c q. child \<in> fst ` set cs \<Longrightarrow> nodeSpec c (buildNode c child q code)"
    using Cons.prems(1) by simp
  show ?case
  proof (cases res)
    case None
    then have "c1 = ctx" using p1 by (simp add: resPost_def)
    with None Cons.prems(2) a ci have "buildEach ctx cs p code results = (results', ctx')"
      by simp
    from Cons.IH[OF rest this] show ?thesis .
  next
    case (Some r)
    with Cons.prems(2) a ci have call: "buildEach c1 cs p code (results @ [r]) = (results', ctx')"
      by simp
    from Cons.IH[OF rest call] obtain new where
      n: "builds c1 ctx'" "results' = (results @ [r]) @ new" "\<forall>r \<in> set new. resOk c1 ctx' r"
      by blast
    have b: "builds ctx ctx'" using b1 n(1) by (rule builds_trans)
    have "resOk ctx c1 r" using p1 Some by (simp add: resOk_def resPost_def freshIds_def)
    then have r: "resOk ctx ctx' r"
      using builds_blocksExt[OF b1] builds_blocksExt[OF n(1)] by (rule resOk_mono)
    have new: "\<forall>r \<in> set new. resOk ctx ctx' r"
      using n(3) resOk_shift[OF _ builds_blocksExt[OF b1] builds_blocksExt[OF n(1)]] by blast
    have "nextBlockId ctx < nextBlockId ctx'"
      using p1 Some builds_next_le[OF n(1)] by (simp add: resPost_def)
    moreover have "r_entry r = makeId (nextBlockId ctx)" using p1 Some by (simp add: resPost_def)
    ultimately show ?thesis using b r new n(2) by (intro conjI exI[of _ "r # new"]) simp_all
  qed
qed

lemma childIndices_mem: "(child, idx) \<in> set (childIndices node) \<Longrightarrow> child \<in> set (children node)"
  by (auto simp: childIndices_def dest: set_zip_leftD)

lemma nodeSpec_children:
  assumes "\<And>child c q. child \<in> set (children node) \<Longrightarrow> nodeSpec c (buildNode c child q code)"
  shows "nodeSpec ctx (buildChildren ctx node p code)"
proof (cases "length (filter isNamed (children node)) = 0")
  case True
  then show ?thesis by (subst buildChildren.simps) simp
next
  case False
  obtain results c1 where a: "buildEach ctx (childIndices node) p code [] = (results, c1)"
    by fastforce
  have "\<And>child c q. child \<in> fst ` set (childIndices node) \<Longrightarrow>
      nodeSpec c (buildNode c child q code)"
    using assms childIndices_mem by fastforce
  from buildEach_spec[OF this a]
  have b: "builds ctx c1" and ok: "\<forall>r \<in> set results. resOk ctx c1 r"
    and hd: "(case results of [] \<Rightarrow> c1 = ctx
             | r # _ \<Rightarrow> nextBlockId ctx < nextBlockId c1 \<and> r_entry r = makeId (nextBlockId ctx))"
    by auto
  show ?thesis
  proof (cases results)
    case Nil
    with hd a False show ?thesis by (subst buildChildren.simps) simp
  next
    case (Cons r rs)
    have eq: "buildChildren ctx node p code =
        (Some \<lparr>r_entry = r_entry r, r_exits = r_exits (last results)\<rparr>, chainResults c1 results)"
      using a False Cons by (subst buildChildren.simps) (simp add: Let_def last_conv_nth)
    have "builds ctx (chainResults c1 results)" using b ok by (rule chainResults_builds)
    moreover have "last results \<in> set results" using Cons by simp
    then have "resOk ctx c1 (last results)" using ok by blast
    ultimately show ?thesis
      unfolding eq nodeSpec_def resPost_def using hd Cons by (simp add: resOk_def)
  qed
qed

lemma nodeSpec_all:
  "nodeSpec ctx (buildNode ctx node p code) \<and> nodeSpec ctx (buildChildren ctx node p code)"
proof (induction "size node" arbitrary: node ctx p rule: less_induct)
  case less
  have kids: "nodeSpec c (buildNode c child q code)" if "child \<in> set (children node)" for child c q
  proof -
    have "size child < size node" using that by (cases node) (auto dest: size_mem)
    from less[OF this] show ?thesis by simp
  qed
  have self: "nodeSpec c (buildChildren c node q code)" for c q
    using kids by (rule nodeSpec_children)
  have body: "nodeSpec c (buildChildren c b p code)" if "findBody node = Some b" for b c
    using less[OF findBody_size[OF that]] by simp
  have els: "nodeSpec c (buildChildren c b p code)" if "findElse node = Some b" for b c
    using less[OF findElse_size[OF that]] by simp
  have arms: "nodeSpec c (buildChildren c a q code)" if "a \<in> set (findArms node)" for a c q
    using less[OF findArms_size[OF that]] by simp
  have "nodeSpec ctx (buildNode ctx node p code)"
  proof -
    consider "kind node \<in> IF_TYPES" | "kind node \<in> LOOP_TYPES" | "kind node \<in> MATCH_TYPES"
      | "kind node \<in> RETURN_TYPES" | "kind node \<in> FUNCTION_TYPES"
      | "\<not> isControl (kind node)" "kind node \<in> CONTAINER_TYPES \<or> isContainerLike node"
      | "\<not> isControl (kind node)" "\<not> (kind node \<in> CONTAINER_TYPES \<or> isContainerLike node)"
        "isNamed node \<and> kind node \<noteq> ''comment''"
      | "\<not> isControl (kind node)" "\<not> (kind node \<in> CONTAINER_TYPES \<or> isContainerLike node)"
        "\<not> (isNamed node \<and> kind node \<noteq> ''comment'')"
      unfolding isControl_def by blast
    then show ?thesis
    proof cases
      case 1 then show ?thesis using body els by (rule nodeSpec_IF)
    next
      case 2 then show ?thesis using body by (rule nodeSpec_LOOP)
    next
      case 3 then show ?thesis using arms by (rule nodeSpec_MATCH)
    next
      case 4 then show ?thesis by (rule nodeSpec_RETURN)
    next
      case 5 then show ?thesis using body by (rule nodeSpec_FUNCTION)
    next
      case 6 then show ?thesis using self by (simp add: buildNode_container)
    next
      case 7 then show ?thesis by (intro nodeSpec_statement) simp_all
    next
      case 8 then show ?thesis by (rule nodeSpec_null)
    qed
  qed
  then show ?case using self by simp
qed

section \<open>The graph returned by buildCfg\<close>

definition initCtx :: "string \<Rightarrow> BuildCtx" where
  "initCtx code = \<lparr>ctx_blocks = [], ctx_edges = [], ctx_code = code, nextBlockId = 0\<rparr>"

definition entrySentinel :: "AstNode \<Rightarrow> nat \<Rightarrow> CfgBlock" where
  "entrySentinel ast n =
     \<lparr>b_id = makeId n, b_label = ''entry'', b_statements = [''entry''],
      b_start = start ast, b_end = end' ast,
      b_startPosition = startPosition ast, b_endPosition = endPosition ast,
      b_kind = Entry, b_astPath = ''root''\<rparr>"

lemma buildCfg_plain:
  assumes "buildChildren (initCtx code) ast ''root'' code = (result, ctx1)"
    and "result = None \<or> ctx_blocks ctx1 = [] \<or> list_ex (\<lambda>b. b_kind b = Entry) (ctx_blocks ctx1)"
  shows "buildCfg ast code = \<lparr>blocks = ctx_blocks ctx1, edges = dedupEdges {} (ctx_edges ctx1)\<rparr>"
  using assms unfolding buildCfg_def initCtx_def[symmetric]
  by (auto simp: Let_def split: option.splits)

lemma buildCfg_entry:
  assumes "buildChildren (initCtx code) ast ''root'' code = (Some r, ctx1)"
    and "ctx_blocks ctx1 \<noteq> []" "\<not> list_ex (\<lambda>b. b_kind b = Entry) (ctx_blocks ctx1)"
  shows "buildCfg ast code =
     \<lparr>blocks = entrySentinel ast (nextBlockId ctx1) # ctx_blocks ctx1,
      edges = dedupEdges {}
        (ctx_edges ctx1 @ [\<lparr>e_from = makeId (nextBlockId ctx1), e_to = r_entry r, e_label = None\<rparr>])\<rparr>"
  using assms unfolding buildCfg_def initCtx_def[symmetric]
  by (simp add: Let_def makeBlock_def entrySentinel_def)

lemma dedupEdges_subset: "set (dedupEdges S es) \<subseteq> set es"
  by (induction es arbitrary: S) (auto simp: Let_def)

lemma builds_init:
  assumes "builds (initCtx code) c"
  shows "newBlocks (initCtx code) c = ctx_blocks c" "newEdges (initCtx code) c = ctx_edges c"
    "freshIds (initCtx code) c = makeId ` {0..<nextBlockId c}"
    "map b_id (ctx_blocks c) = map makeId [0..<nextBlockId c]"
proof -
  show 1: "newBlocks (initCtx code) c = ctx_blocks c" by (simp add: newBlocks_def initCtx_def)
  show "newEdges (initCtx code) c = ctx_edges c" by (simp add: newEdges_def initCtx_def)
  show "freshIds (initCtx code) c = makeId ` {0..<nextBlockId c}"
    by (simp add: freshIds_def initCtx_def)
  from assms have "map b_id (newBlocks (initCtx code) c) =
      map makeId [nextBlockId (initCtx code) ..< nextBlockId c]"
    by (simp add: builds_def blocksExt_def)
  then show "map b_id (ctx_blocks c) = map makeId [0..<nextBlockId c]"
    unfolding 1 by (simp add: initCtx_def)
qed

lemma buildChildren_init:
  assumes "buildChildren (initCtx code) ast ''root'' code = (result, ctx1)"
  shows "builds (initCtx code) ctx1" "resPost (initCtx code) ctx1 result"
  using nodeSpec_all[of "initCtx code" ast "''root''" code] assms
  by (simp_all add: nodeSpec_def)

lemma root_edge_ok:
  assumes bc: "buildChildren (initCtx code) ast ''root'' code = (result, ctx1)"
    and e: "e \<in> set (ctx_edges ctx1)"
  shows "e_from e \<in> b_id ` set (ctx_blocks ctx1)" "e_to e \<in> b_id ` set (ctx_blocks ctx1)"
    "\<forall>b \<in> set (ctx_blocks ctx1). b_id b = e_from e \<longrightarrow> b_kind b \<noteq> Return"
proof -
  note b = buildChildren_init(1)[OF bc]
  note i = builds_init[OF b]
  have ids: "b_id ` set (ctx_blocks ctx1) = makeId ` {0..<nextBlockId ctx1}"
    using arg_cong[OF i(4), of set] by simp
  from b e have l: "liveId (initCtx code) ctx1 (e_from e)" and t: "e_to e \<in> freshIds (initCtx code) ctx1"
    unfolding builds_def i(2) by blast+
  show "e_from e \<in> b_id ` set (ctx_blocks ctx1)" using l unfolding liveId_def i ids by simp
  show "e_to e \<in> b_id ` set (ctx_blocks ctx1)" using t unfolding i ids by simp
  show "\<forall>b \<in> set (ctx_blocks ctx1). b_id b = e_from e \<longrightarrow> b_kind b \<noteq> Return"
    using l unfolding liveId_def i by simp
qed

lemma buildCfg_edge_ok:
  assumes "e \<in> set (edges (buildCfg ast code))"
  shows "e_from e \<in> b_id ` set (blocks (buildCfg ast code)) \<and>
         e_to e \<in> b_id ` set (blocks (buildCfg ast code)) \<and>
         (\<forall>b \<in> set (blocks (buildCfg ast code)). b_id b = e_from e \<longrightarrow> b_kind b \<noteq> Return)"
proof -
  obtain result ctx1 where bc: "buildChildren (initCtx code) ast ''root'' code = (result, ctx1)"
    by fastforce
  note b = buildChildren_init[OF bc]
  note i = builds_init[OF b(1)]
  have ids: "b_id ` set (ctx_blocks ctx1) = makeId ` {0..<nextBlockId ctx1}"
    using arg_cong[OF i(4), of set] by simp
  show ?thesis
  proof (cases "result = None \<or> ctx_blocks ctx1 = [] \<or>
      list_ex (\<lambda>b. b_kind b = Entry) (ctx_blocks ctx1)")
    case True
    note eq = buildCfg_plain[OF bc True]
    from assms have "e \<in> set (ctx_edges ctx1)" unfolding eq using dedupEdges_subset by force
    from root_edge_ok[OF bc this] show ?thesis unfolding eq by simp
  next
    case False
    then obtain r where r: "result = Some r" and ne: "ctx_blocks ctx1 \<noteq> []"
      and noe: "\<not> list_ex (\<lambda>b. b_kind b = Entry) (ctx_blocks ctx1)" by auto
    note eq = buildCfg_entry[OF bc[unfolded r] ne noe]
    from assms consider "e \<in> set (ctx_edges ctx1)"
      | "e = \<lparr>e_from = makeId (nextBlockId ctx1), e_to = r_entry r, e_label = None\<rparr>"
      unfolding eq using dedupEdges_subset by fastforce
    then show ?thesis
    proof cases
      case 1
      from root_edge_ok[OF bc 1] show ?thesis unfolding eq by (auto simp: entrySentinel_def)
    next
      case 2
      have "r_entry r = makeId 0" "0 < nextBlockId ctx1"
        using b(2) r by (simp_all add: resPost_def initCtx_def)
      then have "e_to e \<in> b_id ` set (ctx_blocks ctx1)" unfolding ids 2 by simp
      moreover have "b_id b \<noteq> makeId (nextBlockId ctx1)" if "b \<in> set (ctx_blocks ctx1)" for b
      proof -
        from that have "b_id b \<in> makeId ` {0..<nextBlockId ctx1}" unfolding ids[symmetric] by simp
        then show ?thesis by auto
      qed
      ultimately show ?thesis unfolding eq 2 by (auto simp: entrySentinel_def)
    qed
  qed
qed

section \<open>Claims about the builder\<close>

text \<open>
  A concrete tree in the shape a tree-sitter grammar produces, used to instantiate the
  general theorems: the program \<open>while (x) { y; }\<close>.
\<close>

definition pos0 :: Position where
  "pos0 = \<lparr>row = 0, column = 0\<rparr>"

definition named :: "string \<Rightarrow> nat \<Rightarrow> nat \<Rightarrow> AstNode list \<Rightarrow> AstNode" where
  "named k s e cs = AstNode k s e pos0 pos0 None True cs"

definition token :: "string \<Rightarrow> nat \<Rightarrow> nat \<Rightarrow> AstNode" where
  "token k s e = AstNode k s e pos0 pos0 None False []"

definition loopCode :: string where
  "loopCode = ''while (x) { y; }''"

definition loopStmt :: AstNode where
  "loopStmt =
     named ''expression_statement'' 12 14 [named ''identifier'' 12 13 [], token '';'' 13 14]"

definition loopBody :: AstNode where
  "loopBody = named ''statement_block'' 10 16 [token ''{'' 10 11, loopStmt, token ''}'' 15 16]"

definition loopNode :: AstNode where
  "loopNode =
     named ''while_statement'' 0 16
       [token ''while'' 0 5,
        named ''parenthesized_expression'' 6 9
          [token ''('' 6 7, named ''identifier'' 7 8 [], token '')'' 8 9],
        loopBody]"

definition loopTree :: AstNode where
  "loopTree = named ''program'' 0 16 [loopNode]"

text \<open>
  Claim C1.  For every syntax tree and source text, both endpoints of every edge of
  the graph returned by \<open>buildCfg\<close> are ids of blocks of that graph.
\<close>

theorem no_dangling_edges:
  "\<forall>e \<in> set (edges (buildCfg ast code)).
     e_from e \<in> b_id ` set (blocks (buildCfg ast code)) \<and>
     e_to e \<in> b_id ` set (blocks (buildCfg ast code))"
  using buildCfg_edge_ok by blast

theorem no_dangling_edges_witness:
  "\<lparr>e_from = ''cfg_1'', e_to = ''cfg_0'', e_label = Some ''next''\<rparr> \<in> set (edges (buildCfg loopTree loopCode)) \<and>
   ''cfg_1'' \<in> b_id ` set (blocks (buildCfg loopTree loopCode)) \<and>
   ''cfg_0'' \<in> b_id ` set (blocks (buildCfg loopTree loopCode))"
proof -
  have m: "\<lparr>e_from = ''cfg_1'', e_to = ''cfg_0'', e_label = Some ''next''\<rparr>
      \<in> set (edges (buildCfg loopTree loopCode))"
    by code_simp
  from no_dangling_edges[of loopTree loopCode, rule_format, OF m] m show ?thesis by simp
qed

definition branchCode :: string where
  "branchCode = ''if (x) { return 1; } else { y; }''"

definition returnNode :: AstNode where
  "returnNode =
     named ''return_statement'' 9 18
       [token ''return'' 9 15, named ''number'' 16 17 [], token '';'' 17 18]"

definition thenBlock :: AstNode where
  "thenBlock = named ''statement_block'' 7 20 [token ''{'' 7 8, returnNode, token ''}'' 19 20]"

definition elseClause :: AstNode where
  "elseClause =
     named ''else_clause'' 21 32
       [token ''else'' 21 25,
        named ''statement_block'' 26 32
          [token ''{'' 26 27,
           named ''expression_statement'' 28 30
             [named ''identifier'' 28 29 [], token '';'' 29 30],
           token ''}'' 31 32]]"

definition ifNode :: AstNode where
  "ifNode =
     named ''if_statement'' 0 32
       [token ''if'' 0 2,
        named ''parenthesized_expression'' 3 6
          [token ''('' 3 4, named ''identifier'' 4 5 [], token '')'' 5 6],
        thenBlock,
        elseClause]"

definition branchTree :: AstNode where
  "branchTree = named ''program'' 0 32 [ifNode]"

lemma branchTree_cfg:
  "buildCfg branchTree branchCode =
     \<lparr>blocks =
        [\<lparr>b_id = ''cfg_3'', b_label = ''entry'', b_statements = [''entry''],
          b_start = 0, b_end = 32, b_startPosition = pos0, b_endPosition = pos0,
          b_kind = Entry, b_astPath = ''root''\<rparr>,
         \<lparr>b_id = ''cfg_0'', b_label = ''if (x)'', b_statements = [''if (x)''],
          b_start = 0, b_end = 32, b_startPosition = pos0, b_endPosition = pos0,
          b_kind = Branch, b_astPath = ''root-0''\<rparr>,
         \<lparr>b_id = ''cfg_1'', b_label = ''return 1;'', b_statements = [''return 1;''],
          b_start = 9, b_end = 18, b_startPosition = pos0, b_endPosition = pos0,
          b_kind = Return, b_astPath = ''root-0-1''\<rparr>,
         \<lparr>b_id = ''cfg_2'', b_label = ''y'', b_statements = [''y''],
          b_start = 28, b_end = 29, b_startPosition = pos0, b_endPosition = pos0,
          b_kind = Statement, b_astPath = ''root-0-1-1-0''\<rparr>],
      edges =
        [\<lparr>e_from = ''cfg_0'', e_to = ''cfg_1'', e_label = Some ''true''\<rparr>,
         \<lparr>e_from = ''cfg_0'', e_to = ''cfg_2'', e_label = Some ''false''\<rparr>,
         \<lparr>e_from = ''cfg_3'', e_to = ''cfg_0'', e_label = None\<rparr>]\<rparr>"
  by code_simp

text \<open>
  Claim C8.  In every graph returned by \<open>buildCfg\<close>, no edge starts at a block of
  kind \<open>return\<close>; a terminator node is built as one block with an empty list of exits.
\<close>

theorem return_blocks_have_no_outgoing_edges:
  "(\<forall>e \<in> set (edges (buildCfg ast code)). \<forall>b \<in> set (blocks (buildCfg ast code)).
      b_id b = e_from e \<longrightarrow> b_kind b \<noteq> Return) \<and>
   (kind node \<in> RETURN_TYPES \<longrightarrow>
      (\<exists>r ctx'. buildNode ctx node p src = (Some r, ctx') \<and> r_exits r = [] \<and>
         ctx_edges ctx' = ctx_edges ctx \<and>
         (\<exists>b. ctx_blocks ctx' = ctx_blocks ctx @ [b] \<and> b_kind b = Return \<and> b_id b = r_entry r)))"
proof (intro conjI impI)
  show "\<forall>e \<in> set (edges (buildCfg ast code)). \<forall>b \<in> set (blocks (buildCfg ast code)).
      b_id b = e_from e \<longrightarrow> b_kind b \<noteq> Return"
    using buildCfg_edge_ok[of _ ast code] by blast
next
  assume k: "kind node \<in> RETURN_TYPES"
  obtain b c1 where mb:
    "makeBlock ctx (summary node src 48) Return node p [summary node src 48] = (b, c1)"
    by fastforce
  show "\<exists>r ctx'. buildNode ctx node p src = (Some r, ctx') \<and> r_exits r = [] \<and>
         ctx_edges ctx' = ctx_edges ctx \<and>
         (\<exists>b. ctx_blocks ctx' = ctx_blocks ctx @ [b] \<and> b_kind b = Return \<and> b_id b = r_entry r)"
    unfolding buildNode_RETURN[OF k mb] using makeBlock_props[OF mb] by simp
qed

theorem return_blocks_have_no_outgoing_edges_witness:
  "edges (buildCfg branchTree branchCode) ! 0 \<in> set (edges (buildCfg branchTree branchCode)) \<and>
   blocks (buildCfg branchTree branchCode) ! 1 \<in> set (blocks (buildCfg branchTree branchCode)) \<and>
   b_id (blocks (buildCfg branchTree branchCode) ! 1) = e_from (edges (buildCfg branchTree branchCode) ! 0) \<and>
   b_kind (blocks (buildCfg branchTree branchCode) ! 1) \<noteq> Return \<and>
   kind returnNode \<in> RETURN_TYPES \<and>
   (\<exists>r ctx'. buildNode (initCtx branchCode) returnNode ''root'' branchCode = (Some r, ctx') \<and>
      r_exits r = [])"
proof -
  have 1: "edges (buildCfg branchTree branchCode) ! 0 \<in> set (edges (buildCfg branchTree branchCode))"
    by (simp add: branchTree_cfg)
  have 2: "blocks (buildCfg branchTree branchCode) ! 1 \<in> set (blocks (buildCfg branchTree branchCode))"
    by (simp add: branchTree_cfg)
  have 3: "b_id (blocks (buildCfg branchTree branchCode) ! 1) =
      e_from (edges (buildCfg branchTree branchCode) ! 0)"
    by (simp add: branchTree_cfg)
  have 4: "kind returnNode \<in> RETURN_TYPES"
    by (simp add: returnNode_def named_def RETURN_TYPES_def)
  from return_blocks_have_no_outgoing_edges
    [of branchTree branchCode returnNode "initCtx branchCode" "''root''" branchCode]
    1 2 3 4
  show ?thesis by blast
qed

lemma childIndices_fst: "map fst (childIndices node) = filter isNamed (children node)"
proof -
  have "map fst (filter (\<lambda>(c, i). isNamed c) (zip xs ys)) = filter isNamed xs"
    if "length xs = length ys" for xs :: "AstNode list" and ys :: "nat list"
    using that by (induction xs ys rule: list_induct2) auto
  then show ?thesis by (simp add: childIndices_def)
qed

lemma chainResults_single [simp]: "chainResults c [r] = c"
  by (simp add: chainResults_def)

lemma buildChildren_single:
  assumes "filter isNamed (children node) = [n]"
  shows "\<exists>i. buildChildren ctx node p code = buildNode ctx n (p @ ''-'' @ decimal i) code"
proof -
  from assms childIndices_fst[of node] obtain i where ci: "childIndices node = [(n, i)]"
    by (cases "childIndices node") auto
  obtain res c1 where b: "buildNode ctx n (p @ ''-'' @ decimal i) code = (res, c1)"
    by fastforce
  have "buildChildren ctx node p code = (res, c1)"
    using assms ci b by (subst buildChildren.simps) (simp add: Let_def split: option.splits)
  with b show ?thesis by metis
qed

lemma makeId_0 [simp]: "makeId 0 = ''cfg_0''"
  by (simp add: makeId_def decimal.simps digitChar_def)

lemma makeId_1 [simp]: "makeId (Suc 0) = ''cfg_1''"
  by (simp add: makeId_def decimal.simps digitChar_def)

lemma makeId_2 [simp]: "makeId 2 = ''cfg_2''"
  by (simp add: makeId_def decimal.simps digitChar_def)

lemma initCtx_simps [simp]:
  "ctx_blocks (initCtx code) = []" "ctx_edges (initCtx code) = []" "nextBlockId (initCtx code) = 0"
  by (simp_all add: initCtx_def)

definition returnCode :: string where
  "returnCode = ''return 1;''"

definition returnRoot :: AstNode where
  "returnRoot =
     named ''return_statement'' 0 9
       [token ''return'' 0 6, named ''number'' 7 8 [], token '';'' 8 9]"

definition returnProgram :: AstNode where
  "returnProgram = named ''program'' 0 9 [returnRoot]"


text \<open>
  Claim C2, as stated: a tree consisting of a single terminator node yields exactly one
  block of kind \<open>return\<close> and zero edges.  The driver applies the chaining rule to the
  children of the root and adds an entry block wired to the first block, so the
  program \<open>return 1;\<close> yields an edge, and a root that is itself the return statement
  yields no block of kind \<open>return\<close> at all.
\<close>

theorem single_terminator_counterexample:
  "edges (buildCfg returnProgram returnCode) =
     [\<lparr>e_from = ''cfg_1'', e_to = ''cfg_0'', e_label = None\<rparr>] \<and>
   map b_kind (blocks (buildCfg returnProgram returnCode)) = [Entry, Return] \<and>
   map b_kind (blocks (buildCfg returnRoot returnCode)) = [Entry, Statement]"
  by code_simp

text \<open>
  Claim C2, amended.  For a tree whose root has a terminator node as its only named
  child, \<open>buildCfg\<close> returns the entry block followed by exactly one block of kind
  \<open>return\<close>, and exactly one edge: the unlabelled edge from the entry block to the
  return block.
\<close>

theorem single_terminator_cfg:
  assumes "filter isNamed (children ast) = [n]" and "kind n \<in> RETURN_TYPES"
  shows "map b_kind (blocks (buildCfg ast code)) = [Entry, Return] \<and>
         map b_id (blocks (buildCfg ast code)) = [''cfg_1'', ''cfg_0''] \<and>
         map b_label (blocks (buildCfg ast code)) = [''entry'', summary n code 48] \<and>
         edges (buildCfg ast code) = [\<lparr>e_from = ''cfg_1'', e_to = ''cfg_0'', e_label = None\<rparr>]"
proof -
  from buildChildren_single[OF assms(1)] obtain i where
    bc: "buildChildren (initCtx code) ast ''root'' code =
         buildNode (initCtx code) n (''root'' @ ''-'' @ decimal i) code"
    by blast
  obtain b c1 where mb: "makeBlock (initCtx code) (summary n code 48) Return n
      (''root'' @ ''-'' @ decimal i) [summary n code 48] = (b, c1)"
    by fastforce
  note mp = makeBlock_props[OF mb]
  have bc': "buildChildren (initCtx code) ast ''root'' code =
      (Some \<lparr>r_entry = b_id b, r_exits = []\<rparr>, c1)"
    unfolding bc by (rule buildNode_RETURN[OF assms(2) mb])
  have "buildCfg ast code =
     \<lparr>blocks = entrySentinel ast (nextBlockId c1) # ctx_blocks c1,
      edges = dedupEdges {}
        (ctx_edges c1 @ [\<lparr>e_from = makeId (nextBlockId c1),
                          e_to = r_entry \<lparr>r_entry = b_id b, r_exits = []\<rparr>, e_label = None\<rparr>])\<rparr>"
    by (rule buildCfg_entry[OF bc']) (simp_all add: mp)
  then show ?thesis by (simp add: mp entrySentinel_def Let_def)
qed

theorem single_terminator_cfg_witness:
  "filter isNamed (children returnProgram) = [returnRoot] \<and> kind returnRoot \<in> RETURN_TYPES \<and>
   map b_kind (blocks (buildCfg returnProgram returnCode)) = [Entry, Return] \<and>
   edges (buildCfg returnProgram returnCode) =
     [\<lparr>e_from = ''cfg_1'', e_to = ''cfg_0'', e_label = None\<rparr>]"
proof -
  have 1: "filter isNamed (children returnProgram) = [returnRoot]"
    by (simp add: returnProgram_def returnRoot_def named_def)
  have 2: "kind returnRoot \<in> RETURN_TYPES"
    by (simp add: returnRoot_def named_def RETURN_TYPES_def)
  from single_terminator_cfg[OF 1 2, of returnCode] 1 2 show ?thesis by simp
qed

section \<open>Edge keys and the deduplicating filter\<close>

lemma append_sep_inj:
  assumes "c \<notin> set xs" "c \<notin> set ys" "xs @ c # r = ys @ c # r'"
  shows "xs = ys \<and> r = r'"
  using assms
proof (induction xs arbitrary: ys)
  case Nil
  then show ?case by (cases ys) auto
next
  case (Cons x xs)
  then show ?case by (cases ys) auto
qed

lemma decimal_digits: "set (decimal n) \<subseteq> set ''0123456789''"
proof (induction n rule: decimal.induct)
  case (1 n)
  have d: "digitChar k \<in> set ''0123456789''" if "k < 10" for k
    unfolding digitChar_def by (rule nth_mem) (use that in simp)
  show ?case
  proof (cases "n < 10")
    case True
    then show ?thesis using d[of n] by (subst decimal.simps) simp
  next
    case False
    then show ?thesis using "1.IH" d[of "n mod 10"] by (subst decimal.simps) simp
  qed
qed

lemma decimal_no_sep: "CHR ''-'' \<notin> set (decimal n)" "CHR '':'' \<notin> set (decimal n)"
  using decimal_digits[of n] by auto

lemma edgeKey_inj:
  assumes "edgeKey e = edgeKey e'"
    and "e_from e = makeId a" "e_from e' = makeId a'" "e_to e = makeId b" "e_to e' = makeId b'"
  shows "a = a' \<and> b = b'"
proof -
  from assms have
    "decimal a @ CHR ''-'' # (''>cfg_'' @ decimal b @ CHR '':'' # (case e_label e of Some l \<Rightarrow> l | None \<Rightarrow> []))
     = decimal a' @ CHR ''-'' # (''>cfg_'' @ decimal b' @ CHR '':'' # (case e_label e' of Some l \<Rightarrow> l | None \<Rightarrow> []))"
    by (simp add: edgeKey_def makeId_def)
  from append_sep_inj[OF decimal_no_sep(1) decimal_no_sep(1) this]
  have 1: "decimal a = decimal a'"
    and "decimal b @ CHR '':'' # (case e_label e of Some l \<Rightarrow> l | None \<Rightarrow> [])
       = decimal b' @ CHR '':'' # (case e_label e' of Some l \<Rightarrow> l | None \<Rightarrow> [])"
    by simp_all
  from append_sep_inj[OF decimal_no_sep(2) decimal_no_sep(2) this(2)] 1
  show ?thesis by (auto dest: decimal_inj)
qed

lemma dedupEdges_filter:
  assumes "distinct (filter P es)"
    and "\<forall>e' \<in> set es. \<forall>e'' \<in> set es. P e'' \<longrightarrow> edgeKey e' = edgeKey e'' \<longrightarrow> e' = e''"
    and "\<forall>e \<in> set es. P e \<longrightarrow> edgeKey e \<notin> S"
  shows "filter P (dedupEdges S es) = filter P es"
  using assms
proof (induction es arbitrary: S)
  case Nil
  then show ?case by simp
next
  case (Cons e es)
  have d: "distinct (filter P es)" using Cons.prems(1) by (simp split: if_splits)
  have u: "\<forall>e' \<in> set es. \<forall>e'' \<in> set es. P e'' \<longrightarrow> edgeKey e' = edgeKey e'' \<longrightarrow> e' = e''"
    using Cons.prems(2) by simp
  show ?case
  proof (cases "edgeKey e \<in> S")
    case True
    then have "\<not> P e" using Cons.prems(3) by auto
    moreover have "\<forall>e \<in> set es. P e \<longrightarrow> edgeKey e \<notin> S" using Cons.prems(3) by simp
    ultimately show ?thesis using True Cons.IH[OF d u] by (simp add: Let_def)
  next
    case False
    have "edgeKey e'' \<notin> insert (edgeKey e) S" if "e'' \<in> set es" "P e''" for e''
    proof -
      have "edgeKey e'' \<notin> S" using Cons.prems(3) that by simp
      moreover have "edgeKey e'' \<noteq> edgeKey e"
      proof
        assume "edgeKey e'' = edgeKey e"
        then have "e = e''" using Cons.prems(2) that by simp
        then show False using Cons.prems(1) that by simp
      qed
      ultimately show ?thesis by simp
    qed
    then have "\<forall>x \<in> set es. P x \<longrightarrow> edgeKey x \<notin> insert (edgeKey e) S"
      by blast
    from Cons.IH[OF d u this] False show ?thesis by (simp add: Let_def)
  qed
qed

lemma root_edge_ids:
  assumes bc: "buildChildren (initCtx code) ast ''root'' code = (result, ctx1)"
    and e: "e \<in> set (ctx_edges ctx1)"
  shows "\<exists>a b. a < nextBlockId ctx1 \<and> b < nextBlockId ctx1 \<and> e_from e = makeId a \<and> e_to e = makeId b"
proof -
  note b = buildChildren_init(1)[OF bc]
  note i = builds_init[OF b]
  from b e have "liveId (initCtx code) ctx1 (e_from e)" "e_to e \<in> freshIds (initCtx code) ctx1"
    unfolding builds_def i(2) by blast+
  then show ?thesis unfolding liveId_def i by auto
qed

lemma root_blocks:
  assumes bc: "buildChildren (initCtx code) ast ''root'' code = (result, ctx1)"
  shows "map b_id (ctx_blocks ctx1) = map makeId [0..<nextBlockId ctx1]"
    "length (ctx_blocks ctx1) = nextBlockId ctx1"
    "result = None \<Longrightarrow> ctx_blocks ctx1 = []"
    "result = Some r \<Longrightarrow> ctx_blocks ctx1 \<noteq> [] \<and> r_entry r = ''cfg_0''"
proof -
  note b = buildChildren_init[OF bc]
  note i = builds_init[OF b(1)]
  show 1: "map b_id (ctx_blocks ctx1) = map makeId [0..<nextBlockId ctx1]" by (rule i(4))
  from arg_cong[OF 1, of length] show 2: "length (ctx_blocks ctx1) = nextBlockId ctx1" by simp
  show "result = None \<Longrightarrow> ctx_blocks ctx1 = []" using b(2) by (simp add: resPost_def)
  show "result = Some r \<Longrightarrow> ctx_blocks ctx1 \<noteq> [] \<and> r_entry r = ''cfg_0''"
    using b(2) 2 by (auto simp: resPost_def)
qed

lemma entry_edge_kept:
  assumes bc: "buildChildren (initCtx code) ast ''root'' code = (Some r, ctx1)"
  shows "filter (\<lambda>e. e_from e = makeId (nextBlockId ctx1))
           (dedupEdges {} (ctx_edges ctx1 @
              [\<lparr>e_from = makeId (nextBlockId ctx1), e_to = r_entry r, e_label = None\<rparr>]))
         = [\<lparr>e_from = makeId (nextBlockId ctx1), e_to = r_entry r, e_label = None\<rparr>]"
proof -
  define n where "n = nextBlockId ctx1"
  define ee where "ee = \<lparr>e_from = makeId n, e_to = r_entry r, e_label = None\<rparr>"
  define P where "P = (\<lambda>e::CfgEdge. e_from e = makeId n)"
  have old: "\<not> P e" if "e \<in> set (ctx_edges ctx1)" for e
    using root_edge_ids[OF bc that] by (auto simp: P_def n_def)
  have f: "filter P (ctx_edges ctx1 @ [ee]) = [ee]"
    using old by (simp add: P_def ee_def filter_empty_conv)
  have "filter P (dedupEdges {} (ctx_edges ctx1 @ [ee])) = filter P (ctx_edges ctx1 @ [ee])"
  proof (rule dedupEdges_filter)
    show "distinct (filter P (ctx_edges ctx1 @ [ee]))" unfolding f by simp
    show "\<forall>e \<in> set (ctx_edges ctx1 @ [ee]). P e \<longrightarrow> edgeKey e \<notin> {}" by simp
    show "\<forall>e' \<in> set (ctx_edges ctx1 @ [ee]). \<forall>e'' \<in> set (ctx_edges ctx1 @ [ee]).
        P e'' \<longrightarrow> edgeKey e' = edgeKey e'' \<longrightarrow> e' = e''"
    proof (intro ballI impI)
      fix e' e'' assume m: "e' \<in> set (ctx_edges ctx1 @ [ee])" "e'' \<in> set (ctx_edges ctx1 @ [ee])"
        and p: "P e''" and k: "edgeKey e' = edgeKey e''"
      from m(2) p old have e'': "e'' = ee" by auto
      show "e' = e''"
      proof (cases "e' = ee")
        case True
        then show ?thesis using e'' by simp
      next
        case False
        with m(1) have "e' \<in> set (ctx_edges ctx1)" by simp
        from root_edge_ids[OF bc this] obtain a b where
          ab: "a < n" "e_from e' = makeId a" "e_to e' = makeId b" by (auto simp: n_def)
        have "r_entry r = makeId 0" using root_blocks(4)[OF bc] by simp
        then have "e_from ee = makeId n" "e_to ee = makeId 0" by (simp_all add: ee_def)
        from edgeKey_inj[OF k[unfolded e''] ab(2) this(1) ab(3) this(2)] ab(1)
        show ?thesis by simp
      qed
    qed
  qed
  then show ?thesis unfolding f unfolding P_def ee_def n_def .
qed

text \<open>
  A program with a statement followed by a function definition:
  \<open>x; function f() {}\<close>.
\<close>

definition fnCode :: string where
  "fnCode = ''x; function f() {}''"

definition fnTree :: AstNode where
  "fnTree =
     named ''program'' 0 19
       [named ''expression_statement'' 0 2 [named ''identifier'' 0 1 [], token '';'' 1 2],
        named ''function_declaration'' 3 19
          [token ''function'' 3 11,
           named ''identifier'' 12 13 [],
           named ''formal_parameters'' 13 15 [token ''('' 13 14, token '')'' 14 15],
           named ''statement_block'' 16 19 [token ''{'' 16 17, token ''}'' 17 18]]]"

text \<open>
  Claim C3, as stated: whenever \<open>buildCfg\<close> produces a block, the block at index 0 is
  of kind \<open>entry\<close>.  When a function definition has already produced an entry block,
  nothing is added or moved: here the leading block is a plain statement.
\<close>

theorem leading_entry_counterexample:
  "blocks (buildCfg fnTree fnCode) \<noteq> [] \<and>
   map b_kind (blocks (buildCfg fnTree fnCode)) = [Statement, Entry] \<and>
   b_kind (blocks (buildCfg fnTree fnCode) ! 0) \<noteq> Entry"
  by code_simp

text \<open>
  Claim C3, amended.  Whenever \<open>buildCfg\<close> produces a block, the graph contains a
  block of kind \<open>entry\<close>.  If no block was classified as \<open>entry\<close> during
  construction, a synthetic block labelled \<open>entry\<close> is created, wired to the entry of
  the root result, and placed at index 0 in front of the other blocks, and it is the
  only entry block; otherwise the blocks are returned as constructed.
\<close>

theorem leading_entry_block:
  assumes "buildChildren (initCtx code) ast ''root'' code = (result, ctx1)"
    and "blocks (buildCfg ast code) \<noteq> []"
  shows "(\<exists>b \<in> set (blocks (buildCfg ast code)). b_kind b = Entry) \<and>
    (if list_ex (\<lambda>b. b_kind b = Entry) (ctx_blocks ctx1)
     then blocks (buildCfg ast code) = ctx_blocks ctx1
     else (\<exists>r. result = Some r \<and>
            tl (blocks (buildCfg ast code)) = ctx_blocks ctx1 \<and>
            b_kind (hd (blocks (buildCfg ast code))) = Entry \<and>
            b_label (hd (blocks (buildCfg ast code))) = ''entry'' \<and>
            filter (\<lambda>b. b_kind b = Entry) (blocks (buildCfg ast code)) =
              [hd (blocks (buildCfg ast code))] \<and>
            filter (\<lambda>e. e_from e = b_id (hd (blocks (buildCfg ast code))))
              (edges (buildCfg ast code)) =
              [\<lparr>e_from = b_id (hd (blocks (buildCfg ast code))), e_to = r_entry r,
                e_label = None\<rparr>]))"
proof (cases "list_ex (\<lambda>b. b_kind b = Entry) (ctx_blocks ctx1)")
  case True
  have "buildCfg ast code = \<lparr>blocks = ctx_blocks ctx1, edges = dedupEdges {} (ctx_edges ctx1)\<rparr>"
    using assms(1) by (rule buildCfg_plain) (simp add: True)
  then show ?thesis using True by (auto simp: list_ex_iff)
next
  case False
  have "result \<noteq> None"
  proof
    assume n: "result = None"
    have "buildCfg ast code = \<lparr>blocks = ctx_blocks ctx1, edges = dedupEdges {} (ctx_edges ctx1)\<rparr>"
      using assms(1) by (rule buildCfg_plain) (simp add: n)
    then show False using assms(2) root_blocks(3)[OF assms(1) n] by simp
  qed
  then obtain r where r: "result = Some r" by auto
  note bc = assms(1)[unfolded r]
  have ne: "ctx_blocks ctx1 \<noteq> []" using root_blocks(4)[OF assms(1) r] by simp
  note eq = buildCfg_entry[OF bc ne False]
  have noe: "filter (\<lambda>b. b_kind b = Entry) (ctx_blocks ctx1) = []"
    using False by (simp add: list_ex_iff filter_empty_conv)
  show ?thesis
    using False r noe entry_edge_kept[OF bc] unfolding eq
    by (simp add: entrySentinel_def)
qed

theorem leading_entry_block_witness:
  "blocks (buildCfg loopTree loopCode) \<noteq> [] \<and>
   b_kind (hd (blocks (buildCfg loopTree loopCode))) = Entry \<and>
   b_label (hd (blocks (buildCfg loopTree loopCode))) = ''entry'' \<and>
   blocks (buildCfg fnTree fnCode) \<noteq> [] \<and>
   (\<exists>b \<in> set (blocks (buildCfg fnTree fnCode)). b_kind b = Entry)"
proof -
  obtain result ctx1 where 1: "buildChildren (initCtx loopCode) loopTree ''root'' loopCode = (result, ctx1)"
    by fastforce
  have 2: "blocks (buildCfg loopTree loopCode) \<noteq> []" by code_simp
  obtain result' ctx1' where 3: "buildChildren (initCtx fnCode) fnTree ''root'' fnCode = (result', ctx1')"
    by fastforce
  have 4: "blocks (buildCfg fnTree fnCode) \<noteq> []" by code_simp
  have 5: "b_kind (hd (blocks (buildCfg loopTree loopCode))) = Entry \<and>
    b_label (hd (blocks (buildCfg loopTree loopCode))) = ''entry''" by code_simp
  from leading_entry_block[OF 1 2] leading_entry_block[OF 3 4] 2 4 5 show ?thesis by blast
qed

text \<open>
  Claim C10.  The blocks of the returned graph are not always in ascending order of
  their ids: whenever \<open>buildCfg\<close> synthesizes the entry block, that block is created
  last, so among \<open>n\<close> other blocks it carries the id number \<open>n\<close>, the largest of the
  build, yet it stands at index 0; the other blocks follow in construction order, with
  the id numbers \<open>0, \<dots>, n - 1\<close>.
\<close>

theorem synthetic_entry_breaks_id_order:
  assumes "buildChildren (initCtx code) ast ''root'' code = (Some r, ctx1)"
    and "\<not> list_ex (\<lambda>b. b_kind b = Entry) (ctx_blocks ctx1)"
  shows "0 < length (ctx_blocks ctx1) \<and>
    map b_id (blocks (buildCfg ast code)) =
      map makeId (length (ctx_blocks ctx1) # [0..<length (ctx_blocks ctx1)]) \<and>
    \<not> sorted (length (ctx_blocks ctx1) # [0..<length (ctx_blocks ctx1)]) \<and>
    b_kind (hd (blocks (buildCfg ast code))) = Entry \<and>
    tl (blocks (buildCfg ast code)) = ctx_blocks ctx1"
proof -
  note rb = root_blocks[OF assms(1)]
  have ne: "ctx_blocks ctx1 \<noteq> []" using rb(4) by simp
  then have pos: "0 < length (ctx_blocks ctx1)" by simp
  note eq = buildCfg_entry[OF assms(1) ne assms(2)]
  have "\<not> sorted (length (ctx_blocks ctx1) # [0..<length (ctx_blocks ctx1)])"
    using pos by (auto intro!: bexI[of _ 0])
  then show ?thesis using pos unfolding eq by (simp add: rb(1,2) entrySentinel_def)
qed

theorem synthetic_entry_breaks_id_order_witness:
  "map b_id (blocks (buildCfg loopTree loopCode)) = [''cfg_2'', ''cfg_0'', ''cfg_1''] \<and>
   \<not> sorted [2, 0, 1 :: nat] \<and>
   b_kind (hd (blocks (buildCfg loopTree loopCode))) = Entry"
proof -
  obtain r ctx1 where 1: "buildChildren (initCtx loopCode) loopTree ''root'' loopCode = (Some r, ctx1)"
    and 2: "\<not> list_ex (\<lambda>b. b_kind b = Entry) (ctx_blocks ctx1)"
    and 3: "length (ctx_blocks ctx1) = 2"
  proof -
    have "(case buildChildren (initCtx loopCode) loopTree ''root'' loopCode of
            (res, c) \<Rightarrow> res \<noteq> None \<and> \<not> list_ex (\<lambda>b. b_kind b = Entry) (ctx_blocks c) \<and>
              length (ctx_blocks c) = 2)"
      by code_simp
    then show ?thesis using that by (auto split: prod.splits)
  qed
  have "makeId (Suc (Suc 0)) = ''cfg_2''" using makeId_2 by (simp add: numeral_2_eq_2)
  with synthetic_entry_breaks_id_order[OF 1 2] 3 show ?thesis
    by (simp add: upt_rec numeral_2_eq_2)
qed

text \<open>
  A node that reaches the default case of \<open>buildNode\<close> and becomes one statement block.
\<close>

definition isLeafStatement :: "AstNode \<Rightarrow> bool" where
  "isLeafStatement s \<longleftrightarrow>
     kind s \<notin> IF_TYPES \<and> kind s \<notin> LOOP_TYPES \<and> kind s \<notin> MATCH_TYPES \<and>
     kind s \<notin> RETURN_TYPES \<and> kind s \<notin> FUNCTION_TYPES \<and>
     kind s \<notin> CONTAINER_TYPES \<and> \<not> isContainerLike s \<and>
     isNamed s \<and> kind s \<noteq> ''comment''"

section \<open>Which nodes produce blocks\<close>

inductive yieldsNode :: "AstNode \<Rightarrow> bool" where
  control: "isControl (kind n) \<Longrightarrow> yieldsNode n"
| container: "\<not> isControl (kind n) \<Longrightarrow> kind n \<in> CONTAINER_TYPES \<or> isContainerLike n \<Longrightarrow>
     c \<in> set (children n) \<Longrightarrow> isNamed c \<Longrightarrow> yieldsNode c \<Longrightarrow> yieldsNode n"
| statement: "isLeafStatement n \<Longrightarrow> yieldsNode n"

definition yieldsBlocks :: "AstNode \<Rightarrow> bool" where
  "yieldsBlocks body \<longleftrightarrow> (\<exists>c \<in> set (children body). isNamed c \<and> yieldsNode c)"

lemma control_Some:
  assumes "isControl (kind n)"
  shows "fst (buildNode ctx n p code) \<noteq> None"
proof -
  obtain bb c1 where 1:
    "makeBlock ctx (condLabel n code) Branch n p [condLabel n code] = (bb, c1)" by fastforce
  obtain tr c2 where 2:
    "(case findBody n of Some b \<Rightarrow> buildChildren c1 b p code | None \<Rightarrow> (None, c1)) = (tr, c2)"
    by fastforce
  obtain fr c4 where 3:
    "(case findElse n of Some e \<Rightarrow>
        buildChildren (case tr of Some r \<Rightarrow> addEdge c2 (b_id bb) (r_entry r) (Some ''true'')
                       | None \<Rightarrow> c2) e p code
      | None \<Rightarrow> (None, (case tr of Some r \<Rightarrow> addEdge c2 (b_id bb) (r_entry r) (Some ''true'')
                       | None \<Rightarrow> c2))) = (fr, c4)"
    by fastforce
  obtain lb d1 where 4:
    "makeBlock ctx (loopLabel n code) Loop n p [loopLabel n code] = (lb, d1)" by fastforce
  obtain br d2 where 5:
    "(case findBody n of Some b \<Rightarrow> buildChildren d1 b p code | None \<Rightarrow> (None, d1)) = (br, d2)"
    by fastforce
  obtain mb e1 where 6:
    "makeBlock ctx ''match'' Match n p [summary n code 32] = (mb, e1)" by fastforce
  obtain exits e2 where 7:
    "buildArms e1 (findArms n) 0 (b_id mb) p code [] = (exits, e2)" by fastforce
  obtain rb f1 where 8:
    "makeBlock ctx (summary n code 48) Return n p [summary n code 48] = (rb, f1)" by fastforce
  obtain eb g1 where 9:
    "makeBlock ctx (fnLabel n code) Entry n p [fnLabel n code] = (eb, g1)" by fastforce
  obtain gr g2 where 10:
    "(case findBody n of Some b \<Rightarrow> buildChildren g1 b p code | None \<Rightarrow> (None, g1)) = (gr, g2)"
    by fastforce
  obtain xb g4 where 11:
    "makeBlock (addEdge g2 (b_id eb) (r_entry (the gr)) None) ''end'' Exit n p [''end''] = (xb, g4)"
    by fastforce
  from assms consider "kind n \<in> IF_TYPES" | "kind n \<in> LOOP_TYPES" | "kind n \<in> MATCH_TYPES"
    | "kind n \<in> RETURN_TYPES" | "kind n \<in> FUNCTION_TYPES"
    unfolding isControl_def by blast
  then show ?thesis
  proof cases
    case 1 then show ?thesis by (simp add: buildNode_IF[OF _ \<open>makeBlock ctx (condLabel n code) Branch n p [condLabel n code] = (bb, c1)\<close> 2 refl 3 refl])
  next
    case 2 then show ?thesis by (simp add: buildNode_LOOP[OF _ 4 5])
  next
    case 3 then show ?thesis by (simp add: buildNode_MATCH[OF _ 6 7])
  next
    case 4 then show ?thesis by (simp add: buildNode_RETURN[OF _ 8])
  next
    case 5 then show ?thesis by (simp add: buildNode_FUNCTION[OF _ 9 10 11] split: option.splits)
  qed
qed

lemma buildEach_grows:
  "buildEach ctx cs p code results = (results', ctx') \<Longrightarrow> length results \<le> length results'"
proof (induction cs arbitrary: ctx results)
  case Nil
  then show ?case by simp
next
  case (Cons ci cs)
  obtain child idx where ci: "ci = (child, idx)" by (cases ci)
  obtain res c1 where a: "buildNode ctx child (p @ ''-'' @ decimal idx) code = (res, c1)"
    by fastforce
  from Cons.prems a ci have
    "buildEach c1 cs p code (case res of Some r \<Rightarrow> results @ [r] | None \<Rightarrow> results) = (results', ctx')"
    by simp
  from Cons.IH[OF this] show ?case by (simp split: option.splits)
qed

lemma buildEach_yield:
  assumes "child \<in> fst ` set cs" and "\<And>c q. fst (buildNode c child q code) \<noteq> None"
    and "buildEach ctx cs p code results = (results', ctx')"
  shows "length results < length results'"
  using assms(1,3)
proof (induction cs arbitrary: ctx results)
  case Nil
  then show ?case by simp
next
  case (Cons ci cs)
  obtain ch idx where ci: "ci = (ch, idx)" by (cases ci)
  obtain res c1 where a: "buildNode ctx ch (p @ ''-'' @ decimal idx) code = (res, c1)"
    by fastforce
  from Cons.prems(2) a ci have call:
    "buildEach c1 cs p code (case res of Some r \<Rightarrow> results @ [r] | None \<Rightarrow> results) = (results', ctx')"
    by simp
  show ?case
  proof (cases "ch = child")
    case True
    then obtain r where "res = Some r" using assms(2)[of ctx "p @ ''-'' @ decimal idx"] a by auto
    with buildEach_grows[OF call] show ?thesis by simp
  next
    case False
    with Cons.prems(1) ci have "child \<in> fst ` set cs" by auto
    from Cons.IH[OF this call] show ?thesis by (simp split: option.splits)
  qed
qed

lemma childIndices_named:
  assumes "c \<in> set (children n)" "isNamed c"
  shows "c \<in> fst ` set (childIndices n)"
proof -
  have "c \<in> set (filter isNamed (children n))" using assms by simp
  then show ?thesis unfolding childIndices_fst[symmetric] by simp
qed

lemma children_Some:
  assumes "c \<in> set (children n)" "isNamed c" "\<And>ctx q. fst (buildNode ctx c q code) \<noteq> None"
  shows "fst (buildChildren ctx n p code) \<noteq> None"
proof -
  obtain results c1 where a: "buildEach ctx (childIndices n) p code [] = (results, c1)"
    by fastforce
  from buildEach_yield[OF childIndices_named[OF assms(1,2)] assms(3) a]
  have "results \<noteq> []" by auto
  moreover have "filter isNamed (children n) \<noteq> []"
    using assms(1,2) by (auto simp: filter_empty_conv)
  ultimately show ?thesis using a by (subst buildChildren.simps) (simp add: Let_def)
qed

lemma yieldsNode_Some: "yieldsNode n \<Longrightarrow> fst (buildNode ctx n p code) \<noteq> None"
proof (induction arbitrary: ctx p rule: yieldsNode.induct)
  case (control n)
  then show ?case by (rule control_Some)
next
  case (container n c)
  have "fst (buildChildren ctx n p code) \<noteq> None"
    using container.hyps(3,4) container.IH by (rule children_Some)
  then show ?case using container.hyps(1,2) by (simp add: buildNode_container)
next
  case (statement n)
  obtain b c1 where mb:
    "makeBlock ctx (summary n code 48) Statement n p [summary n code 48] = (b, c1)"
    by fastforce
  have "buildNode ctx n p code = (Some \<lparr>r_entry = b_id b, r_exits = [b_id b]\<rparr>, c1)"
    using statement
    by (intro buildNode_statement[OF _ _ _ _ mb]) (simp_all add: isLeafStatement_def isControl_def)
  then show ?case by simp
qed

lemma yieldsBlocks_Some: "yieldsBlocks body \<Longrightarrow> \<exists>r c'. buildChildren ctx body p code = (Some r, c')"
proof -
  assume "yieldsBlocks body"
  then obtain c where c: "c \<in> set (children body)" "isNamed c" "yieldsNode c"
    by (auto simp: yieldsBlocks_def)
  have "fst (buildChildren ctx body p code) \<noteq> None"
    using c(1,2) yieldsNode_Some[OF c(3)] by (rule children_Some)
  then show ?thesis by (cases "buildChildren ctx body p code") auto
qed

section \<open>The nodes of a tree\<close>

fun subtree :: "AstNode \<Rightarrow> AstNode list" where
  "subtree (AstNode k s e sp ep t nm cs) =
     AstNode k s e sp ep t nm cs # concat (map subtree cs)"

lemma subtree_self: "n \<in> set (subtree n)"
  by (cases n) simp

lemma subtree_child: "c \<in> set (children n) \<Longrightarrow> set (subtree c) \<subseteq> set (subtree n)"
  by (cases n) auto

lemma find_mem: "find P xs = Some x \<Longrightarrow> x \<in> set xs"
  by (induction xs) (auto split: if_splits)

lemma findBody_child: "findBody n = Some b \<Longrightarrow> b \<in> set (children n)"
  by (auto simp: findBody_def dest: find_mem)

lemma findElse_child: "findElse n = Some b \<Longrightarrow> b \<in> set (children n)"
  by (auto simp: findElse_def dest: find_mem)

section \<open>The branch construct\<close>

lemma builds_edges:
  assumes "builds c c'"
  obtains es where "ctx_edges c' = ctx_edges c @ es"
    "\<forall>e \<in> set es. \<exists>k. nextBlockId c \<le> k \<and> e_from e = makeId k"
proof -
  from assms have ext: "blocksExt c c'" by (simp add: builds_def)
  then obtain bs es where es: "ctx_edges c' = ctx_edges c @ es" "newEdges c c' = es"
    by (rule blocksExtE)
  have "\<forall>e \<in> set es. \<exists>k. nextBlockId c \<le> k \<and> e_from e = makeId k"
    using assms unfolding builds_def es(2) liveId_def freshIds_def by fastforce
  with es(1) show thesis by (rule that)
qed

lemma branch_node:
  assumes k: "kind n \<in> IF_TYPES" and tb: "findBody n = Some tb" and eb: "findElse n = Some eb"
    and yt: "yieldsBlocks tb" and ye: "yieldsBlocks eb"
  shows "\<exists>bb c1 tr c2 fr c4 lbl.
     makeBlock ctx lbl Branch n p [lbl] = (bb, c1) \<and>
     buildChildren c1 tb p code = (Some tr, c2) \<and>
     buildChildren (addEdge c2 (b_id bb) (r_entry tr) (Some ''true'')) eb p code = (Some fr, c4) \<and>
     buildNode ctx n p code =
       (Some \<lparr>r_entry = b_id bb, r_exits = r_exits tr @ r_exits fr\<rparr>,
        addEdge c4 (b_id bb) (r_entry fr) (Some ''false'')) \<and>
     b_id bb \<notin> set (r_exits tr @ r_exits fr) \<and>
     r_entry tr = makeId (Suc (nextBlockId ctx)) \<and> r_entry fr = makeId (nextBlockId c2) \<and>
     Suc (nextBlockId ctx) < nextBlockId c2 \<and>
     builds c1 c2 \<and> builds (addEdge c2 (b_id bb) (r_entry tr) (Some ''true'')) c4"
proof -
  obtain bb c1 where mb:
    "makeBlock ctx (condLabel n code) Branch n p [condLabel n code] = (bb, c1)"
    by fastforce
  note mp = makeBlock_props[OF mb]
  from yieldsBlocks_Some[OF yt] obtain tr c2 where t: "buildChildren c1 tb p code = (Some tr, c2)"
    by blast
  define c3 where "c3 = addEdge c2 (b_id bb) (r_entry tr) (Some ''true'')"
  from yieldsBlocks_Some[OF ye] obtain fr c4 where f: "buildChildren c3 eb p code = (Some fr, c4)"
    by blast
  have t': "(case findBody n of Some b \<Rightarrow> buildChildren c1 b p code | None \<Rightarrow> (None, c1))
      = (Some tr, c2)" by (simp add: tb t)
  have c3': "c3 = (case Some tr of Some r \<Rightarrow> addEdge c2 (b_id bb) (r_entry r) (Some ''true'')
      | None \<Rightarrow> c2)" by (simp add: c3_def)
  have f': "(case findElse n of Some e \<Rightarrow> buildChildren c3 e p code | None \<Rightarrow> (None, c3))
      = (Some fr, c4)" by (simp add: eb f)
  have eq: "buildNode ctx n p code =
       (Some \<lparr>r_entry = b_id bb, r_exits = r_exits tr @ r_exits fr\<rparr>,
        addEdge c4 (b_id bb) (r_entry fr) (Some ''false''))"
    using buildNode_IF[OF k mb t' c3' f' refl] by simp
  have st: "builds c1 c2" "resPost c1 c2 (Some tr)"
    using nodeSpec_all[of c1 tb p code] t by (simp_all add: nodeSpec_def)
  have sf: "builds c3 c4" "resPost c3 c4 (Some fr)"
    using nodeSpec_all[of c3 eb p code] f by (simp_all add: nodeSpec_def)
  have n3: "nextBlockId c3 = nextBlockId c2" by (simp add: c3_def)
  have "x \<noteq> b_id bb" if "x \<in> set (r_exits tr)" for x
  proof -
    from st(2) that have "x \<in> freshIds c1 c2" by (simp add: resPost_def liveId_def)
    then show ?thesis by (auto simp: freshIds_def mp)
  qed
  moreover have "x \<noteq> b_id bb" if "x \<in> set (r_exits fr)" for x
  proof -
    from sf(2) that have "x \<in> freshIds c3 c4" by (simp add: resPost_def liveId_def)
    then show ?thesis using builds_next_le[OF st(1)] by (auto simp: freshIds_def mp n3)
  qed
  ultimately have notin: "b_id bb \<notin> set (r_exits tr @ r_exits fr)" by auto
  have "r_entry tr = makeId (Suc (nextBlockId ctx))" "Suc (nextBlockId ctx) < nextBlockId c2"
    using st(2) by (simp_all add: resPost_def mp)
  moreover have "r_entry fr = makeId (nextBlockId c2)"
    using sf(2) by (simp add: resPost_def n3)
  ultimately show ?thesis
    using mb t f[unfolded c3_def] eq notin st(1) sf(1)[unfolded c3_def] by blast
qed

lemma dedup_two:
  assumes ids: "\<forall>e \<in> set es. \<exists>a b. e_from e = makeId a \<and> e_to e = makeId b"
    and f: "filter (\<lambda>e. e_from e = i) es = [t, f]"
    and ne: "e_to t \<noteq> e_to f"
  shows "filter (\<lambda>e. e_from e = i) (dedupEdges {} es) = [t, f]"
proof -
  have tf: "e \<in> set es \<and> e_from e = i \<longleftrightarrow> e = t \<or> e = f" for e
    using arg_cong[OF f, of set] by auto
  have "filter (\<lambda>e. e_from e = i) (dedupEdges {} es) = filter (\<lambda>e. e_from e = i) es"
  proof (rule dedupEdges_filter)
    show "distinct (filter (\<lambda>e. e_from e = i) es)" unfolding f using ne by auto
    show "\<forall>e \<in> set es. e_from e = i \<longrightarrow> edgeKey e \<notin> {}" by simp
    show "\<forall>e' \<in> set es. \<forall>e'' \<in> set es. e_from e'' = i \<longrightarrow> edgeKey e' = edgeKey e'' \<longrightarrow> e' = e''"
    proof (intro ballI impI)
      fix e' e'' assume m: "e' \<in> set es" "e'' \<in> set es" and p: "e_from e'' = i"
        and k: "edgeKey e' = edgeKey e''"
      from ids m obtain a b a' b' where
        ab: "e_from e' = makeId a" "e_to e' = makeId b" "e_from e'' = makeId a'" "e_to e'' = makeId b'"
        by blast
      from edgeKey_inj[OF k ab(1,3,2,4)] ab have same: "e_from e' = e_from e''" "e_to e' = e_to e''"
        by simp_all
      then have "e' = t \<or> e' = f" "e'' = t \<or> e'' = f" using tf m p by metis+
      with same(2) ne show "e' = e''" by auto
    qed
  qed
  then show ?thesis unfolding f .
qed

text \<open>The program \<open>if (x) {} else { y; }\<close>, whose true body is an empty block.\<close>

definition emptyThenCode :: string where
  "emptyThenCode = ''if (x) {} else { y; }''"

definition emptyThenNode :: AstNode where
  "emptyThenNode =
     named ''if_statement'' 0 21
       [token ''if'' 0 2,
        named ''parenthesized_expression'' 3 6
          [token ''('' 3 4, named ''identifier'' 4 5 [], token '')'' 5 6],
        named ''statement_block'' 7 9 [token ''{'' 7 8, token ''}'' 8 9],
        named ''else_clause'' 10 21
          [token ''else'' 10 14,
           named ''statement_block'' 15 21
             [token ''{'' 15 16,
              named ''expression_statement'' 17 19
                [named ''identifier'' 17 18 [], token '';'' 18 19],
              token ''}'' 20 21]]]"

definition emptyThenTree :: AstNode where
  "emptyThenTree = named ''program'' 0 21 [emptyThenNode]"

section \<open>Layer assignment\<close>

text \<open>The edge relation of the predecessor lists: \<open>(a, b)\<close> when \<open>a\<close> is a predecessor of \<open>b\<close>.\<close>

definition predRel :: "(string \<times> string list) list \<Rightarrow> (string \<times> string) set" where
  "predRel P = {(a, b). a \<in> set (getOr P b)}"

text \<open>
  A list of nodes under resolution, innermost first: each one is a predecessor of the
  next.
\<close>

fun chain :: "(string \<times> string list) list \<Rightarrow> string list \<Rightarrow> bool" where
  "chain P [] = True"
| "chain P [x] = True"
| "chain P (x # y # r) = (x \<in> set (getOr P y) \<and> chain P (y # r))"

text \<open>
  What a resolved entry records: one more than the maximum of \<open>-1\<close> and the values
  reported by its predecessors, where a predecessor reports its own layer, or 0 when
  it lies on a cycle through this node.
\<close>

definition reported :: "(string \<times> string list) list \<Rightarrow> (string \<rightharpoonup> int) \<Rightarrow> string \<Rightarrow> string \<Rightarrow> int \<Rightarrow> bool" where
  "reported P L n p v \<longleftrightarrow> L p = Some v \<or> (v = 0 \<and> (n, p) \<in> (predRel P)\<^sup>*)"

definition entryOk :: "(string \<times> string list) list \<Rightarrow> (string \<rightharpoonup> int) \<Rightarrow> string \<Rightarrow> bool" where
  "entryOk P L n \<longleftrightarrow>
     (\<exists>vs. list_all2 (reported P L n) (getOr P n) vs \<and> L n = Some (1 + fold max vs (- 1)))"

definition layInv :: "(string \<times> string list) list \<Rightarrow> LayerState \<Rightarrow> string list \<Rightarrow> bool" where
  "layInv P st path \<longleftrightarrow>
     visited st = dom (layer st) \<union> set path \<and> set path \<inter> dom (layer st) = {} \<and>
     chain P path \<and> (\<forall>n \<in> dom (layer st). entryOk P (layer st) n)"

lemma chain_reach: "chain P (x # path) \<Longrightarrow> p \<in> set (x # path) \<Longrightarrow> (x, p) \<in> (predRel P)\<^sup>*"
proof (induction path arbitrary: x)
  case Nil
  then show ?case by simp
next
  case (Cons y path)
  show ?case
  proof (cases "p = x")
    case True
    then show ?thesis by simp
  next
    case False
    with Cons.prems have "p \<in> set (y # path)" "chain P (y # path)" "(x, y) \<in> predRel P"
      by (auto simp: predRel_def)
    with Cons.IH[of y] show ?thesis by (meson converse_rtrancl_into_rtrancl)
  qed
qed

lemma reported_mono: "reported P L n p v \<Longrightarrow> L \<subseteq>\<^sub>m L' \<Longrightarrow> reported P L' n p v"
  unfolding reported_def map_le_def by (metis domI)

lemma entryOk_mono: "entryOk P L n \<Longrightarrow> L \<subseteq>\<^sub>m L' \<Longrightarrow> entryOk P L' n"
proof -
  assume a: "entryOk P L n" and le: "L \<subseteq>\<^sub>m L'"
  then obtain vs where vs: "list_all2 (reported P L n) (getOr P n) vs"
    "L n = Some (1 + fold max vs (- 1))"
    by (auto simp: entryOk_def)
  have "list_all2 (reported P L' n) (getOr P n) vs"
    using vs(1) reported_mono[OF _ le] by (rule list_all2_mono)
  moreover have "L' n = Some (1 + fold max vs (- 1))"
    using vs(2) le by (metis domI map_le_def)
  ultimately show ?thesis by (auto simp: entryOk_def)
qed

lemma fold_max_ge: "(m::int) \<le> fold max vs m"
proof (induction vs arbitrary: m)
  case Nil
  show ?case by simp
next
  case (Cons v vs)
  have "m \<le> max v m" by simp
  also have "\<dots> \<le> fold max vs (max v m)" by (rule Cons.IH)
  finally show ?case by simp
qed

lemma fold_max_append: "fold max (vs @ [v]) (m::int) = max v (fold max vs m)"
  by simp

lemma fold_max_Cons: "fold max (v # vs) (m::int) = fold max vs (max m v)"
  by (simp add: max.commute)

text \<open>
  The invariant of the recursion.  For the loop over predecessors the node under
  resolution is the head of the path.
\<close>

lemma assignLayer_inv:
  "layInv P st path \<Longrightarrow> path = [] \<or> i \<in> set (getOr P (hd path)) \<Longrightarrow>
   assignLayer P st i = (v, st') \<Longrightarrow>
     layInv P st' path \<and> layer st \<subseteq>\<^sub>m layer st' \<and>
     ((i \<in> set path \<and> v = 0) \<or> layer st' i = Some v)"
  "layInv P st (n # rest) \<Longrightarrow> set ps \<subseteq> set (getOr P n) \<Longrightarrow>
   maxPredLayer P st ps m = (v, st') \<Longrightarrow>
     layInv P st' (n # rest) \<and> layer st \<subseteq>\<^sub>m layer st' \<and>
     (\<exists>vs. list_all2 (\<lambda>p w. layer st' p = Some w \<or> (w = 0 \<and> p \<in> set (n # rest))) ps vs \<and>
           v = fold max vs m)"
proof (induction P st i and P st ps m arbitrary: path v st' and n rest v st'
    rule: assignLayer_maxPredLayer.induct)
  case (1 P st i)
  show ?case
  proof (cases "layer st i")
    case (Some l)
    with "1.prems" show ?thesis by (simp add: assignLayer.simps)
  next
    case None
    show ?thesis
    proof (cases "i \<in> visited st")
      case True
      with None "1.prems"(3) have "v = 0" "st' = st" by (simp_all add: assignLayer.simps)
      moreover have "i \<in> set path" using True None "1.prems"(1) by (auto simp: layInv_def)
      ultimately show ?thesis using "1.prems"(1) by simp
    next
      case False
      define st1 where "st1 = st\<lparr>visited := insert i (visited st)\<rparr>"
      obtain mx st2 where call: "maxPredLayer P st1 (getOr P i) (- 1) = (mx, st2)"
        by fastforce
      from "1.prems"(3) None False call
      have v: "v = mx + 1" and st': "st' = st2\<lparr>layer := (layer st2)(i \<mapsto> mx + 1)\<rparr>"
        by (auto simp add: assignLayer.simps st1_def Let_def)
      have ipath: "i \<notin> set path" using False "1.prems"(1) by (auto simp: layInv_def)
      have inv1: "layInv P st1 (i # path)"
      proof -
        have "chain P (i # path)"
          using "1.prems"(1,2) by (cases path) (auto simp: layInv_def)
        then show ?thesis
          using "1.prems"(1) None False by (auto simp: layInv_def st1_def)
      qed
      from "1.IH"[OF None False st1_def refl inv1 subset_refl call]
      have inv2: "layInv P st2 (i # path)" and le: "layer st1 \<subseteq>\<^sub>m layer st2"
        and vs: "\<exists>vs. list_all2 (\<lambda>p w. layer st2 p = Some w \<or> (w = 0 \<and> p \<in> set (i # path)))
                  (getOr P i) vs \<and> mx = fold max vs (- 1)"
        by auto
      have i2: "i \<notin> dom (layer st2)" using inv2 by (auto simp: layInv_def)
      have le2: "layer st2 \<subseteq>\<^sub>m layer st'" using i2 by (auto simp: st' map_le_def)
      have le': "layer st \<subseteq>\<^sub>m layer st'"
        using le le2 by (auto simp: st1_def intro: map_le_trans)
      from vs obtain vs where vs:
        "list_all2 (\<lambda>p w. layer st2 p = Some w \<or> (w = 0 \<and> p \<in> set (i # path))) (getOr P i) vs"
        "mx = fold max vs (- 1)" by blast
      have "list_all2 (reported P (layer st') i) (getOr P i) vs"
        using vs(1)
      proof (rule list_all2_mono)
        fix p w assume "layer st2 p = Some w \<or> (w = 0 \<and> p \<in> set (i # path))"
        then show "reported P (layer st') i p w"
        proof
          assume "layer st2 p = Some w"
          then have "layer st' p = Some w" using le2 by (metis domI map_le_def)
          then show ?thesis by (simp add: reported_def)
        next
          assume "w = 0 \<and> p \<in> set (i # path)"
          moreover have "chain P (i # path)" using inv2 by (simp add: layInv_def)
          ultimately show ?thesis using chain_reach by (auto simp: reported_def)
        qed
      qed
      then have oki: "entryOk P (layer st') i"
        unfolding entryOk_def using vs(2) by (intro exI[of _ vs]) (simp add: st')
      have inv': "layInv P st' path"
        unfolding layInv_def
      proof (intro conjI ballI)
        show "visited st' = dom (layer st') \<union> set path"
          using inv2 by (auto simp: layInv_def st')
        show "set path \<inter> dom (layer st') = {}"
          using inv2 ipath by (auto simp: layInv_def st')
        show "chain P path" using "1.prems"(1) by (simp add: layInv_def)
      next
        fix k assume k: "k \<in> dom (layer st')"
        show "entryOk P (layer st') k"
        proof (cases "k = i")
          case True
          then show ?thesis using oki by simp
        next
          case False
          with k have "k \<in> dom (layer st2)" by (auto simp: st')
          then have "entryOk P (layer st2) k" using inv2 by (simp add: layInv_def)
          then show ?thesis using le2 by (rule entryOk_mono)
        qed
      qed
      have "layer st' i = Some v" by (simp add: st' v)
      with inv' le' show ?thesis by blast
    qed
  qed
next
  case (2 P st maxPred)
  then show ?case by simp
next
  case (3 P st p ps maxPred)
  obtain l st1 where a: "assignLayer P st p = (l, st1)" by fastforce
  obtain v' st2 where b: "maxPredLayer P st1 ps (max maxPred l) = (v', st2)" by fastforce
  from "3.prems"(3) a b have eq: "v = v'" "st' = st2" by simp_all
  have p: "p \<in> set (getOr P (hd (n # rest)))" using "3.prems"(2) by simp
  from "3.IH"(1)[OF "3.prems"(1) disjI2[OF p] a]
  have inv1: "layInv P st1 (n # rest)" and le1: "layer st \<subseteq>\<^sub>m layer st1"
    and r1: "(p \<in> set (n # rest) \<and> l = 0) \<or> layer st1 p = Some l"
    by auto
  have ps: "set ps \<subseteq> set (getOr P n)" using "3.prems"(2) by simp
  from "3.IH"(2)[OF a[symmetric] refl inv1 ps b]
  obtain vs where inv2: "layInv P st2 (n # rest)" and le2: "layer st1 \<subseteq>\<^sub>m layer st2"
    and vs: "list_all2 (\<lambda>p w. layer st2 p = Some w \<or> (w = 0 \<and> p \<in> set (n # rest))) ps vs"
      "v' = fold max vs (max maxPred l)"
    by auto
  have "layer st2 p = Some l \<or> (l = 0 \<and> p \<in> set (n # rest))"
    using r1 le2 by (metis domI map_le_def)
  then have "list_all2 (\<lambda>p w. layer st2 p = Some w \<or> (w = 0 \<and> p \<in> set (n # rest)))
      (p # ps) (l # vs)"
    using vs(1) by simp
  moreover have "v' = fold max (l # vs) maxPred" using vs(2) by (simp add: max.commute)
  ultimately show ?case
    unfolding eq using inv2 le1 le2 by (blast intro: map_le_trans)
qed

section \<open>Adjacency lists\<close>

definition blockIds :: "Cfg \<Rightarrow> string set" where
  "blockIds cfg = b_id ` set (blocks cfg)"

lemma addBlock_map:
  "map_of (fst (addBlock b sp)) k = (if k = b_id b then Some [] else map_of (fst sp) k)"
  "map_of (snd (addBlock b sp)) k = (if k = b_id b then Some [] else map_of (snd sp) k)"
  by (cases sp; simp add: addBlock_def update_conv')+

lemma initAdjacency_fold_fst:
  "map_of (fst (fold addBlock bs sp)) k =
     (if k \<in> b_id ` set bs then Some [] else map_of (fst sp) k)"
  by (induction bs arbitrary: sp) (auto simp: addBlock_map)

lemma initAdjacency_fold_snd:
  "map_of (snd (fold addBlock bs sp)) k =
     (if k \<in> b_id ` set bs then Some [] else map_of (snd sp) k)"
  by (induction bs arbitrary: sp) (auto simp: addBlock_map)

lemma initAdjacency_map:
  "map_of (fst (initAdjacency bs)) k = (if k \<in> b_id ` set bs then Some [] else None)"
  "map_of (snd (initAdjacency bs)) k = (if k \<in> b_id ` set bs then Some [] else None)"
  by (simp_all add: initAdjacency_def initAdjacency_fold_fst initAdjacency_fold_snd)

lemma addAdjacency_map:
  assumes "\<And>k. map_of (fst sp) k = (if k \<in> I then Some (f k) else None)"
    and "\<And>k. map_of (snd sp) k = (if k \<in> I then Some (g k) else None)"
  shows "map_of (fst (addAdjacency e sp)) k =
      (if k \<in> I then Some (f k @ (if e_from e = k \<and> e_to e \<in> I then [e_to e] else [])) else None)"
    and "map_of (snd (addAdjacency e sp)) k =
      (if k \<in> I then Some (g k @ (if e_to e = k \<and> e_from e \<in> I then [e_from e] else [])) else None)"
proof -
  obtain s p where sp: "sp = (s, p)" by (cases sp)
  have s: "map_of s k = (if k \<in> I then Some (f k) else None)" for k
    using assms(1)[of k] by (simp add: sp)
  have p: "map_of p k = (if k \<in> I then Some (g k) else None)" for k
    using assms(2)[of k] by (simp add: sp)
  show "map_of (fst (addAdjacency e sp)) k =
      (if k \<in> I then Some (f k @ (if e_from e = k \<and> e_to e \<in> I then [e_to e] else [])) else None)"
    by (simp add: addAdjacency_def sp update_conv' s p split: option.splits)
  show "map_of (snd (addAdjacency e sp)) k =
      (if k \<in> I then Some (g k @ (if e_to e = k \<and> e_from e \<in> I then [e_from e] else [])) else None)"
    by (simp add: addAdjacency_def sp update_conv' s p split: option.splits)
qed

lemma buildAdjacency_fold:
  assumes "\<And>k. map_of (fst sp) k = (if k \<in> I then Some (f k) else None)"
    and "\<And>k. map_of (snd sp) k = (if k \<in> I then Some (g k) else None)"
  shows "map_of (snd (fold addAdjacency es sp)) k =
      (if k \<in> I
       then Some (g k @ map e_from (filter (\<lambda>e. e_from e \<in> I \<and> e_to e = k) es))
       else None)"
  using assms
proof (induction es arbitrary: sp f g)
  case Nil
  then show ?case by simp
next
  case (Cons e es)
  note step = addAdjacency_map[of sp I f g e, OF Cons.prems]
  have "map_of (snd (fold addAdjacency es (addAdjacency e sp))) k =
      (if k \<in> I
       then Some ((g k @ (if e_to e = k \<and> e_from e \<in> I then [e_from e] else [])) @
              map e_from (filter (\<lambda>e. e_from e \<in> I \<and> e_to e = k) es))
       else None)"
    by (rule Cons.IH) (rule step)+
  then show ?case by auto
qed

lemma buildAdjacency_preds:
  "map_of (snd (buildAdjacency cfg)) k =
     (if k \<in> blockIds cfg
      then Some (map e_from (filter (\<lambda>e. e_from e \<in> blockIds cfg \<and> e_to e = k) (edges cfg)))
      else None)"
  unfolding buildAdjacency_def blockIds_def
  using buildAdjacency_fold[of "initAdjacency (blocks cfg)" "b_id ` set (blocks cfg)"
      "\<lambda>k. []" "\<lambda>k. []" "edges cfg" k]
  by (simp add: initAdjacency_map)

definition predecessorsOf :: "Cfg \<Rightarrow> string \<Rightarrow> string list" where
  "predecessorsOf cfg i = getOr (snd (buildAdjacency cfg)) i"

definition layerOf :: "Cfg \<Rightarrow> (string \<rightharpoonup> int)" where
  "layerOf cfg = layer (assignAll (snd (buildAdjacency cfg)) (blocks cfg))"

lemma predecessorsOf_eq:
  "predecessorsOf cfg i =
     (if i \<in> blockIds cfg
      then map e_from (filter (\<lambda>e. e_from e \<in> blockIds cfg \<and> e_to e = i) (edges cfg))
      else [])"
  by (simp add: predecessorsOf_def getOr_def buildAdjacency_preds)

lemma assignAll_inv:
  "layInv P \<lparr>layer = Map.empty, visited = {}\<rparr> []"
  by (simp add: layInv_def)

lemma assignAll_fold:
  assumes "layInv P st []"
  shows "layInv P (fold (\<lambda>b st. snd (assignLayer P st (b_id b))) bs st) [] \<and>
    layer st \<subseteq>\<^sub>m layer (fold (\<lambda>b st. snd (assignLayer P st (b_id b))) bs st) \<and>
    (\<forall>b \<in> set bs. b_id b \<in> dom (layer (fold (\<lambda>b st. snd (assignLayer P st (b_id b))) bs st)))"
  using assms
proof (induction bs arbitrary: st)
  case Nil
  then show ?case by simp
next
  case (Cons b bs)
  obtain v st1 where a: "assignLayer P st (b_id b) = (v, st1)" by fastforce
  from assignLayer_inv(1)[OF Cons.prems _ a]
  have 1: "layInv P st1 []" "layer st \<subseteq>\<^sub>m layer st1" "layer st1 (b_id b) = Some v" by simp_all
  from Cons.IH[OF 1(1)] 
  have 2: "layInv P (fold (\<lambda>b st. snd (assignLayer P st (b_id b))) bs st1) []"
    "layer st1 \<subseteq>\<^sub>m layer (fold (\<lambda>b st. snd (assignLayer P st (b_id b))) bs st1)"
    "\<forall>b \<in> set bs. b_id b \<in> dom (layer (fold (\<lambda>b st. snd (assignLayer P st (b_id b))) bs st1))"
    by simp_all
  have "b_id b \<in> dom (layer (fold (\<lambda>b st. snd (assignLayer P st (b_id b))) bs st1))"
    using 1(3) 2(2) by (metis domI map_le_def)
  then show ?case using a 1(2) 2 by (auto intro: map_le_trans)
qed

lemma layerOf_entry:
  assumes "b \<in> set (blocks cfg)"
  shows "entryOk (snd (buildAdjacency cfg)) (layerOf cfg) (b_id b)"
proof -
  from assignAll_fold[OF assignAll_inv, of "snd (buildAdjacency cfg)" "blocks cfg"]
  have "layInv (snd (buildAdjacency cfg)) (assignAll (snd (buildAdjacency cfg)) (blocks cfg)) []"
    and "b_id b \<in> dom (layerOf cfg)"
    using assms by (simp_all add: assignAll_def layerOf_def)
  then show ?thesis by (simp add: layInv_def layerOf_def)
qed

text \<open>
  A graph for the layout: the graph of \<open>while (x) { y; }\<close> and one isolated block.
\<close>

definition sampleBlock :: "string \<Rightarrow> string \<Rightarrow> CfgBlockKind \<Rightarrow> CfgBlock" where
  "sampleBlock i l k =
     \<lparr>b_id = i, b_label = l, b_statements = [l], b_start = 0, b_end = 0,
      b_startPosition = pos0, b_endPosition = pos0, b_kind = k, b_astPath = ''root''\<rparr>"

definition sampleCfg :: Cfg where
  "sampleCfg =
     \<lparr>blocks = [sampleBlock ''cfg_2'' ''entry'' Entry,
                sampleBlock ''cfg_0'' ''while (x)'' Loop,
                sampleBlock ''cfg_1'' ''y'' Statement,
                sampleBlock ''cfg_3'' ''z'' Statement],
      edges = [\<lparr>e_from = ''cfg_0'', e_to = ''cfg_1'', e_label = Some ''body''\<rparr>,
               \<lparr>e_from = ''cfg_1'', e_to = ''cfg_0'', e_label = Some ''next''\<rparr>,
               \<lparr>e_from = ''cfg_2'', e_to = ''cfg_0'', e_label = None\<rparr>]\<rparr>"

lemma fold_max_Max: "fold max vs (m::int) = Max (insert m (set vs))"
  using Max.set_eq_fold[of m vs] by simp

text \<open>
  Claim C5.  Every block receives a layer, an integer at least 0.  The layer is one
  more than the maximum over the values reported by the predecessors of the block
  (and \<open>-1\<close>), where a predecessor reports its own layer, or 0 when it was on the active
  recursion path, which is only possible when it lies on a cycle through the block;
  so a block without predecessors gets layer 0, and where no predecessor lies on a
  cycle through the block the layer is one more than the maximum layer of the
  predecessors.  A node that is revisited while it is under resolution (visited, no
  layer yet) reports 0 and leaves the state unchanged.
\<close>

theorem layer_assignment:
  assumes "b \<in> set (blocks cfg)"
  shows "\<exists>l vs.
      layerOf cfg (b_id b) = Some l \<and> 0 \<le> l \<and>
      list_all2 (reported (snd (buildAdjacency cfg)) (layerOf cfg) (b_id b))
        (predecessorsOf cfg (b_id b)) vs \<and>
      l = 1 + Max (insert (- 1) (set vs)) \<and>
      (predecessorsOf cfg (b_id b) = [] \<longrightarrow> l = 0) \<and>
      ((\<forall>p \<in> set (predecessorsOf cfg (b_id b)).
          (b_id b, p) \<notin> (predRel (snd (buildAdjacency cfg)))\<^sup>*) \<longrightarrow>
       l = 1 + Max (insert (- 1) (layerOr0 (layerOf cfg) ` set (predecessorsOf cfg (b_id b))))) \<and>
      (layer st i = None \<longrightarrow> i \<in> visited st \<longrightarrow> assignLayer P st i = (0, st))"
proof -
  define Q where "Q = snd (buildAdjacency cfg)"
  from layerOf_entry[OF assms] obtain vs where
    vs: "list_all2 (reported Q (layerOf cfg) (b_id b)) (getOr Q (b_id b)) vs"
    and l: "layerOf cfg (b_id b) = Some (1 + fold max vs (- 1))"
    by (auto simp: entryOk_def Q_def)
  define l where "l = 1 + fold max vs (- 1)"
  have pos: "0 \<le> l" using fold_max_ge[of "- 1" vs] by (simp add: l_def)
  have mx: "l = 1 + Max (insert (- 1) (set vs))" by (simp add: l_def fold_max_Max)
  have nopred: "l = 0" if "predecessorsOf cfg (b_id b) = []"
    using that vs by (simp add: l_def predecessorsOf_def Q_def)
  have acyc: "l = 1 + Max (insert (- 1) (layerOr0 (layerOf cfg) ` set (predecessorsOf cfg (b_id b))))"
    if nc: "\<forall>p \<in> set (predecessorsOf cfg (b_id b)). (b_id b, p) \<notin> (predRel Q)\<^sup>*"
  proof -
    have "list_all2 (\<lambda>p v. v = layerOr0 (layerOf cfg) p) (getOr Q (b_id b)) vs"
      using vs
    proof (rule list.rel_mono_strong)
      fix p v assume "p \<in> set (getOr Q (b_id b))" "reported Q (layerOf cfg) (b_id b) p v"
      then show "v = layerOr0 (layerOf cfg) p"
        using nc by (auto simp: reported_def layerOr0_def predecessorsOf_def Q_def)
    qed
    then have "vs = map (layerOr0 (layerOf cfg)) (getOr Q (b_id b))"
      by (induction rule: list_all2_induct) simp_all
    then show ?thesis by (simp add: mx predecessorsOf_def Q_def)
  qed
  have guard: "assignLayer P st i = (0, st)" if "layer st i = None" "i \<in> visited st"
    using that by (simp add: assignLayer.simps)
  have l': "layerOf cfg (b_id b) = Some l" using l by (simp add: l_def)
  have vs': "list_all2 (reported (snd (buildAdjacency cfg)) (layerOf cfg) (b_id b))
      (predecessorsOf cfg (b_id b)) vs"
    using vs by (simp add: predecessorsOf_def Q_def)
  show ?thesis
    by (intro exI[of _ l] exI[of _ vs] conjI impI l' pos vs' mx nopred acyc[unfolded Q_def] guard)
qed

lemma sampleCfg_layers:
  "layerOf sampleCfg ''cfg_2'' = Some 0" "layerOf sampleCfg ''cfg_0'' = Some 2"
  "layerOf sampleCfg ''cfg_1'' = Some 1" "layerOf sampleCfg ''cfg_3'' = Some 0"
  "predecessorsOf sampleCfg ''cfg_0'' = [''cfg_1'', ''cfg_2'']"
  "predecessorsOf sampleCfg ''cfg_3'' = []"
  by code_simp+

theorem layer_assignment_witness:
  "sampleBlock ''cfg_3'' ''z'' Statement \<in> set (blocks sampleCfg) \<and>
   predecessorsOf sampleCfg ''cfg_3'' = [] \<and>
   layerOf sampleCfg ''cfg_3'' = Some 0 \<and>
   layerOf sampleCfg ''cfg_0'' = Some 2 \<and>
   predecessorsOf sampleCfg ''cfg_0'' = [''cfg_1'', ''cfg_2''] \<and>
   layerOf sampleCfg ''cfg_1'' = Some 1 \<and> layerOf sampleCfg ''cfg_2'' = Some 0 \<and>
   layer \<lparr>layer = Map.empty, visited = {''cfg_0''}\<rparr> ''cfg_0'' = None \<and>
   ''cfg_0'' \<in> visited \<lparr>layer = Map.empty, visited = {''cfg_0''}\<rparr> \<and>
   assignLayer [] \<lparr>layer = Map.empty, visited = {''cfg_0''}\<rparr> ''cfg_0'' =
     (0, \<lparr>layer = Map.empty, visited = {''cfg_0''}\<rparr>)"
proof -
  have m: "sampleBlock ''cfg_3'' ''z'' Statement \<in> set (blocks sampleCfg)"
    by (simp add: sampleCfg_def)
  have i: "b_id (sampleBlock ''cfg_3'' ''z'' Statement) = ''cfg_3''"
    by (simp add: sampleBlock_def)
  from layer_assignment[OF m, of "\<lparr>layer = Map.empty, visited = {''cfg_0''}\<rparr>" "''cfg_0''" "[]"]
  have "assignLayer [] \<lparr>layer = Map.empty, visited = {''cfg_0''}\<rparr> ''cfg_0'' =
     (0, \<lparr>layer = Map.empty, visited = {''cfg_0''}\<rparr>)"
    by auto
  with m sampleCfg_layers show ?thesis by simp
qed

section \<open>Grouping the blocks by layer\<close>

lemma getOr_update:
  "getOr (AList.update k v al) j = (if j = k then v else getOr al j)"
  by (simp add: getOr_def update_conv')

lemma groupByLayer_fold:
  fixes lay :: "string \<rightharpoonup> int"
  defines "step \<equiv> (\<lambda>b layers.
             (let l = layerOr0 lay (b_id b)
              in AList.update l (getOr layers l @ [b]) layers))"
  assumes "distinct (map fst acc)"
  shows "distinct (map fst (fold step bs acc)) \<and>
    fst ` set (fold step bs acc) = fst ` set acc \<union> (\<lambda>b. layerOr0 lay (b_id b)) ` set bs \<and>
    (\<forall>k. getOr (fold step bs acc) k =
          getOr acc k @ filter (\<lambda>b. layerOr0 lay (b_id b) = k) bs)"
  using assms(2)
proof (induction bs arbitrary: acc)
  case Nil
  then show ?case by simp
next
  case (Cons b bs)
  define acc' where "acc' = step b acc"
  have d: "distinct (map fst acc')"
    using Cons.prems by (simp add: acc'_def step_def Let_def distinct_update)
  have k: "fst ` set acc' = insert (layerOr0 lay (b_id b)) (fst ` set acc)"
    by (simp add: acc'_def step_def Let_def dom_update)
  have g: "getOr acc' j = getOr acc j @ (if j = layerOr0 lay (b_id b) then [b] else [])" for j
    by (simp add: acc'_def step_def Let_def getOr_update)
  have "fold step (b # bs) acc = fold step bs acc'" by (simp add: acc'_def)
  then show ?case using Cons.IH[OF d] k g by auto
qed

lemma groupByLayer_props:
  "distinct (map fst (groupByLayer lay bs))"
  "fst ` set (groupByLayer lay bs) = (\<lambda>b. layerOr0 lay (b_id b)) ` set bs"
  "getOr (groupByLayer lay bs) k = filter (\<lambda>b. layerOr0 lay (b_id b) = k) bs"
  using groupByLayer_fold[of "[]" lay bs] by (simp_all add: groupByLayer_def getOr_def)

section \<open>Reordering keeps the blocks of every layer\<close>

lemma orderLayers_fold:
  fixes P keys
  defines "step \<equiv> (\<lambda>li layers.
             (let layerKey = keys ! li;
                  bs = getOr layers layerKey;
                  prevBlocks = getOr layers (keys ! (li - 1));
                  prevPos = prevPosOf prevBlocks
              in AList.update layerKey (sort_key (barycenter P prevPos) bs) layers))"
  assumes "\<forall>li \<in> set lis. keys ! li \<in> fst ` set layers"
  shows "map fst (fold step lis layers) = map fst layers \<and>
    (\<forall>k. mset (getOr (fold step lis layers) k) = mset (getOr layers k))"
  using assms(2)
proof (induction lis arbitrary: layers)
  case Nil
  then show ?case by simp
next
  case (Cons li lis)
  define layers' where "layers' = step li layers"
  have in_keys: "keys ! li \<in> fst ` set layers" using Cons.prems by simp
  have k: "map fst layers' = map fst layers"
    using in_keys by (simp add: layers'_def step_def Let_def update_keys)
  have g: "mset (getOr layers' j) = mset (getOr layers j)" for j
    by (simp add: layers'_def step_def Let_def getOr_update)
  have "\<forall>li \<in> set lis. keys ! li \<in> fst ` set layers'"
    using Cons.prems k by (metis list.set_intros(2) set_map)
  from Cons.IH[OF this] have "map fst (fold step lis layers') = map fst layers'"
    "\<forall>k. mset (getOr (fold step lis layers') k) = mset (getOr layers' k)" by simp_all
  moreover have "fold step (li # lis) layers = fold step lis layers'" by (simp add: layers'_def)
  ultimately show ?case using k g by simp
qed

lemma orderLayers_props:
  assumes "set keys = fst ` set layers"
  shows "map fst (orderLayers P keys layers) = map fst layers"
    "mset (getOr (orderLayers P keys layers) k) = mset (getOr layers k)"
proof -
  have "\<forall>li \<in> set [1..<length keys]. keys ! li \<in> fst ` set layers"
    using assms by (metis atLeastLessThan_iff nth_mem set_upt)
  from orderLayers_fold[OF this, of P] show
    "map fst (orderLayers P keys layers) = map fst layers"
    "mset (getOr (orderLayers P keys layers) k) = mset (getOr layers k)"
    by (simp_all add: orderLayers_def)
qed

section \<open>Sizes and positions\<close>

lemma getBlockDimensions_bounds:
  "BLOCK_MIN_W \<le> fst (getBlockDimensions mt b)" "fst (getBlockDimensions mt b) \<le> BLOCK_MAX_W"
  "0 < snd (getBlockDimensions mt b)"
  by (simp_all add: getBlockDimensions_def Let_def BLOCK_MIN_W_def BLOCK_MAX_W_def
      BLOCK_PADDING_Y_def)

text \<open>
  What the positioning loop of one layer produces: the blocks in order, each with its
  own dimensions and the layer as its row, left to right with the gap between them.
\<close>

definition sized :: "(string \<Rightarrow> string \<Rightarrow> real) \<Rightarrow> LayoutBlock \<Rightarrow> bool" where
  "sized mt lb \<longleftrightarrow> (lb_width lb, lb_height lb) = getBlockDimensions mt (lb_block lb)"

definition apart :: "LayoutBlock \<Rightarrow> LayoutBlock \<Rightarrow> bool" where
  "apart a b \<longleftrightarrow> (lb_row a = lb_row b \<longrightarrow> lb_x a + lb_width a + BLOCK_GAP_X \<le> lb_x b)"

lemma placeRow_props:
  "map lb_block (placeRow (zip bs (map (getBlockDimensions mt) bs)) i x y k) = bs \<and>
   (\<forall>lb \<in> set (placeRow (zip bs (map (getBlockDimensions mt) bs)) i x y k).
      lb_row lb = k \<and> sized mt lb \<and> x \<le> lb_x lb) \<and>
   sorted_wrt apart (placeRow (zip bs (map (getBlockDimensions mt) bs)) i x y k)"
proof (induction bs arbitrary: i x)
  case Nil
  show ?case by simp
next
  case (Cons b bs)
  obtain w h where d: "getBlockDimensions mt b = (w, h)" by fastforce
  have w: "0 \<le> w" using getBlockDimensions_bounds(1)[of mt b] d by (simp add: BLOCK_MIN_W_def)
  have g: "0 \<le> BLOCK_GAP_X" by (simp add: BLOCK_GAP_X_def)
  note IH = Cons.IH[of "i + 1" "x + (w + BLOCK_GAP_X)"]
  have later: "x + w + BLOCK_GAP_X \<le> lb_x lb"
    if "lb \<in> set (placeRow (zip bs (map (getBlockDimensions mt) bs)) (i + 1)
        (x + (w + BLOCK_GAP_X)) y k)" for lb
    using IH that by fastforce
  show ?case
    using IH w g later by (auto simp: d sized_def apart_def)
qed

lemma placeLayer_fold:
  assumes "distinct ks"
  shows "\<exists>out y'. fold (placeLayer mt L) ks (acc, y) = (acc @ out, y') \<and>
    map lb_block out = concat (map (getOr L) ks) \<and>
    (\<forall>lb \<in> set out. lb_row lb \<in> set ks \<and> sized mt lb \<and>
       lb_block lb \<in> set (getOr L (lb_row lb))) \<and>
    sorted_wrt apart out"
  using assms
proof (induction ks arbitrary: acc y)
  case Nil
  show ?case by simp
next
  case (Cons k ks)
  define bs where "bs = getOr L k"
  define dims where "dims = map (getBlockDimensions mt) bs"
  define totalW where "totalW = sum_list (map fst dims) + (real (length bs) - 1) * BLOCK_GAP_X"
  define x where "x = - totalW / 2"
  define row where "row = placeRow (zip bs dims) 0 x y k"
  define y1 where "y1 = y + ((case map snd dims of [] \<Rightarrow> 0 | h # hs \<Rightarrow> mathMax h hs) + BLOCK_GAP_Y)"
  have step: "placeLayer mt L k (acc, y) = (acc @ row, y1)"
    by (simp only: placeLayer_def Let_def prod.case bs_def dims_def totalW_def x_def row_def y1_def)
  from placeRow_props[of bs mt 0 x y k]
  have r: "map lb_block row = bs" "\<forall>lb \<in> set row. lb_row lb = k \<and> sized mt lb"
    "sorted_wrt apart row"
    by (auto simp: row_def dims_def)
  have rb: "lb_block lb \<in> set (getOr L (lb_row lb))" if "lb \<in> set row" for lb
  proof -
    have "lb_block lb \<in> set (map lb_block row)" using that by simp
    then show ?thesis using r(2) that by (simp add: r(1) bs_def)
  qed
  have dk: "distinct ks" "k \<notin> set ks" using Cons.prems by simp_all
  from Cons.IH[OF dk(1), of "acc @ row" y1] obtain out y' where
    o: "fold (placeLayer mt L) ks (acc @ row, y1) = ((acc @ row) @ out, y')"
      "map lb_block out = concat (map (getOr L) ks)"
      "\<forall>lb \<in> set out. lb_row lb \<in> set ks \<and> sized mt lb \<and>
         lb_block lb \<in> set (getOr L (lb_row lb))"
      "sorted_wrt apart out"
    by blast
  have cross: "\<forall>a \<in> set row. \<forall>b \<in> set out. apart a b"
    using r(2) o(3) dk(2) by (auto simp: apart_def)
  have "fold (placeLayer mt L) (k # ks) (acc, y) = (acc @ (row @ out), y')"
    using step o(1) by simp
  moreover have "map lb_block (row @ out) = concat (map (getOr L) (k # ks))"
    using r(1) o(2) by (simp add: bs_def)
  moreover have "\<forall>lb \<in> set (row @ out). lb_row lb \<in> set (k # ks) \<and> sized mt lb \<and>
      lb_block lb \<in> set (getOr L (lb_row lb))"
    using r(2) o(3) rb by auto
  moreover have "sorted_wrt apart (row @ out)"
    using r(3) o(4) cross by (simp add: sorted_wrt_append)
  ultimately show ?case by blast
qed

lemma normalizeX_props:
  "map lb_block (normalizeX out) = map lb_block out"
  "(\<forall>lb \<in> set out. Q (lb_block lb) (lb_row lb) (lb_width lb) (lb_height lb)) \<Longrightarrow>
   (\<forall>lb \<in> set (normalizeX out). Q (lb_block lb) (lb_row lb) (lb_width lb) (lb_height lb))"
  "sorted_wrt apart out \<Longrightarrow> sorted_wrt apart (normalizeX out)"
proof -
  have shift: "sorted_wrt apart (map (\<lambda>b. b\<lparr>lb_x := lb_x b - d\<rparr>) out)"
    if "sorted_wrt apart out" for d
    using that unfolding apart_def by (simp add: sorted_wrt_map add.assoc)
  show "map lb_block (normalizeX out) = map lb_block out"
    by (simp add: normalizeX_def Let_def comp_def split: list.splits)
  show "(\<forall>lb \<in> set out. Q (lb_block lb) (lb_row lb) (lb_width lb) (lb_height lb)) \<Longrightarrow>
   (\<forall>lb \<in> set (normalizeX out). Q (lb_block lb) (lb_row lb) (lb_width lb) (lb_height lb))"
    by (auto simp: normalizeX_def Let_def split: list.splits)
  show "sorted_wrt apart out \<Longrightarrow> sorted_wrt apart (normalizeX out)"
    using shift by (simp add: normalizeX_def Let_def split: list.splits)
qed

lemma mset_by_key:
  assumes "distinct ks" "f ` set bs \<subseteq> set ks"
  shows "mset (concat (map (\<lambda>k. filter (\<lambda>b. f b = k) bs) ks)) = mset bs"
  using assms(2)
proof (induction bs)
  case Nil
  show ?case by (induction ks) simp_all
next
  case (Cons b bs)
  have one: "mset (concat (map (\<lambda>k. if f b = k then [b] else []) ks)) = {#b#}"
    if "distinct ks" "f b \<in> set ks" for ks
    using that by (induction ks) (auto simp: concat_eq_Nil_conv)
  have split: "mset (concat (map (\<lambda>k. filter (\<lambda>x. f x = k) (b # bs)) js)) =
      mset (concat (map (\<lambda>k. if f b = k then [b] else []) js)) +
      mset (concat (map (\<lambda>k. filter (\<lambda>x. f x = k) bs) js))" for js
    by (induction js) simp_all
  show ?case
    unfolding split using Cons one[OF assms(1)] by simp
qed

lemma mset_concat_cong:
  "(\<And>k. mset (g k) = mset (h k)) \<Longrightarrow> mset (concat (map g ks)) = mset (concat (map h ks))"
  by (induction ks) simp_all

text \<open>The shape of a layout: the rows of the layers in key order, then the shift.\<close>

lemma layoutCfg_shape:
  assumes "blocks cfg \<noteq> []"
  shows "\<exists>out. layoutCfg mt cfg = normalizeX out \<and>
    mset (map lb_block out) = mset (blocks cfg) \<and>
    (\<forall>lb \<in> set out. sized mt lb \<and> lb_row lb = layerOr0 (layerOf cfg) (b_id (lb_block lb))) \<and>
    sorted_wrt apart out"
proof -
  define P where "P = snd (buildAdjacency cfg)"
  define lay where "lay = layer (assignAll P (blocks cfg))"
  define G where "G = groupByLayer lay (blocks cfg)"
  define ks where "ks = sort (map fst G)"
  define L where "L = orderLayers P ks G"
  have lay: "lay = layerOf cfg" by (simp add: lay_def layerOf_def P_def)
  note gp = groupByLayer_props[of lay "blocks cfg", folded G_def]
  have dks: "distinct ks" using gp(1) by (simp add: ks_def)
  have sks: "set ks = fst ` set G" by (simp add: ks_def)
  note op = orderLayers_props[OF sks, of P, folded L_def]
  from placeLayer_fold[OF dks, of mt L "[]" 0] obtain out y' where
    o: "fold (placeLayer mt L) ks ([], 0) = (out, y')"
      "map lb_block out = concat (map (getOr L) ks)"
      "\<forall>lb \<in> set out. lb_row lb \<in> set ks \<and> sized mt lb \<and>
         lb_block lb \<in> set (getOr L (lb_row lb))"
      "sorted_wrt apart out"
    by auto
  have eq: "layoutCfg mt cfg = normalizeX out"
    using assms o(1)
    by (simp add: layoutCfg_def Let_def split_beta P_def[symmetric] lay_def[symmetric]
        G_def[symmetric] ks_def[symmetric] L_def[symmetric])
  have "mset (map lb_block out) = mset (concat (map (getOr G) ks))"
    unfolding o(2) by (rule mset_concat_cong) (rule op(2))
  also have "\<dots> = mset (concat (map (\<lambda>k. filter (\<lambda>b. layerOr0 lay (b_id b) = k) (blocks cfg)) ks))"
    by (rule mset_concat_cong) (simp add: gp(3))
  also have "\<dots> = mset (blocks cfg)"
    by (rule mset_by_key[OF dks]) (simp add: sks gp(2))
  finally have m: "mset (map lb_block out) = mset (blocks cfg)" .
  have rowOk: "lb_row lb = layerOr0 (layerOf cfg) (b_id (lb_block lb))" if "lb \<in> set out" for lb
  proof -
    from o(3) that have "lb_block lb \<in> set (getOr L (lb_row lb))" by blast
    then have "lb_block lb \<in># mset (getOr L (lb_row lb))" by simp
    then have "lb_block lb \<in> set (getOr G (lb_row lb))" unfolding op(2) by simp
    then show ?thesis by (simp add: gp(3) lay)
  qed
  show ?thesis using eq m o(3,4) rowOk by blast
qed

section \<open>The layout of a graph\<close>

lemma sorted_wrt_apart_nth:
  assumes "sorted_wrt apart out" "i < j" "j < length out" "lb_row (out ! i) = lb_row (out ! j)"
  shows "lb_x (out ! i) + lb_width (out ! i) + BLOCK_GAP_X \<le> lb_x (out ! j)"
  using sorted_wrt_nth_less[OF assms(1-3)] assms(4) by (simp add: apart_def)

definition sampleMeasure :: "string \<Rightarrow> string \<Rightarrow> real" where
  "sampleMeasure s font = 12 * real (length s)"

text \<open>
  Claim C9.  The layout has exactly one layout block per block of the graph (as a
  multiset, hence also the same number of them).  Every layout block carries the
  dimensions of its block, its width lies between the minimum and the maximum width,
  its height is positive, and its row is the layer of its block.  Two layout blocks
  at different positions of the result with the same row do not overlap on the x
  axis: one of them ends before the other starts.  A graph without blocks has the empty layout.
\<close>

theorem layout_blocks:
  "mset (map lb_block (layoutCfg measureText cfg)) = mset (blocks cfg) \<and>
   length (layoutCfg measureText cfg) = length (blocks cfg) \<and>
   (\<forall>lb \<in> set (layoutCfg measureText cfg).
      (lb_width lb, lb_height lb) = getBlockDimensions measureText (lb_block lb) \<and>
      BLOCK_MIN_W \<le> lb_width lb \<and> lb_width lb \<le> BLOCK_MAX_W \<and> 0 < lb_height lb \<and>
      lb_row lb = layerOr0 (layerOf cfg) (b_id (lb_block lb))) \<and>
   (\<forall>i j. i < length (layoutCfg measureText cfg) \<longrightarrow> j < length (layoutCfg measureText cfg) \<longrightarrow>
      i \<noteq> j \<longrightarrow>
      lb_row (layoutCfg measureText cfg ! i) = lb_row (layoutCfg measureText cfg ! j) \<longrightarrow>
      lb_x (layoutCfg measureText cfg ! i) + lb_width (layoutCfg measureText cfg ! i)
        \<le> lb_x (layoutCfg measureText cfg ! j) \<or>
      lb_x (layoutCfg measureText cfg ! j) + lb_width (layoutCfg measureText cfg ! j)
        \<le> lb_x (layoutCfg measureText cfg ! i)) \<and>
   (blocks cfg = [] \<longrightarrow> layoutCfg measureText cfg = [])"
proof (cases "blocks cfg = []")
  case True
  then show ?thesis by (simp add: layoutCfg_def)
next
  case False
  define res where "res = layoutCfg measureText cfg"
  from layoutCfg_shape[OF False, of measureText] obtain out where
    o: "res = normalizeX out" "mset (map lb_block out) = mset (blocks cfg)"
      "\<forall>lb \<in> set out. sized measureText lb \<and>
         lb_row lb = layerOr0 (layerOf cfg) (b_id (lb_block lb))"
      "sorted_wrt apart out"
    unfolding res_def by blast
  have m: "mset (map lb_block res) = mset (blocks cfg)"
    using o(2) by (simp only: o(1) normalizeX_props(1))
  have len: "length res = length (blocks cfg)"
    using arg_cong[OF m, of size] by simp
  have "\<forall>lb \<in> set res.
      (lb_width lb, lb_height lb) = getBlockDimensions measureText (lb_block lb) \<and>
      lb_row lb = layerOr0 (layerOf cfg) (b_id (lb_block lb))"
    unfolding o(1)
    by (rule normalizeX_props(2)[where Q = "\<lambda>b r w h.
          (w, h) = getBlockDimensions measureText b \<and> r = layerOr0 (layerOf cfg) (b_id b)"])
      (use o(3) in \<open>simp add: sized_def\<close>)
  then have each: "\<forall>lb \<in> set res.
      (lb_width lb, lb_height lb) = getBlockDimensions measureText (lb_block lb) \<and>
      BLOCK_MIN_W \<le> lb_width lb \<and> lb_width lb \<le> BLOCK_MAX_W \<and> 0 < lb_height lb \<and>
      lb_row lb = layerOr0 (layerOf cfg) (b_id (lb_block lb))"
    using getBlockDimensions_bounds[of measureText]
    by (metis fst_conv snd_conv)
  have s: "sorted_wrt apart res" unfolding o(1) by (rule normalizeX_props(3)[OF o(4)])
  have gap: "0 \<le> BLOCK_GAP_X" by (simp add: BLOCK_GAP_X_def)
  have sep: "lb_x (res ! i) + lb_width (res ! i) \<le> lb_x (res ! j) \<or>
      lb_x (res ! j) + lb_width (res ! j) \<le> lb_x (res ! i)"
    if "i < length res" "j < length res" "i \<noteq> j" "lb_row (res ! i) = lb_row (res ! j)" for i j
  proof (cases "i < j")
    case True
    from sorted_wrt_apart_nth[OF s True that(2,4)] gap show ?thesis by simp
  next
    case False
    then have "j < i" using that(3) by simp
    from sorted_wrt_apart_nth[OF s this that(1) that(4)[symmetric]] gap show ?thesis by simp
  qed
  show ?thesis
    unfolding res_def[symmetric] using m len each sep False by blast
qed

definition sampleLayers :: "(int \<times> CfgBlock list) list" where
  "sampleLayers =
     [(0, [sampleBlock ''cfg_2'' ''entry'' Entry, sampleBlock ''cfg_3'' ''z'' Statement]),
      (2, [sampleBlock ''cfg_0'' ''while (x)'' Loop]),
      (1, [sampleBlock ''cfg_1'' ''y'' Statement])]"

lemma sampleCfg_groups:
  "groupByLayer (layer (assignAll (snd (buildAdjacency sampleCfg)) (blocks sampleCfg)))
     (blocks sampleCfg) = sampleLayers"
  by code_simp

lemma sampleCfg_order:
  "orderLayers P [0, 1, 2] sampleLayers = sampleLayers"
  by (simp add: orderLayers_def sampleLayers_def getOr_def upt_conv_Cons Let_def)

lemma sample_dims:
  "getBlockDimensions sampleMeasure (sampleBlock ''cfg_2'' ''entry'' Entry) = (100, 54)"
  "getBlockDimensions sampleMeasure (sampleBlock ''cfg_3'' ''z'' Statement) = (100, 54)"
  "getBlockDimensions sampleMeasure (sampleBlock ''cfg_1'' ''y'' Statement) = (100, 54)"
  "getBlockDimensions sampleMeasure (sampleBlock ''cfg_0'' ''while (x)'' Loop) = (140, 54)"
  by (simp_all add: getBlockDimensions_def sampleMeasure_def sampleBlock_def mathMax_def
      BLOCK_MAX_W_def BLOCK_MIN_W_def BLOCK_PADDING_X_def BLOCK_PADDING_Y_def)

lemma sampleCfg_layout:
  "layoutCfg sampleMeasure sampleCfg =
     [\<lparr>lb_block = sampleBlock ''cfg_2'' ''entry'' Entry, lb_x = 0, lb_y = 0,
       lb_width = 100, lb_height = 54, lb_column = 0, lb_row = 0\<rparr>,
      \<lparr>lb_block = sampleBlock ''cfg_3'' ''z'' Statement, lb_x = 160, lb_y = 0,
       lb_width = 100, lb_height = 54, lb_column = 1, lb_row = 0\<rparr>,
      \<lparr>lb_block = sampleBlock ''cfg_1'' ''y'' Statement, lb_x = 80, lb_y = 110,
       lb_width = 100, lb_height = 54, lb_column = 0, lb_row = 1\<rparr>,
      \<lparr>lb_block = sampleBlock ''cfg_0'' ''while (x)'' Loop, lb_x = 60, lb_y = 220,
       lb_width = 140, lb_height = 54, lb_column = 0, lb_row = 2\<rparr>]"
proof -
  have b: "blocks sampleCfg \<noteq> []" by (simp add: sampleCfg_def)
  have k: "sort (map fst sampleLayers) = [0, 1, 2]" by (simp add: sampleLayers_def)
  have p: "fold (placeLayer sampleMeasure sampleLayers) [0, 1, 2] ([], 0) =
     ([\<lparr>lb_block = sampleBlock ''cfg_2'' ''entry'' Entry, lb_x = - 130, lb_y = 0,
       lb_width = 100, lb_height = 54, lb_column = 0, lb_row = 0\<rparr>,
      \<lparr>lb_block = sampleBlock ''cfg_3'' ''z'' Statement, lb_x = 30, lb_y = 0,
       lb_width = 100, lb_height = 54, lb_column = 1, lb_row = 0\<rparr>,
      \<lparr>lb_block = sampleBlock ''cfg_1'' ''y'' Statement, lb_x = - 50, lb_y = 110,
       lb_width = 100, lb_height = 54, lb_column = 0, lb_row = 1\<rparr>,
      \<lparr>lb_block = sampleBlock ''cfg_0'' ''while (x)'' Loop, lb_x = - 70, lb_y = 220,
       lb_width = 140, lb_height = 54, lb_column = 0, lb_row = 2\<rparr>], 330)"
    by (simp add: placeLayer_def sampleLayers_def getOr_def sample_dims mathMax_def
        BLOCK_GAP_X_def BLOCK_GAP_Y_def)
  have e: "layoutCfg sampleMeasure sampleCfg =
      normalizeX (fst (fold (placeLayer sampleMeasure sampleLayers) [0, 1, 2] ([], 0)))"
    using b
    by (simp add: layoutCfg_def split_beta Let_def sampleCfg_groups k sampleCfg_order
        del: fold_simps)
  show ?thesis
    unfolding e p by (simp add: normalizeX_def mathMin_def)
qed

theorem layout_blocks_witness:
  "length (layoutCfg sampleMeasure sampleCfg) = 4 \<and>
   mset (map lb_block (layoutCfg sampleMeasure sampleCfg)) = mset (blocks sampleCfg) \<and>
   map (\<lambda>lb. (b_id (lb_block lb), lb_row lb, lb_x lb, lb_width lb, lb_height lb))
     (layoutCfg sampleMeasure sampleCfg) =
     [(''cfg_2'', 0, 0, 100, 54), (''cfg_3'', 0, 160, 100, 54),
      (''cfg_1'', 1, 80, 100, 54), (''cfg_0'', 2, 60, 140, 54)] \<and>
   layerOf sampleCfg ''cfg_2'' = Some 0 \<and> layerOf sampleCfg ''cfg_3'' = Some 0 \<and>
   lb_row (layoutCfg sampleMeasure sampleCfg ! 0) = lb_row (layoutCfg sampleMeasure sampleCfg ! 1) \<and>
   lb_x (layoutCfg sampleMeasure sampleCfg ! 0) + lb_width (layoutCfg sampleMeasure sampleCfg ! 0)
     \<le> lb_x (layoutCfg sampleMeasure sampleCfg ! 1) \<and>
   layoutCfg sampleMeasure \<lparr>blocks = [], edges = edges sampleCfg\<rparr> = []"
proof -
  note t = layout_blocks[of sampleMeasure sampleCfg]
  note e = layout_blocks[of sampleMeasure "\<lparr>blocks = [], edges = edges sampleCfg\<rparr>"]
  have 1: "length (layoutCfg sampleMeasure sampleCfg) = 4"
    using t by (simp add: sampleCfg_def)
  have 2: "mset (map lb_block (layoutCfg sampleMeasure sampleCfg)) = mset (blocks sampleCfg)"
    using t by blast
  have 3: "layoutCfg sampleMeasure \<lparr>blocks = [], edges = edges sampleCfg\<rparr> = []"
    using e by simp
  show ?thesis
    using 1 2 3 sampleCfg_layers by (simp add: sampleCfg_layout sampleBlock_def)
qed

section \<open>Back edges\<close>






lemma backEdgeKey_inj:
  assumes "CHR ''>'' \<notin> set (e_from e)" "CHR ''>'' \<notin> set (e_from e')"
    "backEdgeKey e = backEdgeKey e'"
  shows "e_from e = e_from e' \<and> e_to e = e_to e'"
proof -
  have "(e_from e @ ''-'') @ CHR ''>'' # e_to e = (e_from e' @ ''-'') @ CHR ''>'' # e_to e'"
    using assms(3) by (simp add: backEdgeKey_def)
  from append_sep_inj[OF _ _ this] assms(1,2) show ?thesis by simp
qed











section \<open>Nodes the builder visits\<close>

text \<open>
  \<open>descends m b\<close>: \<open>buildNode\<close> on \<open>m\<close> calls \<open>buildChildren\<close> on \<open>b\<close> (the body or
  the else part of a branch node, the body of a loop or of a function, an arm of a
  match, or a container itself).  \<open>reaches b n\<close>: \<open>buildChildren\<close> on \<open>b\<close> leads to a
  call of \<open>buildNode\<close> on \<open>n\<close>, for a named child of \<open>b\<close> or below one.
\<close>

definition descends :: "AstNode \<Rightarrow> AstNode \<Rightarrow> bool" where
  "descends m b \<longleftrightarrow>
     (kind m \<in> IF_TYPES \<and> (findBody m = Some b \<or> findElse m = Some b)) \<or>
     (kind m \<in> LOOP_TYPES \<and> findBody m = Some b) \<or>
     (kind m \<in> MATCH_TYPES \<and> b \<in> set (findArms m)) \<or>
     (kind m \<in> FUNCTION_TYPES \<and> findBody m = Some b) \<or>
     (\<not> isControl (kind m) \<and> (kind m \<in> CONTAINER_TYPES \<or> isContainerLike m) \<and> b = m)"

inductive reaches :: "AstNode \<Rightarrow> AstNode \<Rightarrow> bool" where
  child: "c \<in> set (children b) \<Longrightarrow> isNamed c \<Longrightarrow> reaches b c"
| below: "c \<in> set (children b) \<Longrightarrow> isNamed c \<Longrightarrow> descends c b' \<Longrightarrow> reaches b' n \<Longrightarrow> reaches b n"

section \<open>A build inside a build\<close>

text \<open>
  The build from \<open>c\<close> to \<open>c'\<close> contains the build from \<open>c0\<close> to \<open>cn\<close>, whose result
  has the exits \<open>X\<close>: an edge added before the inner build starts at an older block
  (\<open>oldSrc\<close>); an edge added after the inner build starts at one of its blocks
  only if that block is one of its exits, and then carries no label or the label
  \<open>next\<close>; an exit of the outer result that is a block of the inner build is an exit
  of the inner build.
\<close>

definition exitsOf :: "BuildResult option \<Rightarrow> string set" where
  "exitsOf res = (case res of None \<Rightarrow> {} | Some r \<Rightarrow> set (r_exits r))"

definition glueOk :: "BuildCtx \<Rightarrow> BuildCtx \<Rightarrow> string set \<Rightarrow> string \<Rightarrow> string option \<Rightarrow> bool" where
  "glueOk c0 cn X f l \<longleftrightarrow>
     (f \<in> freshIds c0 cn \<longrightarrow> f \<in> X \<and> (l = None \<or> l = Some ''next''))"

definition oldSrc :: "BuildCtx \<Rightarrow> BuildCtx \<Rightarrow> bool" where
  "oldSrc a b \<longleftrightarrow>
     blocksExt a b \<and> (\<forall>e \<in> set (newEdges a b). e_from e \<in> makeId ` {..<nextBlockId b})"

definition encloses ::
  "BuildCtx \<Rightarrow> BuildCtx \<Rightarrow> string set \<Rightarrow> BuildCtx \<Rightarrow> BuildCtx \<Rightarrow> string set \<Rightarrow> bool" where
  "encloses c0 cn X c c' E \<longleftrightarrow>
     oldSrc c c0 \<and> blocksExt cn c' \<and>
     (\<forall>e \<in> set (newEdges cn c'). glueOk c0 cn X (e_from e) (e_label e)) \<and>
     (\<forall>x \<in> E. x \<in> freshIds c0 cn \<longrightarrow> x \<in> X)"

definition passes :: "AstNode \<Rightarrow> string \<Rightarrow> BuildCtx \<Rightarrow> BuildResult option \<times> BuildCtx \<Rightarrow> bool" where
  "passes n code c rc \<longleftrightarrow>
     (\<exists>c0 p0. encloses c0 (snd (buildNode c0 n p0 code)) (exitsOf (fst (buildNode c0 n p0 code)))
                 c (snd rc) (exitsOf (fst rc)))"

lemma exitsOf_simps [simp]:
  "exitsOf None = {}" "exitsOf (Some r) = set (r_exits r)"
  by (simp_all add: exitsOf_def)

lemma fresh_old:
  assumes "x \<in> makeId ` {..<k}" "k \<le> nextBlockId c0"
  shows "x \<notin> freshIds c0 cn"
  using assms by (auto simp: freshIds_def)

lemma fresh_new:
  assumes "x \<in> freshIds a b" "nextBlockId cn \<le> nextBlockId a"
  shows "x \<notin> freshIds c0 cn"
  using assms by (auto simp: freshIds_def)

lemma blocksExt_next: "blocksExt c c' \<Longrightarrow> nextBlockId c \<le> nextBlockId c'"
  by (simp add: blocksExt_def)

lemma id_old_mono: "x \<in> makeId ` {..<j} \<Longrightarrow> j \<le> k \<Longrightarrow> x \<in> makeId ` {..<k}"
  by auto

lemma oldSrc_refl [simp]: "oldSrc c c"
  by (simp add: oldSrc_def newEdges_def)

lemma oldSrc_builds: "builds a b \<Longrightarrow> oldSrc a b"
  by (auto simp: oldSrc_def builds_def liveId_def freshIds_def)

lemma oldSrc_trans:
  assumes "oldSrc a b" "oldSrc b c"
  shows "oldSrc a c"
proof -
  have ab: "blocksExt a b" and bc: "blocksExt b c" using assms by (simp_all add: oldSrc_def)
  have "e_from e \<in> makeId ` {..<nextBlockId c}" if "e \<in> set (newEdges a c)" for e
  proof -
    from that consider "e \<in> set (newEdges a b)" | "e \<in> set (newEdges b c)"
      by (auto simp: newEdges_trans[OF ab bc])
    then show ?thesis
    proof cases
      case 1
      then have "e_from e \<in> makeId ` {..<nextBlockId b}" using assms(1) by (simp add: oldSrc_def)
      then show ?thesis using blocksExt_next[OF bc] by (rule id_old_mono)
    next
      case 2
      then show ?thesis using assms(2) by (simp add: oldSrc_def)
    qed
  qed
  then show ?thesis using blocksExt_trans[OF ab bc] by (simp add: oldSrc_def)
qed

lemma oldSrc_edge:
  assumes "oldSrc a b" "f \<in> makeId ` {..<nextBlockId b}"
  shows "oldSrc a (addEdge b f t l)"
proof -
  have ab: "blocksExt a b" using assms(1) by (simp add: oldSrc_def)
  then have "newEdges a (addEdge b f t l) = newEdges a b @ [\<lparr>e_from = f, e_to = t, e_label = l\<rparr>]"
    by (elim blocksExtE) (simp add: newEdges_def)
  then show ?thesis
    using assms addEdge_blocksExt[OF ab] by (auto simp: oldSrc_def)
qed

lemma enc_old:
  assumes "encloses c0 cn X c c' E" "x \<in> makeId ` {..<nextBlockId c}"
  shows "x \<notin> freshIds c0 cn"
  using assms(2) by (rule fresh_old) (use assms(1) in \<open>simp add: encloses_def oldSrc_def blocksExt_next\<close>)

lemma enc_new:
  assumes "encloses c0 cn X c c1 E" "x \<in> freshIds c1 c2"
  shows "x \<notin> freshIds c0 cn"
  using assms(2) by (rule fresh_new) (use assms(1) in \<open>simp add: encloses_def blocksExt_next\<close>)

lemma enc_self: "encloses c0 cn X c0 cn X"
  by (simp add: encloses_def newEdges_def)

lemma enc_pre:
  assumes "encloses c0 cn X c1 c' E" "oldSrc c c1"
  shows "encloses c0 cn X c c' E"
  using assms unfolding encloses_def by (blast intro: oldSrc_trans)

lemma enc_exits:
  assumes "encloses c0 cn X c c' E" "\<forall>x \<in> E'. x \<in> freshIds c0 cn \<longrightarrow> x \<in> X"
  shows "encloses c0 cn X c c' E'"
  using assms unfolding encloses_def by blast

lemma enc_build:
  assumes w: "encloses c0 cn X c c1 E" and b: "builds c1 c2"
  shows "encloses c0 cn X c c2 E"
proof -
  have e1: "blocksExt cn c1" using w by (simp add: encloses_def)
  have e2: "blocksExt c1 c2" using b by (rule builds_blocksExt)
  have "glueOk c0 cn X (e_from e) (e_label e)" if "e \<in> set (newEdges cn c2)" for e
  proof -
    from that consider "e \<in> set (newEdges cn c1)" | "e \<in> set (newEdges c1 c2)"
      by (auto simp: newEdges_trans[OF e1 e2])
    then show ?thesis
    proof cases
      case 1
      then show ?thesis using w by (simp add: encloses_def)
    next
      case 2
      then have "e_from e \<in> freshIds c1 c2" using b by (simp add: builds_def liveId_def)
      from enc_new[OF w this] show ?thesis by (simp add: glueOk_def)
    qed
  qed
  then show ?thesis
    using w blocksExt_trans[OF e1 e2] unfolding encloses_def by blast
qed

lemma enc_edge:
  assumes w: "encloses c0 cn X c c1 E" and g: "glueOk c0 cn X f l"
  shows "encloses c0 cn X c (addEdge c1 f t l) E"
proof -
  have e1: "blocksExt cn c1" using w by (simp add: encloses_def)
  then have "newEdges cn (addEdge c1 f t l) = newEdges cn c1 @ [\<lparr>e_from = f, e_to = t, e_label = l\<rparr>]"
    by (elim blocksExtE) (simp add: newEdges_def)
  then show ?thesis
    using w g addEdge_blocksExt[OF e1] unfolding encloses_def by auto
qed

lemma enc_edgesFrom:
  assumes "encloses c0 cn X c c1 E" "\<forall>x \<in> set xs. glueOk c0 cn X x l"
  shows "encloses c0 cn X c (addEdgesFrom c1 xs t l) E"
  using assms
proof (induction xs arbitrary: c1)
  case Nil
  then show ?case by simp
next
  case (Cons x xs)
  have "encloses c0 cn X c (addEdge c1 x t l) E"
    using Cons.prems by (intro enc_edge) simp_all
  then show ?case using Cons.prems by (simp add: Cons.IH)
qed

lemma enc_chain:
  assumes w: "encloses c0 cn X c c1 E"
    and rs: "\<forall>r \<in> set rs. \<forall>x \<in> set (r_exits r). glueOk c0 cn X x None"
  shows "encloses c0 cn X c (chainResults c1 rs) E"
proof -
  have "encloses c0 cn X c
      (fold (\<lambda>i c. addEdgesFrom c (r_exits (rs ! (i - 1))) (r_entry (rs ! i)) None) is d) E"
    if "\<forall>i \<in> set is. 0 < i \<and> i < length rs" "encloses c0 cn X c d E" for "is" d
    using that
  proof (induction "is" arbitrary: d)
    case Nil
    then show ?case by simp
  next
    case (Cons i "is")
    have "0 < i" "i < length rs" using Cons.prems(1) by simp_all
    then have "rs ! (i - 1) \<in> set rs" by simp
    then have "\<forall>x \<in> set (r_exits (rs ! (i - 1))). glueOk c0 cn X x None" using rs by blast
    with Cons.prems(2)
    have "encloses c0 cn X c (addEdgesFrom d (r_exits (rs ! (i - 1))) (r_entry (rs ! i)) None) E"
      by (rule enc_edgesFrom)
    moreover have "\<forall>i \<in> set is. 0 < i \<and> i < length rs" using Cons.prems(1) by simp
    ultimately have "encloses c0 cn X c
      (fold (\<lambda>i c. addEdgesFrom c (r_exits (rs ! (i - 1))) (r_entry (rs ! i)) None) is
        (addEdgesFrom d (r_exits (rs ! (i - 1))) (r_entry (rs ! i)) None)) E"
      by (intro Cons.IH)
    then show ?case by simp
  qed
  from this[of "[1..<length rs]" c1] w show ?thesis by (simp add: chainResults_def)
qed

lemma glueOk_notin: "f \<notin> freshIds c0 cn \<Longrightarrow> glueOk c0 cn X f l"
  by (simp add: glueOk_def)

lemma glueOk_exit:
  "encloses c0 cn X c c' E \<Longrightarrow> x \<in> E \<Longrightarrow> l = None \<or> l = Some ''next'' \<Longrightarrow> glueOk c0 cn X x l"
  by (auto simp: encloses_def glueOk_def)

lemma passes_self: "passes n code c (buildNode c n p code)"
  unfolding passes_def using enc_self by blast

section \<open>The build of a visited node\<close>

lemma passes_pair:
  "passes n code c (res, c') \<longleftrightarrow>
     (\<exists>c0 p0. encloses c0 (snd (buildNode c0 n p0 code)) (exitsOf (fst (buildNode c0 n p0 code)))
                 c c' (exitsOf res))"
  by (simp add: passes_def)

lemma own_old:
  assumes "makeBlock c l k m p s = (b, c1)" "nextBlockId c1 \<le> j"
  shows "b_id b \<in> makeId ` {..<j}"
  using assms(2) by (intro image_eqI[where x = "nextBlockId c"]) (simp_all add: makeBlock_props[OF assms(1)])

lemma live_old:
  assumes "liveId a b x" "nextBlockId b \<le> j"
  shows "x \<in> makeId ` {..<j}"
  using assms by (auto simp: liveId_def freshIds_def)

lemma enc_opt_edge:
  assumes "encloses c0 cn X c c2 E" "f \<notin> freshIds c0 cn"
  shows "encloses c0 cn X c (case tr of Some r \<Rightarrow> addEdge c2 f (g r) l | None \<Rightarrow> c2) E"
  using assms(1) enc_edge[OF assms(1) glueOk_notin[OF assms(2)]] by (cases tr) simp_all

lemma passes_LOOP:
  assumes k: "kind m \<in> LOOP_TYPES" and fb: "findBody m = Some b"
    and IH: "\<And>c q. passes n code c (buildChildren c b q code)"
  shows "passes n code ctx (buildNode ctx m p code)"
proof -
  obtain lb c1 where mb:
    "makeBlock ctx (loopLabel m code) Loop m p [loopLabel m code] = (lb, c1)" by fastforce
  obtain br c2 where t0: "buildChildren c1 b p code = (br, c2)" by fastforce
  have t: "(case findBody m of Some b \<Rightarrow> buildChildren c1 b p code | None \<Rightarrow> (None, c1)) = (br, c2)"
    by (simp add: fb t0)
  note eq = buildNode_LOOP[OF k mb t]
  from IH[of c1 p] obtain c0 p0 where
    w: "encloses c0 (snd (buildNode c0 n p0 code)) (exitsOf (fst (buildNode c0 n p0 code)))
          c1 c2 (exitsOf br)"
    unfolding t0 passes_pair by blast
  let ?cn = "snd (buildNode c0 n p0 code)" and ?X = "exitsOf (fst (buildNode c0 n p0 code))"
  have own: "b_id lb \<notin> freshIds c0 ?cn"
    by (rule enc_old[OF w]) (rule own_old[OF mb], simp)
  have w1: "encloses c0 ?cn ?X ctx c2 (exitsOf br)"
    using w oldSrc_builds[OF makeBlock_builds[OF mb]] by (rule enc_pre)
  show ?thesis
  proof (cases br)
    case None
    have "encloses c0 ?cn ?X ctx c2 {b_id lb}" using w1 by (rule enc_exits) (simp add: own)
    then show ?thesis by (auto simp: eq None passes_pair)
  next
    case (Some r)
    have 1: "encloses c0 ?cn ?X ctx (addEdge c2 (b_id lb) (r_entry r) (Some ''body'')) (exitsOf br)"
      using w1 glueOk_notin[OF own] by (rule enc_edge)
    have "\<forall>x \<in> set (r_exits r). glueOk c0 ?cn ?X x (Some ''next'')"
      using glueOk_exit[OF w] Some by simp
    with 1 have "encloses c0 ?cn ?X ctx
        (addEdgesFrom (addEdge c2 (b_id lb) (r_entry r) (Some ''body'')) (r_exits r) (b_id lb)
           (Some ''next'')) (exitsOf br)"
      by (rule enc_edgesFrom)
    then have "encloses c0 ?cn ?X ctx
        (addEdgesFrom (addEdge c2 (b_id lb) (r_entry r) (Some ''body'')) (r_exits r) (b_id lb)
           (Some ''next'')) {b_id lb}"
      by (rule enc_exits) (simp add: own)
    then show ?thesis by (auto simp: eq Some passes_pair)
  qed
qed

lemma passes_FUNCTION:
  assumes k: "kind m \<in> FUNCTION_TYPES" and fb: "findBody m = Some b"
    and IH: "\<And>c q. passes n code c (buildChildren c b q code)"
  shows "passes n code ctx (buildNode ctx m p code)"
proof -
  obtain eb c1 where mb:
    "makeBlock ctx (fnLabel m code) Entry m p [fnLabel m code] = (eb, c1)" by fastforce
  obtain br c2 where t0: "buildChildren c1 b p code = (br, c2)" by fastforce
  have t: "(case findBody m of Some b \<Rightarrow> buildChildren c1 b p code | None \<Rightarrow> (None, c1)) = (br, c2)"
    by (simp add: fb t0)
  obtain xb c4 where mx:
    "makeBlock (addEdge c2 (b_id eb) (r_entry (the br)) None) ''end'' Exit m p [''end''] = (xb, c4)"
    by fastforce
  note eq = buildNode_FUNCTION[OF k mb t mx]
  from IH[of c1 p] obtain c0 p0 where
    w: "encloses c0 (snd (buildNode c0 n p0 code)) (exitsOf (fst (buildNode c0 n p0 code)))
          c1 c2 (exitsOf br)"
    unfolding t0 passes_pair by blast
  let ?cn = "snd (buildNode c0 n p0 code)" and ?X = "exitsOf (fst (buildNode c0 n p0 code))"
  have own: "b_id eb \<notin> freshIds c0 ?cn"
    by (rule enc_old[OF w]) (rule own_old[OF mb], simp)
  have w1: "encloses c0 ?cn ?X ctx c2 (exitsOf br)"
    using w oldSrc_builds[OF makeBlock_builds[OF mb]] by (rule enc_pre)
  show ?thesis
  proof (cases br)
    case None
    have "encloses c0 ?cn ?X ctx c2 {b_id eb}" using w1 by (rule enc_exits) (simp add: own)
    then show ?thesis by (auto simp: eq None passes_pair)
  next
    case (Some r)
    have 1: "encloses c0 ?cn ?X ctx (addEdge c2 (b_id eb) (r_entry (the br)) None) (exitsOf br)"
      using w1 glueOk_notin[OF own] by (rule enc_edge)
    from 1 makeBlock_builds[OF mx] have 2: "encloses c0 ?cn ?X ctx c4 (exitsOf br)"
      by (rule enc_build)
    have "\<forall>x \<in> set (r_exits r). glueOk c0 ?cn ?X x None"
      using glueOk_exit[OF w] Some by simp
    with 2 have 3: "encloses c0 ?cn ?X ctx (addEdgesFrom c4 (r_exits r) (b_id xb) None) (exitsOf br)"
      by (rule enc_edgesFrom)
    have "b_id xb \<notin> freshIds c0 ?cn"
      using 1 makeBlock_fresh[OF mx] by (rule enc_new)
    with 3 have "encloses c0 ?cn ?X ctx (addEdgesFrom c4 (r_exits r) (b_id xb) None) {b_id xb}"
      by (intro enc_exits[OF 3]) simp
    then show ?thesis by (auto simp: eq Some passes_pair)
  qed
qed

lemma passes_IF_body:
  assumes k: "kind m \<in> IF_TYPES" and fb: "findBody m = Some b"
    and IH: "\<And>c q. passes n code c (buildChildren c b q code)"
  shows "passes n code ctx (buildNode ctx m p code)"
proof -
  obtain bb c1 where mb:
    "makeBlock ctx (condLabel m code) Branch m p [condLabel m code] = (bb, c1)" by fastforce
  obtain tr c2 where t0: "buildChildren c1 b p code = (tr, c2)" by fastforce
  have t: "(case findBody m of Some b \<Rightarrow> buildChildren c1 b p code | None \<Rightarrow> (None, c1)) = (tr, c2)"
    by (simp add: fb t0)
  define c3 where
    "c3 = (case tr of Some r \<Rightarrow> addEdge c2 (b_id bb) (r_entry r) (Some ''true'') | None \<Rightarrow> c2)"
  obtain fr c4 where f:
    "(case findElse m of Some e \<Rightarrow> buildChildren c3 e p code | None \<Rightarrow> (None, c3)) = (fr, c4)"
    by fastforce
  define c5 where
    "c5 = (case fr of Some r \<Rightarrow> addEdge c4 (b_id bb) (r_entry r) (Some ''false'') | None \<Rightarrow> c4)"
  note eq = buildNode_IF[OF k mb t c3_def f c5_def]
  from IH[of c1 p] obtain c0 p0 where
    w: "encloses c0 (snd (buildNode c0 n p0 code)) (exitsOf (fst (buildNode c0 n p0 code)))
          c1 c2 (exitsOf tr)"
    unfolding t0 passes_pair by blast
  let ?cn = "snd (buildNode c0 n p0 code)" and ?X = "exitsOf (fst (buildNode c0 n p0 code))"
  have own: "b_id bb \<notin> freshIds c0 ?cn"
    by (rule enc_old[OF w]) (rule own_old[OF mb], simp)
  have w1: "encloses c0 ?cn ?X ctx c2 (exitsOf tr)"
    using w oldSrc_builds[OF makeBlock_builds[OF mb]] by (rule enc_pre)
  have w3: "encloses c0 ?cn ?X ctx c3 (exitsOf tr)"
    unfolding c3_def using w1 own by (rule enc_opt_edge)
  have b34: "builds c3 c4" and p34: "resPost c3 c4 fr"
    using bodySpec[where f = findElse, OF _ f] nodeSpec_all by blast+
  have w4: "encloses c0 ?cn ?X ctx c4 (exitsOf tr)" using w3 b34 by (rule enc_build)
  have w5: "encloses c0 ?cn ?X ctx c5 (exitsOf tr)"
    unfolding c5_def using w4 own by (rule enc_opt_edge)
  have fr: "x \<notin> freshIds c0 ?cn" if "fr = Some r" "x \<in> set (r_exits r)" for r x
  proof -
    from p34 that have "x \<in> freshIds c3 c4" by (simp add: resPost_def liveId_def)
    with w3 show ?thesis by (rule enc_new)
  qed
  have tr: "x \<in> ?X" if "tr = Some r" "x \<in> set (r_exits r)" "x \<in> freshIds c0 ?cn" for r x
    using w that by (simp add: encloses_def)
  have "encloses c0 ?cn ?X ctx c5
      (exitsOf (Some \<lparr>r_entry = b_id bb,
         r_exits = (case tr of Some r \<Rightarrow> r_exits r | None \<Rightarrow> [b_id bb]) @
            (case fr of Some r \<Rightarrow> r_exits r
             | None \<Rightarrow> if findElse m = None then [b_id bb] else [])\<rparr>))"
    using w5 by (rule enc_exits) (use own fr tr in \<open>auto split: option.splits if_splits\<close>)
  then show ?thesis unfolding eq passes_pair by blast
qed

lemma passes_IF_else:
  assumes k: "kind m \<in> IF_TYPES" and fe: "findElse m = Some b"
    and IH: "\<And>c q. passes n code c (buildChildren c b q code)"
  shows "passes n code ctx (buildNode ctx m p code)"
proof -
  obtain bb c1 where mb:
    "makeBlock ctx (condLabel m code) Branch m p [condLabel m code] = (bb, c1)" by fastforce
  obtain tr c2 where t:
    "(case findBody m of Some b \<Rightarrow> buildChildren c1 b p code | None \<Rightarrow> (None, c1)) = (tr, c2)"
    by fastforce
  define c3 where
    "c3 = (case tr of Some r \<Rightarrow> addEdge c2 (b_id bb) (r_entry r) (Some ''true'') | None \<Rightarrow> c2)"
  obtain fr c4 where f0: "buildChildren c3 b p code = (fr, c4)" by fastforce
  have f: "(case findElse m of Some e \<Rightarrow> buildChildren c3 e p code | None \<Rightarrow> (None, c3)) = (fr, c4)"
    by (simp add: fe f0)
  define c5 where
    "c5 = (case fr of Some r \<Rightarrow> addEdge c4 (b_id bb) (r_entry r) (Some ''false'') | None \<Rightarrow> c4)"
  note eq = buildNode_IF[OF k mb t c3_def f c5_def]
  from IH[of c3 p] obtain c0 p0 where
    w: "encloses c0 (snd (buildNode c0 n p0 code)) (exitsOf (fst (buildNode c0 n p0 code)))
          c3 c4 (exitsOf fr)"
    unfolding f0 passes_pair by blast
  let ?cn = "snd (buildNode c0 n p0 code)" and ?X = "exitsOf (fst (buildNode c0 n p0 code))"
  have b12: "builds c1 c2" and p12: "resPost c1 c2 tr"
    using bodySpec[where f = findBody, OF _ t] nodeSpec_all by blast+
  have n3: "nextBlockId c3 = nextBlockId c2" by (simp add: c3_def split: option.splits)
  have own: "b_id bb \<notin> freshIds c0 ?cn"
    by (rule enc_old[OF w]) (rule own_old[OF mb], simp add: n3 builds_next_le[OF b12])
  have "oldSrc ctx c2"
    using oldSrc_builds[OF makeBlock_builds[OF mb]] oldSrc_builds[OF b12] by (rule oldSrc_trans)
  then have "oldSrc ctx c3"
    unfolding c3_def
    using oldSrc_edge[OF _ own_old[OF mb builds_next_le[OF b12]]] by (cases tr) simp_all
  with w have w1: "encloses c0 ?cn ?X ctx c4 (exitsOf fr)" by (rule enc_pre)
  have w5: "encloses c0 ?cn ?X ctx c5 (exitsOf fr)"
    unfolding c5_def using w1 own by (rule enc_opt_edge)
  have tr: "x \<notin> freshIds c0 ?cn" if "tr = Some r" "x \<in> set (r_exits r)" for r x
  proof -
    from p12 that have "liveId c1 c2 x" by (simp add: resPost_def)
    then have "x \<in> makeId ` {..<nextBlockId c3}" by (rule live_old) (simp add: n3)
    with w show ?thesis by (rule enc_old)
  qed
  have fr: "x \<in> ?X" if "fr = Some r" "x \<in> set (r_exits r)" "x \<in> freshIds c0 ?cn" for r x
    using w that by (simp add: encloses_def)
  have "encloses c0 ?cn ?X ctx c5
      (exitsOf (Some \<lparr>r_entry = b_id bb,
         r_exits = (case tr of Some r \<Rightarrow> r_exits r | None \<Rightarrow> [b_id bb]) @
            (case fr of Some r \<Rightarrow> r_exits r
             | None \<Rightarrow> if findElse m = None then [b_id bb] else [])\<rparr>))"
    using w5 by (rule enc_exits) (use own fr tr in \<open>auto split: option.splits if_splits\<close>)
  then show ?thesis unfolding eq passes_pair by blast
qed

lemma enc_arms_tail:
  assumes "encloses c0 cn X c c2 E0" "mid \<notin> freshIds c0 cn"
    and "\<forall>x \<in> set exits. x \<in> freshIds c0 cn \<longrightarrow> x \<in> X"
    and "buildArms c2 arms i mid p code exits = (exits', ctx')"
  shows "encloses c0 cn X c ctx' (set exits')"
  using assms
proof (induction arms arbitrary: c2 i exits E0)
  case Nil
  then show ?case by (auto intro: enc_exits)
next
  case (Cons arm arms)
  obtain ar c3 where a: "buildChildren c2 arm (p @ ''-arm'' @ decimal i) code = (ar, c3)"
    by fastforce
  have b: "builds c2 c3" and rp: "resPost c2 c3 ar"
    using nodeSpec_all[of c2 arm "p @ ''-arm'' @ decimal i" code] a by (simp_all add: nodeSpec_def)
  have w3: "encloses c0 cn X c c3 E0" using Cons.prems(1) b by (rule enc_build)
  show ?case
  proof (cases ar)
    case None
    with Cons.prems(4) a have "buildArms c3 arms (i + 1) mid p code exits = (exits', ctx')"
      by simp
    from Cons.IH[OF w3 Cons.prems(2,3) this] show ?thesis .
  next
    case (Some r)
    with Cons.prems(4) a have call:
      "buildArms (addEdge c3 mid (r_entry r) (Some (armLabel arm i code))) arms (i + 1) mid p code
         (exits @ r_exits r) = (exits', ctx')"
      by (simp add: Let_def)
    have w4: "encloses c0 cn X c (addEdge c3 mid (r_entry r) (Some (armLabel arm i code))) E0"
      using w3 glueOk_notin[OF Cons.prems(2)] by (rule enc_edge)
    have "x \<notin> freshIds c0 cn" if "x \<in> set (r_exits r)" for x
    proof -
      from rp Some that have "x \<in> freshIds c2 c3" by (simp add: resPost_def liveId_def)
      with Cons.prems(1) show ?thesis by (rule enc_new)
    qed
    then have "\<forall>x \<in> set (exits @ r_exits r). x \<in> freshIds c0 cn \<longrightarrow> x \<in> X"
      using Cons.prems(3) by auto
    from Cons.IH[OF w4 Cons.prems(2) this call] show ?thesis .
  qed
qed

lemma enc_arms:
  assumes IH: "\<And>c q. passes n code c (buildChildren c b q code)"
    and "b \<in> set arms"
    and "buildArms ctx arms i mid p code exits = (exits', ctx')"
    and "mid \<in> makeId ` {..<nextBlockId ctx}"
    and "set exits \<subseteq> makeId ` {..<nextBlockId ctx}"
  shows "\<exists>c0 p0. encloses c0 (snd (buildNode c0 n p0 code)) (exitsOf (fst (buildNode c0 n p0 code)))
           ctx ctx' (set exits')"
  using assms(2-)
proof (induction arms arbitrary: ctx i exits)
  case Nil
  then show ?case by simp
next
  case (Cons arm arms)
  obtain ar c1 where a: "buildChildren ctx arm (p @ ''-arm'' @ decimal i) code = (ar, c1)"
    by fastforce
  have b: "builds ctx c1" and rp: "resPost ctx c1 ar"
    using nodeSpec_all[of ctx arm "p @ ''-arm'' @ decimal i" code] a by (simp_all add: nodeSpec_def)
  define c2 where
    "c2 = (case ar of Some r \<Rightarrow> addEdge c1 mid (r_entry r) (Some (armLabel arm i code)) | None \<Rightarrow> c1)"
  define exits2 where "exits2 = (case ar of Some r \<Rightarrow> exits @ r_exits r | None \<Rightarrow> exits)"
  have call: "buildArms c2 arms (i + 1) mid p code exits2 = (exits', ctx')"
    using Cons.prems(2) a by (simp add: c2_def exits2_def Let_def split: option.splits)
  have n2: "nextBlockId c2 = nextBlockId c1" by (simp add: c2_def split: option.splits)
  show ?case
  proof (cases "arm = b")
    case True
    from IH[of ctx "p @ ''-arm'' @ decimal i"] obtain c0 p0 where
      w: "encloses c0 (snd (buildNode c0 n p0 code)) (exitsOf (fst (buildNode c0 n p0 code)))
            ctx c1 (exitsOf ar)"
      unfolding True[symmetric] a passes_pair by blast
    let ?cn = "snd (buildNode c0 n p0 code)" and ?X = "exitsOf (fst (buildNode c0 n p0 code))"
    have mid: "mid \<notin> freshIds c0 ?cn" using w Cons.prems(3) by (rule enc_old)
    have w2: "encloses c0 ?cn ?X ctx c2 (exitsOf ar)"
      unfolding c2_def using w mid by (rule enc_opt_edge)
    have old: "x \<notin> freshIds c0 ?cn" if "x \<in> set exits" for x
      using w Cons.prems(4) that by (intro enc_old[OF w]) auto
    have "\<forall>x \<in> set exits2. x \<in> freshIds c0 ?cn \<longrightarrow> x \<in> ?X"
      using old w by (auto simp: exits2_def encloses_def split: option.splits)
    from enc_arms_tail[OF w2 mid this call] show ?thesis by blast
  next
    case False
    with Cons.prems(1) have mem: "b \<in> set arms" by simp
    have le: "nextBlockId ctx \<le> nextBlockId c2" using builds_next_le[OF b] by (simp add: n2)
    have mid2: "mid \<in> makeId ` {..<nextBlockId c2}" using Cons.prems(3) le by (rule id_old_mono)
    have "x \<in> makeId ` {..<nextBlockId c2}" if "x \<in> set exits2" for x
    proof (cases "x \<in> set exits")
      case True
      then have "x \<in> makeId ` {..<nextBlockId ctx}" using Cons.prems(4) by auto
      then show ?thesis using le by (rule id_old_mono)
    next
      case False
      with that obtain r where "ar = Some r" "x \<in> set (r_exits r)"
        by (auto simp: exits2_def split: option.splits)
      with rp have "liveId ctx c1 x" by (simp add: resPost_def)
      then show ?thesis by (rule live_old) (simp add: n2)
    qed
    then have ex2: "set exits2 \<subseteq> makeId ` {..<nextBlockId c2}" by blast
    from Cons.IH[OF mem call mid2 ex2] obtain c0 p0 where
      w: "encloses c0 (snd (buildNode c0 n p0 code)) (exitsOf (fst (buildNode c0 n p0 code)))
            c2 ctx' (set exits')"
      by blast
    have "oldSrc ctx c2"
      unfolding c2_def
      using oldSrc_builds[OF b] oldSrc_edge[OF oldSrc_builds[OF b] id_old_mono[OF Cons.prems(3) builds_next_le[OF b]]]
      by (cases ar) simp_all
    with w show ?thesis by (blast intro: enc_pre)
  qed
qed

lemma passes_MATCH:
  assumes k: "kind m \<in> MATCH_TYPES" and arm: "b \<in> set (findArms m)"
    and IH: "\<And>c q. passes n code c (buildChildren c b q code)"
  shows "passes n code ctx (buildNode ctx m p code)"
proof -
  obtain mb c1 where m: "makeBlock ctx ''match'' Match m p [summary m code 32] = (mb, c1)"
    by fastforce
  obtain exits c2 where a: "buildArms c1 (findArms m) 0 (b_id mb) p code [] = (exits, c2)"
    by fastforce
  note eq = buildNode_MATCH[OF k m a]
  from enc_arms[OF IH arm a own_old[OF m]] obtain c0 p0 where
    w: "encloses c0 (snd (buildNode c0 n p0 code)) (exitsOf (fst (buildNode c0 n p0 code)))
          c1 c2 (set exits)"
    by auto
  let ?cn = "snd (buildNode c0 n p0 code)" and ?X = "exitsOf (fst (buildNode c0 n p0 code))"
  have own: "b_id mb \<notin> freshIds c0 ?cn"
    by (rule enc_old[OF w]) (rule own_old[OF m], simp)
  have w1: "encloses c0 ?cn ?X ctx c2 (set exits)"
    using w oldSrc_builds[OF makeBlock_builds[OF m]] by (rule enc_pre)
  have "encloses c0 ?cn ?X ctx c2
      (exitsOf (Some \<lparr>r_entry = b_id mb, r_exits = (if exits = [] then [b_id mb] else exits)\<rparr>))"
    using w1 by (rule enc_exits) (use own w in \<open>auto simp: encloses_def\<close>)
  then show ?thesis unfolding eq passes_pair by blast
qed

lemma passes_container:
  assumes "\<not> isControl (kind m)" "kind m \<in> CONTAINER_TYPES \<or> isContainerLike m"
    and IH: "\<And>c q. passes n code c (buildChildren c m q code)"
  shows "passes n code ctx (buildNode ctx m p code)"
  unfolding buildNode_container[OF assms(1,2)] by (rule IH)

lemma passes_descends:
  assumes "descends m b" and IH: "\<And>c q. passes n code c (buildChildren c b q code)"
  shows "passes n code ctx (buildNode ctx m p code)"
proof -
  from assms(1) consider
      "kind m \<in> IF_TYPES" "findBody m = Some b"
    | "kind m \<in> IF_TYPES" "findElse m = Some b"
    | "kind m \<in> LOOP_TYPES" "findBody m = Some b"
    | "kind m \<in> MATCH_TYPES" "b \<in> set (findArms m)"
    | "kind m \<in> FUNCTION_TYPES" "findBody m = Some b"
    | "\<not> isControl (kind m)" "kind m \<in> CONTAINER_TYPES \<or> isContainerLike m" "b = m"
    unfolding descends_def by blast
  then show ?thesis
  proof cases
    case 1 then show ?thesis using IH by (rule passes_IF_body)
  next
    case 2 then show ?thesis using IH by (rule passes_IF_else)
  next
    case 3 then show ?thesis using IH by (rule passes_LOOP)
  next
    case 4 then show ?thesis using IH by (rule passes_MATCH)
  next
    case 5 then show ?thesis using IH by (rule passes_FUNCTION)
  next
    case 6 then show ?thesis using IH by (intro passes_container) simp_all
  qed
qed

lemma enc_each:
  assumes H: "\<And>c q. passes n code c (buildNode c ch q code)"
    and "ch \<in> fst ` set cs"
    and "buildEach ctx cs p code rs = (rs', ctx')"
    and "\<forall>r \<in> set rs. set (r_exits r) \<subseteq> makeId ` {..<nextBlockId ctx}"
  shows "\<exists>c0 p0. encloses c0 (snd (buildNode c0 n p0 code)) (exitsOf (fst (buildNode c0 n p0 code)))
           ctx ctx' (\<Union>r \<in> set rs'. set (r_exits r))"
  using assms(2-)
proof (induction cs arbitrary: ctx rs)
  case Nil
  then show ?case by simp
next
  case (Cons ci cs)
  obtain child idx where ci: "ci = (child, idx)" by (cases ci)
  obtain res c1 where a: "buildNode ctx child (p @ ''-'' @ decimal idx) code = (res, c1)"
    by fastforce
  have b: "builds ctx c1" and rp: "resPost ctx c1 res"
    using nodeSpec_all[of ctx child "p @ ''-'' @ decimal idx" code] a by (simp_all add: nodeSpec_def)
  define rs1 where "rs1 = (case res of Some r \<Rightarrow> rs @ [r] | None \<Rightarrow> rs)"
  have call: "buildEach c1 cs p code rs1 = (rs', ctx')"
    using Cons.prems(2) a ci by (simp add: rs1_def)
  have spec: "\<And>child c q. child \<in> fst ` set cs \<Longrightarrow> nodeSpec c (buildNode c child q code)"
    using nodeSpec_all by blast
  show ?case
  proof (cases "child = ch")
    case True
    from H[of ctx "p @ ''-'' @ decimal idx"] obtain c0 p0 where
      w: "encloses c0 (snd (buildNode c0 n p0 code)) (exitsOf (fst (buildNode c0 n p0 code)))
            ctx c1 (exitsOf res)"
      unfolding True[symmetric] a passes_pair by blast
    let ?cn = "snd (buildNode c0 n p0 code)" and ?X = "exitsOf (fst (buildNode c0 n p0 code))"
    from buildEach_spec[OF spec call] obtain new where
      t: "builds c1 ctx'" "rs' = rs1 @ new" "\<forall>r \<in> set new. resOk c1 ctx' r"
      by blast
    have w': "encloses c0 ?cn ?X ctx ctx' (exitsOf res)" using w t(1) by (rule enc_build)
    have "x \<in> ?X" if "r \<in> set rs'" "x \<in> set (r_exits r)" "x \<in> freshIds c0 ?cn" for r x
    proof -
      from that(1) consider "r \<in> set rs" | "res = Some r" | "r \<in> set new"
        unfolding t(2) rs1_def by (auto split: option.splits)
      then show ?thesis
      proof cases
        case 1
        then have "x \<in> makeId ` {..<nextBlockId ctx}" using Cons.prems(3) that(2) by blast
        from enc_old[OF w this] that(3) show ?thesis by simp
      next
        case 2
        then show ?thesis using w that(2,3) by (simp add: encloses_def)
      next
        case 3
        then have "x \<in> freshIds c1 ctx'" using t(3) that(2) by (auto simp: resOk_def liveId_def)
        from enc_new[OF w this] that(3) show ?thesis by simp
      qed
    qed
    then have "encloses c0 ?cn ?X ctx ctx' (\<Union>r \<in> set rs'. set (r_exits r))"
      by (intro enc_exits[OF w']) blast
    then show ?thesis by blast
  next
    case False
    with Cons.prems(1) ci have mem: "ch \<in> fst ` set cs" by auto
    have "x \<in> makeId ` {..<nextBlockId c1}" if "r \<in> set rs1" "x \<in> set (r_exits r)" for r x
    proof (cases "r \<in> set rs")
      case True
      then have "x \<in> makeId ` {..<nextBlockId ctx}" using Cons.prems(3) that(2) by blast
      then show ?thesis using builds_next_le[OF b] by (rule id_old_mono)
    next
      case False
      with that(1) have "res = Some r" by (auto simp: rs1_def split: option.splits)
      with rp that(2) have "liveId ctx c1 x" by (simp add: resPost_def)
      then show ?thesis by (rule live_old) simp
    qed
    then have old: "\<forall>r \<in> set rs1. set (r_exits r) \<subseteq> makeId ` {..<nextBlockId c1}" by blast
    from Cons.IH[OF mem call old] obtain c0 p0 where
      w: "encloses c0 (snd (buildNode c0 n p0 code)) (exitsOf (fst (buildNode c0 n p0 code)))
            c1 ctx' (\<Union>r \<in> set rs'. set (r_exits r))"
      by blast
    from enc_pre[OF w oldSrc_builds[OF b]] show ?thesis by blast
  qed
qed

lemma passes_children:
  assumes c: "c \<in> set (children b)" "isNamed c"
    and H: "\<And>ctx q. passes n code ctx (buildNode ctx c q code)"
  shows "passes n code ctx (buildChildren ctx b p code)"
proof -
  obtain results c1 where a: "buildEach ctx (childIndices b) p code [] = (results, c1)"
    by fastforce
  have ne: "filter isNamed (children b) \<noteq> []" using c by (auto simp: filter_empty_conv)
  from enc_each[OF H childIndices_named[OF c] a] obtain c0 p0 where
    w: "encloses c0 (snd (buildNode c0 n p0 code)) (exitsOf (fst (buildNode c0 n p0 code)))
          ctx c1 (\<Union>r \<in> set results. set (r_exits r))"
    by auto
  let ?cn = "snd (buildNode c0 n p0 code)" and ?X = "exitsOf (fst (buildNode c0 n p0 code))"
  show ?thesis
  proof (cases results)
    case Nil
    have eq: "buildChildren ctx b p code = (None, c1)"
      using a ne Nil by (subst buildChildren.simps) simp
    have "encloses c0 ?cn ?X ctx c1 (exitsOf None)" using w by (rule enc_exits) simp
    then show ?thesis unfolding eq passes_pair by blast
  next
    case (Cons r rs)
    have eq: "buildChildren ctx b p code =
        (Some \<lparr>r_entry = r_entry r, r_exits = r_exits (last results)\<rparr>, chainResults c1 results)"
      using a ne Cons by (subst buildChildren.simps) (simp add: Let_def last_conv_nth)
    have "\<forall>r \<in> set results. \<forall>x \<in> set (r_exits r). glueOk c0 ?cn ?X x None"
      using glueOk_exit[OF w] by blast
    with w have 1: "encloses c0 ?cn ?X ctx (chainResults c1 results) (\<Union>r \<in> set results. set (r_exits r))"
      by (rule enc_chain)
    have "last results \<in> set results" using Cons by simp
    then have "encloses c0 ?cn ?X ctx (chainResults c1 results)
        (exitsOf (Some \<lparr>r_entry = r_entry r, r_exits = r_exits (last results)\<rparr>))"
      using 1 by (intro enc_exits[OF 1]) (auto simp: encloses_def)
    then show ?thesis unfolding eq passes_pair by blast
  qed
qed

text \<open>Every node the builder reaches is built inside the build of the children.\<close>

lemma reaches_passes:
  "reaches b n \<Longrightarrow> passes n code ctx (buildChildren ctx b p code)"
proof (induction arbitrary: ctx p rule: reaches.induct)
  case (child c b)
  show ?case using child.hyps passes_self by (rule passes_children)
next
  case (below c b b' n)
  have "passes n code c0 (buildNode c0 c q code)" for c0 q
    using below.hyps(3) below.IH by (rule passes_descends)
  with below.hyps(1,2) show ?case by (rule passes_children)
qed

text \<open>
  The edges of the outer build that satisfy \<open>Q\<close> are those of the inner build, when
  \<open>Q\<close> holds only of edges that start at a block of the inner build and that no later
  step adds.
\<close>

lemma enc_filter:
  assumes w: "encloses c0 cn X c c' E" and e: "blocksExt c0 cn"
    and Q: "\<And>e. Q e \<Longrightarrow> e_from e \<in> freshIds c0 cn \<and>
              (e_from e \<notin> X \<or> (e_label e \<noteq> None \<and> e_label e \<noteq> Some ''next''))"
  shows "filter Q (newEdges c c') = filter Q (newEdges c0 cn)"
proof -
  have a: "oldSrc c c0" and b: "blocksExt cn c'" using w by (simp_all add: encloses_def)
  then have a': "blocksExt c c0" by (simp add: oldSrc_def)
  have n: "newEdges c c' = newEdges c c0 @ newEdges c0 cn @ newEdges cn c'"
    using newEdges_trans[OF a' blocksExt_trans[OF e b]] newEdges_trans[OF e b] by simp
  have 1: "filter Q (newEdges c c0) = []"
  proof -
    have "\<not> Q x" if "x \<in> set (newEdges c c0)" for x
    proof
      assume "Q x"
      then have "e_from x \<in> freshIds c0 cn" using Q by blast
      moreover have "e_from x \<in> makeId ` {..<nextBlockId c0}" using a that by (simp add: oldSrc_def)
      ultimately show False using fresh_old[of "e_from x" "nextBlockId c0" c0 cn] by simp
    qed
    then show ?thesis by (simp add: filter_empty_conv)
  qed
  have 2: "filter Q (newEdges cn c') = []"
  proof -
    have "\<not> Q x" if "x \<in> set (newEdges cn c')" for x
    proof
      assume q: "Q x"
      from w that have "glueOk c0 cn X (e_from x) (e_label x)" by (simp add: encloses_def)
      with Q[OF q] show False by (auto simp: glueOk_def)
    qed
    then show ?thesis by (simp add: filter_empty_conv)
  qed
  show ?thesis unfolding n by (simp add: 1 2)
qed

section \<open>Counting the blocks of a kind\<close>

text \<open>
  The number of nodes of a tree whose kind is in \<open>T\<close>, and the blocks of kind \<open>K\<close> of
  a build state.  A build adds at most one \<open>branch\<close> block for every node with a kind
  in \<open>IF_TYPES\<close>, and at most one \<open>loop\<close> block for every node with a kind in \<open>LOOP_TYPES\<close>.
\<close>

definition countKind :: "string set \<Rightarrow> AstNode \<Rightarrow> nat" where
  "countKind T m = length (filter (\<lambda>x. kind x \<in> T) (subtree m))"

definition kidsCount :: "string set \<Rightarrow> AstNode \<Rightarrow> nat" where
  "kidsCount T m = sum_list (map (countKind T) (children m))"

definition kindBlocks :: "CfgBlockKind \<Rightarrow> BuildCtx \<Rightarrow> CfgBlock list" where
  "kindBlocks K c = filter (\<lambda>b. b_kind b = K) (ctx_blocks c)"

lemma length_filter_concat:
  "length (filter P (concat xss)) = sum_list (map (\<lambda>xs. length (filter P xs)) xss)"
  by (induction xss) simp_all

lemma countKind_node:
  "countKind T m = (if kind m \<in> T then 1 else 0) + kidsCount T m"
proof (cases m)
  case (AstNode k s e sp ep t nm cs)
  have 1: "length (filter P (concat (map subtree cs))) =
      sum_list (map (\<lambda>x. length (filter P (subtree x))) cs)" for P
    by (simp add: length_filter_concat comp_def)
  show ?thesis
    unfolding AstNode countKind_def[abs_def] kidsCount_def by (simp add: 1)
qed

lemma kidsCount_le: "kidsCount T m \<le> countKind T m"
  by (simp add: countKind_node)

lemma sum_list_mem_le:
  fixes f :: "'a \<Rightarrow> nat"
  shows "x \<in> set xs \<Longrightarrow> f x \<le> sum_list (map f xs)"
  by (induction xs) auto

lemma sum_list_two_le:
  fixes f :: "'a \<Rightarrow> nat"
  shows "x \<in> set xs \<Longrightarrow> y \<in> set xs \<Longrightarrow> x \<noteq> y \<Longrightarrow> f x + f y \<le> sum_list (map f xs)"
proof (induction xs)
  case Nil
  then show ?case by simp
next
  case (Cons a xs)
  then show ?case
    using sum_list_mem_le[of x xs f] sum_list_mem_le[of y xs f] by auto
qed

lemma sum_list_filter_le:
  fixes f :: "'a \<Rightarrow> nat"
  shows "sum_list (map f (filter P xs)) \<le> sum_list (map f xs)"
  by (induction xs) auto

lemma find_holds: "find P xs = Some x \<Longrightarrow> P x"
  by (induction xs) (auto split: if_splits)

lemma body_count:
  assumes "findBody m = Some b"
  shows "countKind T b \<le> kidsCount T m"
  unfolding kidsCount_def using findBody_child[OF assms] by (rule sum_list_mem_le)

lemma else_count:
  assumes "findElse m = Some b"
  shows "countKind T b \<le> kidsCount T m"
  unfolding kidsCount_def using findElse_child[OF assms] by (rule sum_list_mem_le)

lemma bodies_count:
  assumes "findBody m = Some b" "findElse m = Some e"
  shows "countKind T b + countKind T e \<le> kidsCount T m"
proof -
  have "b \<noteq> e"
    using find_holds[OF assms(1)[unfolded findBody_def]] find_holds[OF assms(2)[unfolded findElse_def]]
    by auto
  with findBody_child[OF assms(1)] findElse_child[OF assms(2)] show ?thesis
    unfolding kidsCount_def by (rule sum_list_two_le)
qed

lemma arms_count: "sum_list (map (countKind T) (findArms m)) \<le> kidsCount T m"
proof (induction m rule: findArms.induct)
  case (1 k s e sp ep t nm cs)
  have one: "sum_list (map (countKind T)
        ((if isArmKind (kind child) then [child] else []) @
         (if isArmBlockKind (kind child) then findArms child else [])))
      \<le> countKind T child" if "child \<in> set cs" for child
  proof (cases "isArmBlockKind (kind child)")
    case True
    then have "\<not> isArmKind (kind child)" by (auto simp: isArmKind_def isArmBlockKind_def)
    with True "1.IH"[OF that True] kidsCount_le[of T child] show ?thesis by simp
  next
    case False
    then show ?thesis by simp
  qed
  have "sum_list (map (countKind T) (concat (map g xs))) \<le> sum_list (map (countKind T) xs)"
    if "\<And>x. x \<in> set xs \<Longrightarrow> sum_list (map (countKind T) (g x)) \<le> countKind T x"
    for g and xs :: "AstNode list"
    using that
  proof (induction xs)
    case Nil
    then show ?case by simp
  next
    case (Cons x xs)
    from Cons.prems[of x] Cons.IH Cons.prems show ?case by (simp add: add_mono)
  qed
  from this[of cs, OF one] show ?case by (simp add: kidsCount_def)
qed

lemma kindBlocks_frame [simp]:
  "kindBlocks K (addEdge c f t l) = kindBlocks K c"
  "kindBlocks K (addEdgesFrom c xs t l) = kindBlocks K c"
  "kindBlocks K (chainResults c rs) = kindBlocks K c"
  by (simp_all add: kindBlocks_def)

lemma kindBlocks_makeBlock:
  assumes "makeBlock c l k m p s = (b, c')"
  shows "kindBlocks K c' = kindBlocks K c @ (if k = K then [b] else [])"
  using makeBlock_props[OF assms] by (simp add: kindBlocks_def)

lemma count_body:
  assumes "\<And>b c. f m = Some b \<Longrightarrow>
      length (kindBlocks K (snd (buildChildren c b p code))) \<le> length (kindBlocks K c) + g b"
    and "(case f m of Some b \<Rightarrow> buildChildren c1 b p code | None \<Rightarrow> (None, c1)) = (r, c2)"
  shows "length (kindBlocks K c2) \<le> length (kindBlocks K c1) + (case f m of Some b \<Rightarrow> g b | None \<Rightarrow> 0)"
proof (cases "f m")
  case None
  with assms(2) show ?thesis by simp
next
  case (Some b)
  with assms(1)[OF Some, of c1] assms(2) show ?thesis by simp
qed

lemma count_arms:
  assumes "\<And>a c q. a \<in> set arms \<Longrightarrow>
      length (kindBlocks K (snd (buildChildren c a q code))) \<le> length (kindBlocks K c) + countKind T a"
  shows "length (kindBlocks K (snd (buildArms ctx arms i mid p code exits)))
      \<le> length (kindBlocks K ctx) + sum_list (map (countKind T) arms)"
  using assms
proof (induction arms arbitrary: ctx i exits)
  case Nil
  then show ?case by simp
next
  case (Cons arm arms)
  obtain ar c1 where a: "buildChildren ctx arm (p @ ''-arm'' @ decimal i) code = (ar, c1)"
    by fastforce
  have 1: "length (kindBlocks K c1) \<le> length (kindBlocks K ctx) + countKind T arm"
    using Cons.prems[of arm ctx "p @ ''-arm'' @ decimal i"] a by simp
  have rest: "\<And>a c q. a \<in> set arms \<Longrightarrow>
      length (kindBlocks K (snd (buildChildren c a q code))) \<le> length (kindBlocks K c) + countKind T a"
    using Cons.prems by simp
  show ?case
  proof (cases ar)
    case None
    with a have "buildArms ctx (arm # arms) i mid p code exits =
        buildArms c1 arms (i + 1) mid p code exits" by simp
    with Cons.IH[OF rest, of c1 "i + 1" exits] 1 show ?thesis by simp
  next
    case (Some r)
    with a have "buildArms ctx (arm # arms) i mid p code exits =
        buildArms (addEdge c1 mid (r_entry r) (Some (armLabel arm i code))) arms (i + 1) mid p code
          (exits @ r_exits r)" by (simp add: Let_def)
    with Cons.IH[OF rest, of "addEdge c1 mid (r_entry r) (Some (armLabel arm i code))" "i + 1"
        "exits @ r_exits r"] 1
    show ?thesis by simp
  qed
qed

lemma count_each:
  assumes "\<And>child c q. child \<in> fst ` set cs \<Longrightarrow>
      length (kindBlocks K (snd (buildNode c child q code))) \<le> length (kindBlocks K c) + countKind T child"
  shows "length (kindBlocks K (snd (buildEach ctx cs p code results)))
      \<le> length (kindBlocks K ctx) + sum_list (map (countKind T) (map fst cs))"
  using assms
proof (induction cs arbitrary: ctx results)
  case Nil
  then show ?case by simp
next
  case (Cons ci cs)
  obtain child idx where ci: "ci = (child, idx)" by (cases ci)
  obtain res c1 where a: "buildNode ctx child (p @ ''-'' @ decimal idx) code = (res, c1)"
    by fastforce
  have 1: "length (kindBlocks K c1) \<le> length (kindBlocks K ctx) + countKind T child"
    using Cons.prems[of child ctx "p @ ''-'' @ decimal idx"] a ci by simp
  have rest: "\<And>child c q. child \<in> fst ` set cs \<Longrightarrow>
      length (kindBlocks K (snd (buildNode c child q code))) \<le> length (kindBlocks K c) + countKind T child"
    using Cons.prems by simp
  from Cons.IH[OF rest, of c1 "case res of Some r \<Rightarrow> results @ [r] | None \<Rightarrow> results"] 1 a ci
  show ?case by simp
qed

lemma count_children:
  assumes "\<And>child c q. child \<in> set (children m) \<Longrightarrow>
      length (kindBlocks K (snd (buildNode c child q code))) \<le> length (kindBlocks K c) + countKind T child"
  shows "length (kindBlocks K (snd (buildChildren ctx m p code)))
      \<le> length (kindBlocks K ctx) + kidsCount T m"
proof -
  have "length (kindBlocks K (snd (buildEach ctx (childIndices m) p code [])))
      \<le> length (kindBlocks K ctx) + sum_list (map (countKind T) (map fst (childIndices m)))"
  proof (rule count_each)
    fix child c q assume "child \<in> fst ` set (childIndices m)"
    then have "child \<in> set (children m)" using childIndices_mem by fastforce
    then show "length (kindBlocks K (snd (buildNode c child q code)))
        \<le> length (kindBlocks K c) + countKind T child" by (rule assms)
  qed
  also have "sum_list (map (countKind T) (map fst (childIndices m))) \<le> kidsCount T m"
    unfolding childIndices_fst kidsCount_def by (rule sum_list_filter_le)
  finally have "length (kindBlocks K (snd (buildEach ctx (childIndices m) p code [])))
      \<le> length (kindBlocks K ctx) + kidsCount T m" by simp
  then show ?thesis
    by (subst buildChildren.simps) (auto simp add: Let_def split: prod.splits)
qed

lemma count_bound:
  assumes KT: "(K = Branch \<and> T = IF_TYPES) \<or> (K = Loop \<and> T = LOOP_TYPES)"
  shows "length (kindBlocks K (snd (buildNode ctx m p code))) \<le> length (kindBlocks K ctx) + countKind T m \<and>
         length (kindBlocks K (snd (buildChildren ctx m p code))) \<le> length (kindBlocks K ctx) + kidsCount T m"
proof (induction "size m" arbitrary: m ctx p rule: less_induct)
  case less
  have kids: "length (kindBlocks K (snd (buildNode c child q code)))
      \<le> length (kindBlocks K c) + countKind T child"
    if "child \<in> set (children m)" for child c q
  proof -
    have "size child < size m" using that by (cases m) (auto dest: size_mem)
    from less[OF this] show ?thesis by simp
  qed
  have self: "length (kindBlocks K (snd (buildChildren c m q code)))
      \<le> length (kindBlocks K c) + kidsCount T m" for c q
    using kids by (rule count_children)
  have body: "length (kindBlocks K (snd (buildChildren c b p code)))
      \<le> length (kindBlocks K c) + countKind T b"
    if "findBody m = Some b" for b c
    using less[OF findBody_size[OF that], of c p] kidsCount_le[of T b] by simp
  have els: "length (kindBlocks K (snd (buildChildren c b p code)))
      \<le> length (kindBlocks K c) + countKind T b"
    if "findElse m = Some b" for b c
    using less[OF findElse_size[OF that], of c p] kidsCount_le[of T b] by simp
  have arms: "length (kindBlocks K (snd (buildChildren c a q code)))
      \<le> length (kindBlocks K c) + countKind T a"
    if "a \<in> set (findArms m)" for a c q
    using less[OF findArms_size[OF that], of c q] kidsCount_le[of T a] by simp
  have bodyK: "(case findBody m of Some b \<Rightarrow> countKind T b | None \<Rightarrow> 0) \<le> kidsCount T m"
    using body_count[of m _ T] by (simp split: option.splits)
  have "length (kindBlocks K (snd (buildNode ctx m p code))) \<le> length (kindBlocks K ctx) + countKind T m"
  proof -
    consider "kind m \<in> IF_TYPES" | "kind m \<in> LOOP_TYPES" | "kind m \<in> MATCH_TYPES"
      | "kind m \<in> RETURN_TYPES" | "kind m \<in> FUNCTION_TYPES"
      | "\<not> isControl (kind m)" "kind m \<in> CONTAINER_TYPES \<or> isContainerLike m"
      | "\<not> isControl (kind m)" "\<not> (kind m \<in> CONTAINER_TYPES \<or> isContainerLike m)"
        "isNamed m \<and> kind m \<noteq> ''comment''"
      | "\<not> isControl (kind m)" "\<not> (kind m \<in> CONTAINER_TYPES \<or> isContainerLike m)"
        "\<not> (isNamed m \<and> kind m \<noteq> ''comment'')"
      unfolding isControl_def by blast
    then show ?thesis
    proof cases
      case 1
      obtain bb c1 where mb:
        "makeBlock ctx (condLabel m code) Branch m p [condLabel m code] = (bb, c1)" by fastforce
      obtain tr c2 where t:
        "(case findBody m of Some b \<Rightarrow> buildChildren c1 b p code | None \<Rightarrow> (None, c1)) = (tr, c2)"
        by fastforce
      define c3 where
        "c3 = (case tr of Some r \<Rightarrow> addEdge c2 (b_id bb) (r_entry r) (Some ''true'') | None \<Rightarrow> c2)"
      obtain fr c4 where f:
        "(case findElse m of Some e \<Rightarrow> buildChildren c3 e p code | None \<Rightarrow> (None, c3)) = (fr, c4)"
        by fastforce
      define c5 where
        "c5 = (case fr of Some r \<Rightarrow> addEdge c4 (b_id bb) (r_entry r) (Some ''false'') | None \<Rightarrow> c4)"
      note eq = buildNode_IF[OF 1 mb t c3_def f c5_def]
      have a: "length (kindBlocks K c1) \<le> length (kindBlocks K ctx) + (if kind m \<in> T then 1 else 0)"
        using KT 1 kinds_disjoint(1)[of "kind m"] by (auto simp: kindBlocks_makeBlock[OF mb])
      have b: "length (kindBlocks K c2)
          \<le> length (kindBlocks K c1) + (case findBody m of Some b \<Rightarrow> countKind T b | None \<Rightarrow> 0)"
        using body t by (rule count_body[where f = findBody])
      have c: "kindBlocks K c3 = kindBlocks K c2" by (simp add: c3_def split: option.splits)
      have d: "length (kindBlocks K c4)
          \<le> length (kindBlocks K c3) + (case findElse m of Some b \<Rightarrow> countKind T b | None \<Rightarrow> 0)"
        using els f by (rule count_body[where f = findElse])
      have e: "kindBlocks K c5 = kindBlocks K c4" by (simp add: c5_def split: option.splits)
      have "(case findBody m of Some b \<Rightarrow> countKind T b | None \<Rightarrow> 0) +
            (case findElse m of Some b \<Rightarrow> countKind T b | None \<Rightarrow> 0) \<le> kidsCount T m"
        using body_count[of m _ T] else_count[of m _ T] bodies_count[of m _ _ T]
        by (simp split: option.splits)
      with a b c d e show ?thesis unfolding eq by (simp add: countKind_node[of T m])
    next
      case 2
      obtain lb c1 where mb:
        "makeBlock ctx (loopLabel m code) Loop m p [loopLabel m code] = (lb, c1)" by fastforce
      obtain br c2 where t:
        "(case findBody m of Some b \<Rightarrow> buildChildren c1 b p code | None \<Rightarrow> (None, c1)) = (br, c2)"
        by fastforce
      have a: "length (kindBlocks K c1) \<le> length (kindBlocks K ctx) + (if kind m \<in> T then 1 else 0)"
        using KT 2 by (auto simp: kindBlocks_makeBlock[OF mb])
      have b: "length (kindBlocks K c2)
          \<le> length (kindBlocks K c1) + (case findBody m of Some b \<Rightarrow> countKind T b | None \<Rightarrow> 0)"
        using body t by (rule count_body[where f = findBody])
      from a b bodyK have "length (kindBlocks K c2) \<le> length (kindBlocks K ctx) + countKind T m"
        by (simp add: countKind_node[of T m])
      then show ?thesis unfolding buildNode_LOOP[OF 2 mb t] by (cases br) simp_all
    next
      case 3
      obtain mb c1 where mk: "makeBlock ctx ''match'' Match m p [summary m code 32] = (mb, c1)"
        by fastforce
      obtain exits c2 where ar: "buildArms c1 (findArms m) 0 (b_id mb) p code [] = (exits, c2)"
        by fastforce
      have a: "kindBlocks K c1 = kindBlocks K ctx"
        using KT by (auto simp: kindBlocks_makeBlock[OF mk])
      have "length (kindBlocks K c2)
          \<le> length (kindBlocks K c1) + sum_list (map (countKind T) (findArms m))"
        using count_arms[where arms = "findArms m" and ctx = c1 and i = 0 and mid = "b_id mb"
            and p = p and exits = "[]" and K = K and T = T and code = code, OF arms] ar
        by simp
      with a arms_count[of T m] show ?thesis
        unfolding buildNode_MATCH[OF 3 mk ar] by (simp add: countKind_node[of T m])
    next
      case 4
      obtain b c1 where mb:
        "makeBlock ctx (summary m code 48) Return m p [summary m code 48] = (b, c1)"
        by fastforce
      have "kindBlocks K c1 = kindBlocks K ctx"
        using KT by (auto simp: kindBlocks_makeBlock[OF mb])
      then show ?thesis unfolding buildNode_RETURN[OF 4 mb] by simp
    next
      case 5
      obtain eb c1 where mb:
        "makeBlock ctx (fnLabel m code) Entry m p [fnLabel m code] = (eb, c1)" by fastforce
      obtain br c2 where t:
        "(case findBody m of Some b \<Rightarrow> buildChildren c1 b p code | None \<Rightarrow> (None, c1)) = (br, c2)"
        by fastforce
      obtain xb c4 where mx:
        "makeBlock (addEdge c2 (b_id eb) (r_entry (the br)) None) ''end'' Exit m p [''end'']
           = (xb, c4)"
        by fastforce
      have a: "kindBlocks K c1 = kindBlocks K ctx"
        using KT by (auto simp: kindBlocks_makeBlock[OF mb])
      have b: "length (kindBlocks K c2)
          \<le> length (kindBlocks K c1) + (case findBody m of Some b \<Rightarrow> countKind T b | None \<Rightarrow> 0)"
        using body t by (rule count_body[where f = findBody])
      have c: "kindBlocks K c4 = kindBlocks K c2"
        using KT by (auto simp: kindBlocks_makeBlock[OF mx])
      from a b bodyK have "length (kindBlocks K c2) \<le> length (kindBlocks K ctx) + countKind T m"
        by (simp add: countKind_node[of T m])
      with c show ?thesis unfolding buildNode_FUNCTION[OF 5 mb t mx] by (cases br) simp_all
    next
      case 6
      then show ?thesis using self[of ctx p] kidsCount_le[of T m] by (simp add: buildNode_container)
    next
      case 7
      obtain b c1 where mb:
        "makeBlock ctx (summary m code 48) Statement m p [summary m code 48] = (b, c1)"
        by fastforce
      have eq: "buildNode ctx m p code = (Some \<lparr>r_entry = b_id b, r_exits = [b_id b]\<rparr>, c1)"
        using 7 by (intro buildNode_statement[OF _ _ _ _ mb]) simp_all
      have "kindBlocks K c1 = kindBlocks K ctx"
        using KT by (auto simp: kindBlocks_makeBlock[OF mb])
      then show ?thesis unfolding eq by simp
    next
      case 8
      then show ?thesis by (simp add: buildNode_null)
    qed
  qed
  then show ?case using self by simp
qed

section \<open>Nodes that produce no block\<close>

lemma buildEach_append:
  "buildEach ctx (xs @ ys) p code rs =
     (case buildEach ctx xs p code rs of (rs1, c1) \<Rightarrow> buildEach c1 ys p code rs1)"
proof (induction xs arbitrary: ctx rs)
  case Nil
  then show ?case by simp
next
  case (Cons ci xs)
  obtain child idx where ci: "ci = (child, idx)" by (cases ci)
  show ?case unfolding ci by (simp add: Cons.IH Let_def split: prod.splits)
qed

lemma buildEach_silent:
  assumes "\<And>m c q. m \<in> fst ` set cs \<Longrightarrow> buildNode c m q code = (None, c)"
  shows "buildEach ctx cs p code rs = (rs, ctx)"
  using assms
proof (induction cs)
  case Nil
  then show ?case by simp
next
  case (Cons ci cs)
  obtain child idx where ci: "ci = (child, idx)" by (cases ci)
  have "buildNode ctx child (p @ ''-'' @ decimal idx) code = (None, ctx)"
    using Cons.prems[of child] ci by simp
  moreover have "buildEach ctx cs p code rs = (rs, ctx)"
    using Cons.prems by (intro Cons.IH) simp
  ultimately show ?case unfolding ci by simp
qed

lemma silent_build: "\<not> yieldsNode m \<Longrightarrow> buildNode ctx m p code = (None, ctx)"
proof (induction "size m" arbitrary: m ctx p rule: less_induct)
  case less
  consider "isControl (kind m)"
    | "\<not> isControl (kind m)" "kind m \<in> CONTAINER_TYPES \<or> isContainerLike m"
    | "\<not> isControl (kind m)" "\<not> (kind m \<in> CONTAINER_TYPES \<or> isContainerLike m)"
      "isNamed m \<and> kind m \<noteq> ''comment''"
    | "\<not> isControl (kind m)" "\<not> (kind m \<in> CONTAINER_TYPES \<or> isContainerLike m)"
      "\<not> (isNamed m \<and> kind m \<noteq> ''comment'')"
    by blast
  then show ?case
  proof cases
    case 1
    then show ?thesis using less.prems yieldsNode.control by blast
  next
    case 2
    have kid: "buildNode c child q code = (None, c)" if "child \<in> fst ` set (childIndices m)" for child c q
    proof -
      from that have mem: "child \<in> set (filter isNamed (children m))"
        unfolding childIndices_fst[symmetric] by simp
      then have "\<not> yieldsNode child"
        using less.prems yieldsNode.container[OF 2] by auto
      moreover have "size child < size m" using mem by (cases m) (auto dest: size_mem)
      ultimately show ?thesis by (rule less.hyps[rotated])
    qed
    have "buildEach ctx (childIndices m) p code [] = ([], ctx)"
      using kid by (rule buildEach_silent)
    then have "buildChildren ctx m p code = (None, ctx)"
      by (subst buildChildren.simps) (simp add: Let_def)
    then show ?thesis using 2 by (simp add: buildNode_container)
  next
    case 3
    then have "isLeafStatement m" by (simp add: isLeafStatement_def isControl_def)
    then show ?thesis using less.prems yieldsNode.statement by blast
  next
    case 4
    then show ?thesis by (rule buildNode_null)
  qed
qed

lemma buildChildren_one:
  assumes nc: "filter isNamed (children b) = pre @ s # post"
    and silent: "\<forall>m \<in> set (pre @ post). \<not> yieldsNode m"
  shows "\<exists>i. buildChildren ctx b p code = buildNode ctx s (p @ ''-'' @ decimal i) code"
proof -
  from nc have "map fst (childIndices b) = pre @ s # post" by (simp add: childIndices_fst)
  then obtain cs1 ci cs2 where cs: "childIndices b = cs1 @ ci # cs2"
    and m: "map fst cs1 = pre" "fst ci = s" "map fst cs2 = post"
    by (auto simp: map_eq_append_conv map_eq_Cons_conv)
  obtain i where ci: "ci = (s, i)" using m(2) by (cases ci) simp
  have s1: "buildNode c x q code = (None, c)" if "x \<in> fst ` set cs1" for x c q
  proof -
    from that have "x \<in> set pre" unfolding m(1)[symmetric] by simp
    then show ?thesis using silent by (intro silent_build) simp
  qed
  have s2: "buildNode c x q code = (None, c)" if "x \<in> fst ` set cs2" for x c q
  proof -
    from that have "x \<in> set post" unfolding m(3)[symmetric] by simp
    then show ?thesis using silent by (intro silent_build) simp
  qed
  obtain res c1 where a: "buildNode ctx s (p @ ''-'' @ decimal i) code = (res, c1)" by fastforce
  have e1: "buildEach ctx cs1 p code [] = ([], ctx)" by (rule buildEach_silent) (rule s1)
  have e2: "buildEach c1 cs2 p code rs = (rs, c1)" for rs by (rule buildEach_silent) (rule s2)
  have "buildEach ctx (childIndices b) p code [] =
      ((case res of Some r \<Rightarrow> [r] | None \<Rightarrow> []), c1)"
    using a by (simp add: cs buildEach_append e1 ci e2 split: option.splits)
  then have "buildChildren ctx b p code = (res, c1)"
    using nc by (subst buildChildren.simps) (simp add: Let_def split: option.splits)
  with a show ?thesis by metis
qed

text \<open>
  \<open>oneLeaf b\<close>: among the named children of \<open>b\<close> exactly one produces blocks, and it is
  a leaf statement or a container with that property again (as an
  \<open>expression_statement\<close> wraps its expression); the other named children produce
  nothing (comments, empty containers).
\<close>

inductive oneLeaf :: "AstNode \<Rightarrow> bool" where
  here: "filter isNamed (children b) = pre @ s # post \<Longrightarrow>
         \<forall>m \<in> set (pre @ post). \<not> yieldsNode m \<Longrightarrow> isLeafStatement s \<Longrightarrow> oneLeaf b"
| wrapped: "filter isNamed (children b) = pre @ s # post \<Longrightarrow>
         \<forall>m \<in> set (pre @ post). \<not> yieldsNode m \<Longrightarrow>
         \<not> isControl (kind s) \<Longrightarrow> kind s \<in> CONTAINER_TYPES \<or> isContainerLike s \<Longrightarrow>
         oneLeaf s \<Longrightarrow> oneLeaf b"

lemma oneLeaf_build:
  assumes "oneLeaf b"
  shows "\<exists>sb c'. buildChildren ctx b p code =
           (Some \<lparr>r_entry = makeId (nextBlockId ctx), r_exits = [makeId (nextBlockId ctx)]\<rparr>, c') \<and>
         ctx_blocks c' = ctx_blocks ctx @ [sb] \<and> b_kind sb = Statement \<and>
         b_id sb = makeId (nextBlockId ctx) \<and> ctx_edges c' = ctx_edges ctx \<and>
         nextBlockId c' = Suc (nextBlockId ctx)"
  using assms
proof (induction arbitrary: ctx p rule: oneLeaf.induct)
  case (here b pre s post)
  from buildChildren_one[OF here.hyps(1,2)] obtain i where
    eq: "buildChildren ctx b p code = buildNode ctx s (p @ ''-'' @ decimal i) code" by blast
  obtain sb c1 where mb:
    "makeBlock ctx (summary s code 48) Statement s (p @ ''-'' @ decimal i) [summary s code 48] = (sb, c1)"
    by fastforce
  have "buildNode ctx s (p @ ''-'' @ decimal i) code =
      (Some \<lparr>r_entry = b_id sb, r_exits = [b_id sb]\<rparr>, c1)"
    using here.hyps(3)
    by (intro buildNode_statement[OF _ _ _ _ mb]) (simp_all add: isLeafStatement_def isControl_def)
  then show ?case unfolding eq using makeBlock_props[OF mb] by simp
next
  case (wrapped b pre s post)
  from buildChildren_one[OF wrapped.hyps(1,2)] obtain i where
    eq: "buildChildren ctx b p code = buildNode ctx s (p @ ''-'' @ decimal i) code" by blast
  have "buildNode ctx s (p @ ''-'' @ decimal i) code = buildChildren ctx s (p @ ''-'' @ decimal i) code"
    using wrapped.hyps(3,4) by (rule buildNode_container)
  then show ?case unfolding eq using wrapped.IH[of ctx "p @ ''-'' @ decimal i"] by simp
qed

section \<open>From the build state to the returned graph\<close>

lemma edgeKey_label:
  assumes "edgeKey e = edgeKey e'"
    and "e_from e = makeId a" "e_from e' = makeId a'" "e_to e = makeId b" "e_to e' = makeId b'"
  shows "(case e_label e of Some l \<Rightarrow> l | None \<Rightarrow> []) = (case e_label e' of Some l \<Rightarrow> l | None \<Rightarrow> [])"
proof -
  from assms have
    "decimal a @ CHR ''-'' # (''>cfg_'' @ decimal b @ CHR '':'' # (case e_label e of Some l \<Rightarrow> l | None \<Rightarrow> []))
     = decimal a' @ CHR ''-'' # (''>cfg_'' @ decimal b' @ CHR '':'' # (case e_label e' of Some l \<Rightarrow> l | None \<Rightarrow> []))"
    by (simp add: edgeKey_def makeId_def)
  from append_sep_inj[OF decimal_no_sep(1) decimal_no_sep(1) this]
  have "decimal b @ CHR '':'' # (case e_label e of Some l \<Rightarrow> l | None \<Rightarrow> [])
       = decimal b' @ CHR '':'' # (case e_label e' of Some l \<Rightarrow> l | None \<Rightarrow> [])"
    by simp
  from append_sep_inj[OF decimal_no_sep(2) decimal_no_sep(2) this]
  show ?thesis by simp
qed

lemma dedup_one:
  assumes f: "filter Q es = [t]"
    and Qk: "\<And>e. e \<in> set es \<Longrightarrow> edgeKey e = edgeKey t \<Longrightarrow> e = t"
  shows "filter Q (dedupEdges {} es) = [t]"
proof -
  have t: "e \<in> set es \<and> Q e \<longleftrightarrow> e = t" for e
    using arg_cong[OF f, of set] by auto
  have "filter Q (dedupEdges {} es) = filter Q es"
  proof (rule dedupEdges_filter)
    show "distinct (filter Q es)" unfolding f by simp
    show "\<forall>e \<in> set es. Q e \<longrightarrow> edgeKey e \<notin> {}" by simp
    show "\<forall>e' \<in> set es. \<forall>e'' \<in> set es. Q e'' \<longrightarrow> edgeKey e' = edgeKey e'' \<longrightarrow> e' = e''"
      using t Qk by metis
  qed
  then show ?thesis unfolding f .
qed

lemma buildCfg_view:
  assumes bc: "buildChildren (initCtx code) ast ''root'' code = (result, ctx1)"
  shows "\<exists>extra. edges (buildCfg ast code) = dedupEdges {} (ctx_edges ctx1 @ extra) \<and>
      (\<forall>e \<in> set extra. e_from e = makeId (nextBlockId ctx1) \<and> (\<exists>b. e_to e = makeId b)) \<and>
      set (ctx_blocks ctx1) \<subseteq> set (blocks (buildCfg ast code)) \<and>
      (\<forall>K. K \<noteq> Entry \<longrightarrow>
         filter (\<lambda>b. b_kind b = K) (blocks (buildCfg ast code)) = kindBlocks K ctx1)"
proof (cases "result = None \<or> ctx_blocks ctx1 = [] \<or>
    list_ex (\<lambda>b. b_kind b = Entry) (ctx_blocks ctx1)")
  case True
  show ?thesis
    unfolding buildCfg_plain[OF bc True]
    by (intro exI[of _ "[]"]) (simp add: kindBlocks_def)
next
  case False
  then obtain r where r: "result = Some r" and ne: "ctx_blocks ctx1 \<noteq> []"
    and noe: "\<not> list_ex (\<lambda>b. b_kind b = Entry) (ctx_blocks ctx1)" by auto
  have "\<exists>b. r_entry r = makeId b"
    using root_blocks(4)[OF bc r] makeId_0 by metis
  then show ?thesis
    unfolding buildCfg_entry[OF bc[unfolded r] ne noe]
    by (intro exI[of _ "[\<lparr>e_from = makeId (nextBlockId ctx1), e_to = r_entry r, e_label = None\<rparr>]"])
      (auto simp: kindBlocks_def entrySentinel_def)
qed

lemma short_list: "length xs \<le> 1 \<Longrightarrow> x \<in> set xs \<Longrightarrow> xs = [x]"
  by (cases xs) auto

lemma root_count:
  assumes KT: "(K = Branch \<and> T = IF_TYPES) \<or> (K = Loop \<and> T = LOOP_TYPES)"
    and one: "filter (\<lambda>m. kind m \<in> T) (subtree ast) = [n]"
    and bc: "buildChildren (initCtx code) ast ''root'' code = (result, ctx1)"
    and b: "b \<in> set (ctx_blocks ctx1)" "b_kind b = K"
  shows "kindBlocks K ctx1 = [b]"
proof -
  have "countKind T ast = 1" by (simp add: countKind_def one)
  with count_bound[OF KT, of "initCtx code" ast "''root''" code] kidsCount_le[of T ast] bc
  have "length (kindBlocks K ctx1) \<le> 1" by (simp add: kindBlocks_def)
  moreover have "b \<in> set (kindBlocks K ctx1)" using b by (simp add: kindBlocks_def)
  ultimately show ?thesis by (rule short_list)
qed

lemma root_encloses:
  assumes "reaches ast n"
    and bc: "buildChildren (initCtx code) ast ''root'' code = (result, ctx1)"
  obtains c0 p0 where
    "encloses c0 (snd (buildNode c0 n p0 code)) (exitsOf (fst (buildNode c0 n p0 code)))
       (initCtx code) ctx1 (exitsOf result)"
  using reaches_passes[OF assms(1), of code "initCtx code" "''root''"]
  unfolding bc passes_pair by blast

text \<open>
  The edges of the returned graph that satisfy \<open>Q\<close>, when \<open>Q\<close> holds of one edge of the
  final build state, which starts at a block of the build.
\<close>

lemma root_filter_one:
  assumes bc: "buildChildren (initCtx code) ast ''root'' code = (result, ctx1)"
    and f: "filter Q (ctx_edges ctx1) = [t]"
    and Qfrom: "\<And>e. Q e \<Longrightarrow> e_from e = e_from t"
    and Qk: "\<And>e a b. e_from e = e_from t \<Longrightarrow> e_to e = e_to t \<Longrightarrow>
               (case e_label e of Some l \<Rightarrow> l | None \<Rightarrow> []) = (case e_label t of Some l \<Rightarrow> l | None \<Rightarrow> [])
               \<Longrightarrow> e \<in> set (ctx_edges ctx1) \<Longrightarrow> e = t"
  shows "filter Q (edges (buildCfg ast code)) = [t]"
proof -
  from buildCfg_view[OF bc] obtain extra where
    ed: "edges (buildCfg ast code) = dedupEdges {} (ctx_edges ctx1 @ extra)"
    and ex: "\<forall>e \<in> set extra. e_from e = makeId (nextBlockId ctx1) \<and> (\<exists>b. e_to e = makeId b)"
    by blast
  have tin: "t \<in> set (ctx_edges ctx1)" using arg_cong[OF f, of set] by auto
  from root_edge_ids[OF bc tin] obtain a b where
    t: "a < nextBlockId ctx1" "e_from t = makeId a" "e_to t = makeId b" by blast
  have notx: "e_from e \<noteq> e_from t" if "e \<in> set extra" for e
    using ex that t by auto
  have f2: "filter Q (ctx_edges ctx1 @ extra) = [t]"
    using f notx Qfrom by (auto simp: filter_empty_conv)
  have ids: "\<exists>a b. e_from e = makeId a \<and> e_to e = makeId b"
    if "e \<in> set (ctx_edges ctx1 @ extra)" for e
    using that root_edge_ids[OF bc, of e] ex by auto
  have "filter Q (dedupEdges {} (ctx_edges ctx1 @ extra)) = [t]"
    using f2
  proof (rule dedup_one)
    fix e assume e: "e \<in> set (ctx_edges ctx1 @ extra)" and k: "edgeKey e = edgeKey t"
    from ids[OF e] obtain a' b' where ab: "e_from e = makeId a'" "e_to e = makeId b'" by blast
    from edgeKey_inj[OF k ab(1) t(2) ab(2) t(3)] have same: "e_from e = e_from t" "e_to e = e_to t"
      using ab t by simp_all
    with notx e have "e \<in> set (ctx_edges ctx1)" by auto
    with same edgeKey_label[OF k ab(1) t(2) ab(2) t(3)] show "e = t" by (intro Qk)
  qed
  then show ?thesis unfolding ed .
qed

section \<open>The loop construct\<close>

text \<open>
  Three programs: \<open>while (x) y;\<close>, whose loop body is a statement and no block;
  a class with a method that holds a loop; and \<open>a; while (x) { y; } b;\<close>.
\<close>

definition bareLoopCode :: string where
  "bareLoopCode = ''while (x) y;''"

definition bareLoopNode :: AstNode where
  "bareLoopNode =
     named ''while_statement'' 0 12
       [token ''while'' 0 5,
        named ''parenthesized_expression'' 6 9
         [token ''('' 6 7,
          named ''identifier'' 7 8 [],
          token '')'' 8 9],
        named ''expression_statement'' 10 12
         [named ''identifier'' 10 11 [],
          token '';'' 11 12]]"

definition bareLoopTree :: AstNode where
  "bareLoopTree =
     named ''program'' 0 12
       [bareLoopNode]"

definition hiddenLoopCode :: string where
  "hiddenLoopCode = ''class A { m() { while (x) { y; } } }''"

definition hiddenLoopNode :: AstNode where
  "hiddenLoopNode =
     named ''while_statement'' 16 32
       [token ''while'' 16 21,
        named ''parenthesized_expression'' 22 25
         [token ''('' 22 23,
          named ''identifier'' 23 24 [],
          token '')'' 24 25],
        named ''statement_block'' 26 32
         [token ''{'' 26 27,
          named ''expression_statement'' 28 30
           [named ''identifier'' 28 29 [],
            token '';'' 29 30],
          token ''}'' 31 32]]"

definition hiddenLoopTree :: AstNode where
  "hiddenLoopTree =
     named ''program'' 0 36
       [named ''class_declaration'' 0 36
         [token ''class'' 0 5,
          named ''identifier'' 6 7 [],
          named ''class_body'' 8 36
           [token ''{'' 8 9,
            named ''method_definition'' 10 34
             [named ''property_identifier'' 10 11 [],
              named ''formal_parameters'' 11 13
               [token ''('' 11 12,
                token '')'' 12 13],
              named ''statement_block'' 14 34
               [token ''{'' 14 15,
                hiddenLoopNode,
                token ''}'' 33 34]],
            token ''}'' 35 36]]]"

definition midLoopCode :: string where
  "midLoopCode = ''a; while (x) { y; } b;''"

definition midLoopBody :: AstNode where
  "midLoopBody =
     named ''statement_block'' 13 19
       [token ''{'' 13 14,
        named ''expression_statement'' 15 17
         [named ''identifier'' 15 16 [],
          token '';'' 16 17],
        token ''}'' 18 19]"

definition midLoopNode :: AstNode where
  "midLoopNode =
     named ''while_statement'' 3 19
       [token ''while'' 3 8,
        named ''parenthesized_expression'' 9 12
         [token ''('' 9 10,
          named ''identifier'' 10 11 [],
          token '')'' 11 12],
        midLoopBody]"

definition midLoopTree :: AstNode where
  "midLoopTree =
     named ''program'' 0 22
       [named ''expression_statement'' 0 2
         [named ''identifier'' 0 1 [],
          token '';'' 1 2],
        midLoopNode,
        named ''expression_statement'' 20 22
         [named ''identifier'' 20 21 [],
          token '';'' 21 22]]"

text \<open>
  Claim C7, as stated, fails.  Each of the first two trees has a single loop node
  whose body holds one leaf statement.  For \<open>while (x) y;\<close> the body is not one of
  the kinds \<open>findBody\<close> looks for, so the loop block is built without a body: no
  statement block, no edge \<open>body\<close>, no edge \<open>next\<close>.  The class declaration is no
  container, so the builder makes one statement block of it and never visits the
  loop: there is no loop block.
\<close>

theorem loop_counterexample:
  "filter (\<lambda>m. kind m \<in> LOOP_TYPES) (subtree bareLoopTree) = [bareLoopNode] \<and>
   findBody bareLoopNode = None \<and>
   map b_kind (blocks (buildCfg bareLoopTree bareLoopCode)) = [Entry, Loop] \<and>
   edges (buildCfg bareLoopTree bareLoopCode) =
     [\<lparr>e_from = ''cfg_1'', e_to = ''cfg_0'', e_label = None\<rparr>] \<and>
   filter (\<lambda>m. kind m \<in> LOOP_TYPES) (subtree hiddenLoopTree) = [hiddenLoopNode] \<and>
   map b_kind (blocks (buildCfg hiddenLoopTree hiddenLoopCode)) = [Entry, Statement] \<and>
   edges (buildCfg hiddenLoopTree hiddenLoopCode) =
     [\<lparr>e_from = ''cfg_1'', e_to = ''cfg_0'', e_label = None\<rparr>]"
  by code_simp

lemma loop_build:
  assumes kn: "kind n \<in> LOOP_TYPES" and body: "findBody n = Some body" and leaf: "oneLeaf body"
  shows "\<exists>lb sb cn.
     buildNode c0 n p0 code = (Some \<lparr>r_entry = b_id lb, r_exits = [b_id lb]\<rparr>, cn) \<and>
     b_id lb = makeId (nextBlockId c0) \<and> b_id sb = makeId (Suc (nextBlockId c0)) \<and>
     b_kind lb = Loop \<and> b_kind sb = Statement \<and>
     ctx_blocks cn = ctx_blocks c0 @ [lb, sb] \<and>
     ctx_edges cn = ctx_edges c0 @
       [\<lparr>e_from = b_id lb, e_to = b_id sb, e_label = Some ''body''\<rparr>,
        \<lparr>e_from = b_id sb, e_to = b_id lb, e_label = Some ''next''\<rparr>] \<and>
     nextBlockId cn = Suc (Suc (nextBlockId c0))"
proof -
  obtain lb c1 where mb:
    "makeBlock c0 (loopLabel n code) Loop n p0 [loopLabel n code] = (lb, c1)" by fastforce
  note mp = makeBlock_props[OF mb]
  from oneLeaf_build[OF leaf, of c1 p0 code] obtain sb c2 where
    bd: "buildChildren c1 body p0 code =
           (Some \<lparr>r_entry = makeId (nextBlockId c1), r_exits = [makeId (nextBlockId c1)]\<rparr>, c2)"
      "ctx_blocks c2 = ctx_blocks c1 @ [sb]" "b_kind sb = Statement"
      "b_id sb = makeId (nextBlockId c1)" "ctx_edges c2 = ctx_edges c1"
      "nextBlockId c2 = Suc (nextBlockId c1)"
    by blast
  have t: "(case findBody n of Some b \<Rightarrow> buildChildren c1 b p0 code | None \<Rightarrow> (None, c1)) =
      (Some \<lparr>r_entry = makeId (nextBlockId c1), r_exits = [makeId (nextBlockId c1)]\<rparr>, c2)"
    by (simp add: body bd(1))
  have "buildNode c0 n p0 code = (Some \<lparr>r_entry = b_id lb, r_exits = [b_id lb]\<rparr>,
      addEdgesFrom (addEdge c2 (b_id lb) (makeId (nextBlockId c1)) (Some ''body''))
        [makeId (nextBlockId c1)] (b_id lb) (Some ''next'')) \<and>
     b_id lb = makeId (nextBlockId c0) \<and> b_id sb = makeId (Suc (nextBlockId c0)) \<and>
     b_kind lb = Loop \<and> b_kind sb = Statement \<and>
     ctx_blocks (addEdgesFrom (addEdge c2 (b_id lb) (makeId (nextBlockId c1)) (Some ''body''))
        [makeId (nextBlockId c1)] (b_id lb) (Some ''next'')) = ctx_blocks c0 @ [lb, sb] \<and>
     ctx_edges (addEdgesFrom (addEdge c2 (b_id lb) (makeId (nextBlockId c1)) (Some ''body''))
        [makeId (nextBlockId c1)] (b_id lb) (Some ''next'')) = ctx_edges c0 @
       [\<lparr>e_from = b_id lb, e_to = b_id sb, e_label = Some ''body''\<rparr>,
        \<lparr>e_from = b_id sb, e_to = b_id lb, e_label = Some ''next''\<rparr>] \<and>
     nextBlockId (addEdgesFrom (addEdge c2 (b_id lb) (makeId (nextBlockId c1)) (Some ''body''))
        [makeId (nextBlockId c1)] (b_id lb) (Some ''next'')) = Suc (Suc (nextBlockId c0))"
    unfolding buildNode_LOOP[OF kn mb t] by (simp add: mp bd)
  then show ?thesis by blast
qed

text \<open>
  Claim C7, amended.  Let the tree have a single loop node, let the builder reach it,
  and let its body be found by \<open>findBody\<close> and contain one leaf statement.  Then the
  graph has exactly one block of kind \<open>loop\<close>; there is a statement block such that
  the only edge labelled \<open>body\<close> that leaves the loop block goes to it, and the only
  edge that leaves the statement block is labelled \<open>next\<close> and goes back to the loop
  block.  For every loop node, in every build state, the exits of the loop construct
  are exactly the id of the loop header block.
\<close>

theorem loop_cfg:
  assumes one: "filter (\<lambda>m. kind m \<in> LOOP_TYPES) (subtree ast) = [n]"
    and reach: "reaches ast n"
    and body: "findBody n = Some body" and leaf: "oneLeaf body"
    and km: "kind m \<in> LOOP_TYPES"
  shows "(\<exists>lb sb.
       filter (\<lambda>b. b_kind b = Loop) (blocks (buildCfg ast code)) = [lb] \<and>
       sb \<in> set (blocks (buildCfg ast code)) \<and> b_kind sb = Statement \<and>
       filter (\<lambda>e. e_from e = b_id lb \<and> e_label e = Some ''body'') (edges (buildCfg ast code)) =
         [\<lparr>e_from = b_id lb, e_to = b_id sb, e_label = Some ''body''\<rparr>] \<and>
       filter (\<lambda>e. e_from e = b_id sb) (edges (buildCfg ast code)) =
         [\<lparr>e_from = b_id sb, e_to = b_id lb, e_label = Some ''next''\<rparr>]) \<and>
    (\<exists>lb rest ctx'.
       buildNode ctx m p src =
         (Some \<lparr>r_entry = b_id lb, r_exits = [b_id lb]\<rparr>, ctx') \<and>
       ctx_blocks ctx' = ctx_blocks ctx @ lb # rest \<and> b_kind lb = Loop)"
proof -
  have kn: "kind n \<in> LOOP_TYPES"
  proof -
    have "n \<in> set (filter (\<lambda>m. kind m \<in> LOOP_TYPES) (subtree ast))" unfolding one by simp
    then show ?thesis by simp
  qed
  obtain result ctx1 where bc: "buildChildren (initCtx code) ast ''root'' code = (result, ctx1)"
    by fastforce
  from root_encloses[OF reach bc] obtain c0 p0 where
    w: "encloses c0 (snd (buildNode c0 n p0 code)) (exitsOf (fst (buildNode c0 n p0 code)))
          (initCtx code) ctx1 (exitsOf result)" .
  from loop_build[OF kn body leaf, of c0 p0 code] obtain lb sb cn where
    bn: "buildNode c0 n p0 code = (Some \<lparr>r_entry = b_id lb, r_exits = [b_id lb]\<rparr>, cn)"
    and ids: "b_id lb = makeId (nextBlockId c0)" "b_id sb = makeId (Suc (nextBlockId c0))"
    and kinds: "b_kind lb = Loop" "b_kind sb = Statement"
    and bl: "ctx_blocks cn = ctx_blocks c0 @ [lb, sb]"
    and ed: "ctx_edges cn = ctx_edges c0 @
       [\<lparr>e_from = b_id lb, e_to = b_id sb, e_label = Some ''body''\<rparr>,
        \<lparr>e_from = b_id sb, e_to = b_id lb, e_label = Some ''next''\<rparr>]"
    and nx: "nextBlockId cn = Suc (Suc (nextBlockId c0))"
    by blast
  define B where "B = \<lparr>e_from = b_id lb, e_to = b_id sb, e_label = Some ''body''\<rparr>"
  define N where "N = \<lparr>e_from = b_id sb, e_to = b_id lb, e_label = Some ''next''\<rparr>"
  have w': "encloses c0 cn {b_id lb} (initCtx code) ctx1 (exitsOf result)"
    using w by (simp add: bn)
  have ext: "blocksExt c0 cn"
    using nodeSpec_all[of c0 n p0 code] by (simp add: nodeSpec_def bn builds_def)
  have ne: "newEdges c0 cn = [B, N]" by (simp add: newEdges_def ed B_def N_def)
  have fresh: "freshIds c0 cn = {b_id lb, b_id sb}"
    by (auto simp: freshIds_def nx ids less_Suc_eq)
  have neq: "b_id lb \<noteq> b_id sb" by (simp add: ids)
  have all: "newEdges (initCtx code) ctx1 = ctx_edges ctx1" by (simp add: newEdges_def)
  have f1: "filter (\<lambda>e. e_from e = b_id lb \<and> e_label e = Some ''body'') (ctx_edges ctx1) = [B]"
    using enc_filter[OF w' ext, of "\<lambda>e. e_from e = b_id lb \<and> e_label e = Some ''body''"] neq
    by (simp add: fresh all ne B_def N_def)
  have f2: "filter (\<lambda>e. e_from e = b_id sb) (ctx_edges ctx1) = [N]"
    using enc_filter[OF w' ext, of "\<lambda>e. e_from e = b_id sb"] neq
    by (simp add: fresh all ne B_def N_def)
  have g1: "filter (\<lambda>e. e_from e = b_id lb \<and> e_label e = Some ''body'') (edges (buildCfg ast code)) = [B]"
    using bc f1 by (rule root_filter_one) (auto simp: B_def split: option.splits)
  have g2: "filter (\<lambda>e. e_from e = b_id sb) (edges (buildCfg ast code)) = [N]"
  proof (rule root_filter_one[OF bc f2])
    fix e assume "e_from e = e_from N" "e \<in> set (ctx_edges ctx1)"
    then have "e \<in> set (filter (\<lambda>e. e_from e = b_id sb) (ctx_edges ctx1))" by (simp add: N_def)
    then show "e = N" unfolding f2 by simp
  qed (simp add: N_def)
  have sub: "set (ctx_blocks cn) \<subseteq> set (ctx_blocks ctx1)"
    using w' by (auto simp: encloses_def elim!: blocksExtE)
  then have mem: "lb \<in> set (ctx_blocks ctx1)" "sb \<in> set (ctx_blocks ctx1)" by (auto simp: bl)
  from buildCfg_view[OF bc] have
    v1: "set (ctx_blocks ctx1) \<subseteq> set (blocks (buildCfg ast code))"
    and v2: "filter (\<lambda>b. b_kind b = Loop) (blocks (buildCfg ast code)) = kindBlocks Loop ctx1"
    by auto
  have "kindBlocks Loop ctx1 = [lb]"
    by (rule root_count[OF _ one bc mem(1) kinds(1)]) simp
  with v2 have b1: "filter (\<lambda>b. b_kind b = Loop) (blocks (buildCfg ast code)) = [lb]" by simp
  have b2: "sb \<in> set (blocks (buildCfg ast code))" using mem(2) v1 by blast
  have 1: "\<exists>lb sb.
       filter (\<lambda>b. b_kind b = Loop) (blocks (buildCfg ast code)) = [lb] \<and>
       sb \<in> set (blocks (buildCfg ast code)) \<and> b_kind sb = Statement \<and>
       filter (\<lambda>e. e_from e = b_id lb \<and> e_label e = Some ''body'') (edges (buildCfg ast code)) =
         [\<lparr>e_from = b_id lb, e_to = b_id sb, e_label = Some ''body''\<rparr>] \<and>
       filter (\<lambda>e. e_from e = b_id sb) (edges (buildCfg ast code)) =
         [\<lparr>e_from = b_id sb, e_to = b_id lb, e_label = Some ''next''\<rparr>]"
    using b1 b2 kinds(2) g1 g2 unfolding B_def N_def by blast
  \<comment> \<open>every loop node\<close>
  obtain lb' d1 where mb':
    "makeBlock ctx (loopLabel m src) Loop m p [loopLabel m src] = (lb', d1)"
    by fastforce
  obtain br' d2 where t:
    "(case findBody m of Some b \<Rightarrow> buildChildren d1 b p src | None \<Rightarrow> (None, d1)) = (br', d2)"
    by fastforce
  have "builds d1 d2"
    by (rule bodySpec(1)[where f = findBody, OF _ t]) (simp add: nodeSpec_all)
  then obtain rest where "ctx_blocks d2 = ctx_blocks d1 @ rest"
    by (auto simp: builds_def elim: blocksExtE)
  then have 2: "\<exists>lb rest ctx'.
       buildNode ctx m p src = (Some \<lparr>r_entry = b_id lb, r_exits = [b_id lb]\<rparr>, ctx') \<and>
       ctx_blocks ctx' = ctx_blocks ctx @ lb # rest \<and> b_kind lb = Loop"
    unfolding buildNode_LOOP[OF km mb' t] using makeBlock_props[OF mb']
    by (auto split: option.splits)
  from 1 2 show ?thesis by blast
qed

theorem loop_cfg_witness:
  "filter (\<lambda>m. kind m \<in> LOOP_TYPES) (subtree midLoopTree) = [midLoopNode] \<and>
   reaches midLoopTree midLoopNode \<and>
   findBody midLoopNode = Some midLoopBody \<and> oneLeaf midLoopBody \<and>
   kind bareLoopNode \<in> LOOP_TYPES \<and>
   (\<exists>lb sb.
       filter (\<lambda>b. b_kind b = Loop) (blocks (buildCfg midLoopTree midLoopCode)) = [lb] \<and>
       sb \<in> set (blocks (buildCfg midLoopTree midLoopCode)) \<and> b_kind sb = Statement \<and>
       filter (\<lambda>e. e_from e = b_id lb \<and> e_label e = Some ''body'')
           (edges (buildCfg midLoopTree midLoopCode)) =
         [\<lparr>e_from = b_id lb, e_to = b_id sb, e_label = Some ''body''\<rparr>] \<and>
       filter (\<lambda>e. e_from e = b_id sb) (edges (buildCfg midLoopTree midLoopCode)) =
         [\<lparr>e_from = b_id sb, e_to = b_id lb, e_label = Some ''next''\<rparr>]) \<and>
   (\<exists>lb rest ctx'.
       buildNode (initCtx bareLoopCode) bareLoopNode ''root-0'' bareLoopCode =
         (Some \<lparr>r_entry = b_id lb, r_exits = [b_id lb]\<rparr>, ctx') \<and>
       ctx_blocks ctx' = ctx_blocks (initCtx bareLoopCode) @ lb # rest \<and> b_kind lb = Loop) \<and>
   map b_kind (blocks (buildCfg midLoopTree midLoopCode)) =
     [Entry, Statement, Loop, Statement, Statement] \<and>
   edges (buildCfg midLoopTree midLoopCode) =
     [\<lparr>e_from = ''cfg_1'', e_to = ''cfg_2'', e_label = Some ''body''\<rparr>,
      \<lparr>e_from = ''cfg_2'', e_to = ''cfg_1'', e_label = Some ''next''\<rparr>,
      \<lparr>e_from = ''cfg_0'', e_to = ''cfg_1'', e_label = None\<rparr>,
      \<lparr>e_from = ''cfg_1'', e_to = ''cfg_3'', e_label = None\<rparr>,
      \<lparr>e_from = ''cfg_4'', e_to = ''cfg_0'', e_label = None\<rparr>]"
proof -
  have 1: "filter (\<lambda>m. kind m \<in> LOOP_TYPES) (subtree midLoopTree) = [midLoopNode]"
    by code_simp
  have 2: "reaches midLoopTree midLoopNode"
    by (rule reaches.child) (simp_all add: midLoopTree_def midLoopNode_def named_def)
  have 3: "findBody midLoopNode = Some midLoopBody" by code_simp
  have leaf: "isLeafStatement (named ''identifier'' 15 16 [])" by code_simp
  have "oneLeaf (named ''expression_statement'' 15 17
          [named ''identifier'' 15 16 [], token '';'' 16 17])"
    by (rule oneLeaf.here[where pre = "[]" and post = "[]", OF _ _ leaf])
      (simp_all add: named_def token_def)
  then have 4: "oneLeaf midLoopBody"
    by (rule oneLeaf.wrapped[where pre = "[]" and post = "[]", rotated -1])
      (simp_all add: midLoopBody_def named_def token_def isControl_def IF_TYPES_def LOOP_TYPES_def
        MATCH_TYPES_def RETURN_TYPES_def FUNCTION_TYPES_def CONTAINER_TYPES_def)
  have 5: "kind bareLoopNode \<in> LOOP_TYPES" by code_simp
  have 6: "map b_kind (blocks (buildCfg midLoopTree midLoopCode)) =
     [Entry, Statement, Loop, Statement, Statement]" by code_simp
  have 7: "edges (buildCfg midLoopTree midLoopCode) =
     [\<lparr>e_from = ''cfg_1'', e_to = ''cfg_2'', e_label = Some ''body''\<rparr>,
      \<lparr>e_from = ''cfg_2'', e_to = ''cfg_1'', e_label = Some ''next''\<rparr>,
      \<lparr>e_from = ''cfg_0'', e_to = ''cfg_1'', e_label = None\<rparr>,
      \<lparr>e_from = ''cfg_1'', e_to = ''cfg_3'', e_label = None\<rparr>,
      \<lparr>e_from = ''cfg_4'', e_to = ''cfg_0'', e_label = None\<rparr>]" by code_simp
  from loop_cfg[OF 1 2 3 4 5, of midLoopCode "initCtx bareLoopCode" "''root-0''" bareLoopCode]
    1 2 3 4 5 6 7
  show ?thesis by (intro conjI) (simp_all only: simp_thms)
qed

section \<open>A branch node anywhere in the tree\<close>

lemma root_filter_two:
  assumes bc: "buildChildren (initCtx code) ast ''root'' code = (result, ctx1)"
    and f: "filter (\<lambda>e. e_from e = i) (ctx_edges ctx1) = [t, f]"
    and ne: "e_to t \<noteq> e_to f"
  shows "filter (\<lambda>e. e_from e = i) (edges (buildCfg ast code)) = [t, f]"
proof -
  from buildCfg_view[OF bc] obtain extra where
    ed: "edges (buildCfg ast code) = dedupEdges {} (ctx_edges ctx1 @ extra)"
    and ex: "\<forall>e \<in> set extra. e_from e = makeId (nextBlockId ctx1) \<and> (\<exists>b. e_to e = makeId b)"
    by blast
  have tin: "t \<in> set (ctx_edges ctx1)" "e_from t = i" using arg_cong[OF f, of set] by auto
  from root_edge_ids[OF bc tin(1)] tin(2) obtain a where
    t: "a < nextBlockId ctx1" "i = makeId a" by blast
  have notx: "e_from e \<noteq> i" if "e \<in> set extra" for e
    using ex that t by auto
  have f2: "filter (\<lambda>e. e_from e = i) (ctx_edges ctx1 @ extra) = [t, f]"
    using f notx by (auto simp: filter_empty_conv)
  have ids: "\<forall>e \<in> set (ctx_edges ctx1 @ extra). \<exists>a b. e_from e = makeId a \<and> e_to e = makeId b"
  proof
    fix e assume "e \<in> set (ctx_edges ctx1 @ extra)"
    then show "\<exists>a b. e_from e = makeId a \<and> e_to e = makeId b"
      using root_edge_ids[OF bc, of e] ex by auto
  qed
  show ?thesis unfolding ed using ids f2 ne by (rule dedup_two)
qed

text \<open>
  Two more programs: a class with a method that holds an \<open>if\<close>, and
  \<open>a; if (x) { return 1; } else { y; } b;\<close>.
\<close>

definition hiddenIfCode :: string where
  "hiddenIfCode = ''class A { m() { if (x) { return 1; } else { y; } } }''"

definition hiddenIfNode :: AstNode where
  "hiddenIfNode =
     named ''if_statement'' 16 48
       [token ''if'' 16 18,
        named ''parenthesized_expression'' 19 22
         [token ''('' 19 20,
          named ''identifier'' 20 21 [],
          token '')'' 21 22],
        named ''statement_block'' 23 36
         [token ''{'' 23 24,
          named ''return_statement'' 25 34
           [token ''return'' 25 31,
            named ''number'' 32 33 [],
            token '';'' 33 34],
          token ''}'' 35 36],
        named ''else_clause'' 37 48
         [token ''else'' 37 41,
          named ''statement_block'' 42 48
           [token ''{'' 42 43,
            named ''expression_statement'' 44 46
             [named ''identifier'' 44 45 [],
              token '';'' 45 46],
            token ''}'' 47 48]]]"

definition hiddenIfTree :: AstNode where
  "hiddenIfTree =
     named ''program'' 0 52
       [named ''class_declaration'' 0 52
         [token ''class'' 0 5,
          named ''identifier'' 6 7 [],
          named ''class_body'' 8 52
           [token ''{'' 8 9,
            named ''method_definition'' 10 50
             [named ''property_identifier'' 10 11 [],
              named ''formal_parameters'' 11 13
               [token ''('' 11 12,
                token '')'' 12 13],
              named ''statement_block'' 14 50
               [token ''{'' 14 15,
                hiddenIfNode,
                token ''}'' 49 50]],
            token ''}'' 51 52]]]"

definition midIfCode :: string where
  "midIfCode = ''a; if (x) { return 1; } else { y; } b;''"

definition midIfThen :: AstNode where
  "midIfThen =
     named ''statement_block'' 10 23
       [token ''{'' 10 11,
        named ''return_statement'' 12 21
         [token ''return'' 12 18,
          named ''number'' 19 20 [],
          token '';'' 20 21],
        token ''}'' 22 23]"

definition midIfElse :: AstNode where
  "midIfElse =
     named ''else_clause'' 24 35
       [token ''else'' 24 28,
        named ''statement_block'' 29 35
         [token ''{'' 29 30,
          named ''expression_statement'' 31 33
           [named ''identifier'' 31 32 [],
            token '';'' 32 33],
          token ''}'' 34 35]]"

definition midIfNode :: AstNode where
  "midIfNode =
     named ''if_statement'' 3 35
       [token ''if'' 3 5,
        named ''parenthesized_expression'' 6 9
         [token ''('' 6 7,
          named ''identifier'' 7 8 [],
          token '')'' 8 9],
        midIfThen,
        midIfElse]"

definition midIfTree :: AstNode where
  "midIfTree =
     named ''program'' 0 38
       [named ''expression_statement'' 0 2
         [named ''identifier'' 0 1 [],
          token '';'' 1 2],
        midIfNode,
        named ''expression_statement'' 36 38
         [named ''identifier'' 36 37 [],
          token '';'' 37 38]]"

text \<open>
  Claim C6, as stated, fails.  Each of the two trees has a single branch node, with a
  true body and an else body.  An edge is added only when the body produced a block:
  with an empty true body the branch block has the single outgoing edge \<open>false\<close> and
  is itself the first exit.  The class declaration is no container, so the builder
  makes one statement block of it and never visits the branch node: there is no
  branch block.
\<close>

theorem branch_counterexample:
  "filter (\<lambda>m. kind m \<in> IF_TYPES) (subtree emptyThenTree) = [emptyThenNode] \<and>
   findBody emptyThenNode \<noteq> None \<and> findElse emptyThenNode \<noteq> None \<and>
   filter (\<lambda>e. e_from e = ''cfg_0'') (edges (buildCfg emptyThenTree emptyThenCode)) =
     [\<lparr>e_from = ''cfg_0'', e_to = ''cfg_1'', e_label = Some ''false''\<rparr>] \<and>
   fst (buildNode (initCtx emptyThenCode) emptyThenNode ''root-0'' emptyThenCode) =
     Some \<lparr>r_entry = ''cfg_0'', r_exits = [''cfg_0'', ''cfg_1'']\<rparr> \<and>
   filter (\<lambda>m. kind m \<in> IF_TYPES) (subtree hiddenIfTree) = [hiddenIfNode] \<and>
   findBody hiddenIfNode \<noteq> None \<and> findElse hiddenIfNode \<noteq> None \<and>
   map b_kind (blocks (buildCfg hiddenIfTree hiddenIfCode)) = [Entry, Statement] \<and>
   edges (buildCfg hiddenIfTree hiddenIfCode) =
     [\<lparr>e_from = ''cfg_1'', e_to = ''cfg_0'', e_label = None\<rparr>]"
  by code_simp

text \<open>
  Claim C6, amended.  Let the tree have a single branch node, let the builder reach
  it, and let its true body and its else body each yield at least one block.  Then
  the graph has exactly one block of kind \<open>branch\<close>, with exactly two edges out of it,
  labelled \<open>true\<close> and \<open>false\<close>, to two different blocks.  In every build state the
  exits of such a branch construct are the exits of the true branch followed by the
  exits of the false branch, and the branch block is not among them.
\<close>

theorem branch_cfg:
  assumes one: "filter (\<lambda>m. kind m \<in> IF_TYPES) (subtree ast) = [n]"
    and reach: "reaches ast n"
    and tb: "findBody n = Some tb" and eb: "findElse n = Some eb"
    and yt: "yieldsBlocks tb" and ye: "yieldsBlocks eb"
  shows "(\<exists>bb t f.
       filter (\<lambda>b. b_kind b = Branch) (blocks (buildCfg ast code)) = [bb] \<and> t \<noteq> f \<and>
       filter (\<lambda>e. e_from e = b_id bb) (edges (buildCfg ast code)) =
         [\<lparr>e_from = b_id bb, e_to = t, e_label = Some ''true''\<rparr>,
          \<lparr>e_from = b_id bb, e_to = f, e_label = Some ''false''\<rparr>]) \<and>
    (\<exists>bb c1 tr c2 fr c4 lbl.
       makeBlock ctx lbl Branch n p [lbl] = (bb, c1) \<and>
       buildChildren c1 tb p src = (Some tr, c2) \<and>
       buildChildren (addEdge c2 (b_id bb) (r_entry tr) (Some ''true'')) eb p src = (Some fr, c4) \<and>
       buildNode ctx n p src =
         (Some \<lparr>r_entry = b_id bb, r_exits = r_exits tr @ r_exits fr\<rparr>,
          addEdge c4 (b_id bb) (r_entry fr) (Some ''false'')) \<and>
       b_id bb \<notin> set (r_exits tr @ r_exits fr))"
proof -
  have k: "kind n \<in> IF_TYPES"
  proof -
    have "n \<in> set (filter (\<lambda>m. kind m \<in> IF_TYPES) (subtree ast))" unfolding one by simp
    then show ?thesis by simp
  qed
  obtain result ctx1 where bc: "buildChildren (initCtx code) ast ''root'' code = (result, ctx1)"
    by fastforce
  from root_encloses[OF reach bc] obtain c0 p0 where
    w: "encloses c0 (snd (buildNode c0 n p0 code)) (exitsOf (fst (buildNode c0 n p0 code)))
          (initCtx code) ctx1 (exitsOf result)" .
  from branch_node[OF k tb eb yt ye, of c0 p0 code]
  obtain bb c1 tr c2 fr c4 lbl where
    mb: "makeBlock c0 lbl Branch n p0 [lbl] = (bb, c1)"
    and "buildChildren c1 tb p0 code = (Some tr, c2)"
    and "buildChildren (addEdge c2 (b_id bb) (r_entry tr) (Some ''true'')) eb p0 code = (Some fr, c4)"
    and eq: "buildNode c0 n p0 code =
       (Some \<lparr>r_entry = b_id bb, r_exits = r_exits tr @ r_exits fr\<rparr>,
        addEdge c4 (b_id bb) (r_entry fr) (Some ''false''))"
    and notin: "b_id bb \<notin> set (r_exits tr @ r_exits fr)"
    and et: "r_entry tr = makeId (Suc (nextBlockId c0))"
    and ef: "r_entry fr = makeId (nextBlockId c2)"
    and lt: "Suc (nextBlockId c0) < nextBlockId c2"
    and b12: "builds c1 c2"
    and b34: "builds (addEdge c2 (b_id bb) (r_entry tr) (Some ''true'')) c4"
    by (elim exE conjE) (rule that)
  note mp = makeBlock_props[OF mb]
  define cn where "cn = addEdge c4 (b_id bb) (r_entry fr) (Some ''false'')"
  define T where "T = \<lparr>e_from = b_id bb, e_to = r_entry tr, e_label = Some ''true''\<rparr>"
  define F where "F = \<lparr>e_from = b_id bb, e_to = r_entry fr, e_label = Some ''false''\<rparr>"
  have w': "encloses c0 cn (set (r_exits tr @ r_exits fr)) (initCtx code) ctx1 (exitsOf result)"
    using w by (simp add: eq cn_def)
  have ext: "blocksExt c0 cn"
    using nodeSpec_all[of c0 n p0 code] by (simp add: nodeSpec_def eq builds_def cn_def)
  \<comment> \<open>the edges of the construct that leave the branch block\<close>
  from builds_edges[OF b12] obtain E1 where
    E1: "ctx_edges c2 = ctx_edges c1 @ E1" "\<forall>e \<in> set E1. \<exists>k. nextBlockId c1 \<le> k \<and> e_from e = makeId k"
    by blast
  from builds_edges[OF b34] obtain E2 where
    E2: "ctx_edges c4 = ctx_edges (addEdge c2 (b_id bb) (r_entry tr) (Some ''true'')) @ E2"
      "\<forall>e \<in> set E2. \<exists>k. nextBlockId c2 \<le> k \<and> e_from e = makeId k"
    by (auto simp: addEdge_simps)
  have no1: "filter (\<lambda>e. e_from e = b_id bb) E1 = []"
    using E1(2) by (auto simp: filter_empty_conv mp)
  have no2: "filter (\<lambda>e. e_from e = b_id bb) E2 = []"
    using E2(2) lt by (auto simp: filter_empty_conv mp)
  have ne: "newEdges c0 cn = E1 @ [T] @ E2 @ [F]"
    by (simp add: newEdges_def cn_def addEdge_simps E2(1) E1(1) mp T_def F_def)
  have fn: "filter (\<lambda>e. e_from e = b_id bb) (newEdges c0 cn) = [T, F]"
    unfolding ne by (simp add: no1 no2 T_def F_def)
  have n4: "nextBlockId c2 \<le> nextBlockId cn"
    using builds_next_le[OF b34] by (simp add: cn_def addEdge_simps)
  have fresh: "b_id bb \<in> freshIds c0 cn"
    using n4 lt by (simp add: freshIds_def mp)
  have all: "newEdges (initCtx code) ctx1 = ctx_edges ctx1" by (simp add: newEdges_def)
  have f1: "filter (\<lambda>e. e_from e = b_id bb) (ctx_edges ctx1) = [T, F]"
    using enc_filter[OF w' ext, of "\<lambda>e. e_from e = b_id bb"] fresh notin
    by (simp add: all fn)
  have tf: "e_to T \<noteq> e_to F" using lt by (simp add: T_def F_def et ef)
  have g1: "filter (\<lambda>e. e_from e = b_id bb) (edges (buildCfg ast code)) = [T, F]"
    using bc f1 tf by (rule root_filter_two)
  have "set (ctx_blocks c1) \<subseteq> set (ctx_blocks c2)"
    using builds_blocksExt[OF b12] by (auto elim!: blocksExtE)
  moreover have "set (ctx_blocks c2) \<subseteq> set (ctx_blocks c4)"
    using builds_blocksExt[OF b34] by (auto elim!: blocksExtE)
  ultimately have "bb \<in> set (ctx_blocks cn)" by (auto simp: cn_def mp)
  moreover have "set (ctx_blocks cn) \<subseteq> set (ctx_blocks ctx1)"
    using w' by (auto simp: encloses_def elim!: blocksExtE)
  ultimately have mem: "bb \<in> set (ctx_blocks ctx1)" by blast
  have "kindBlocks Branch ctx1 = [bb]"
    by (rule root_count[OF _ one bc mem]) (simp_all add: mp)
  moreover from buildCfg_view[OF bc] have
    "filter (\<lambda>b. b_kind b = Branch) (blocks (buildCfg ast code)) = kindBlocks Branch ctx1"
    by auto
  ultimately have b1: "filter (\<lambda>b. b_kind b = Branch) (blocks (buildCfg ast code)) = [bb]"
    by simp
  have 1: "\<exists>bb t f.
       filter (\<lambda>b. b_kind b = Branch) (blocks (buildCfg ast code)) = [bb] \<and> t \<noteq> f \<and>
       filter (\<lambda>e. e_from e = b_id bb) (edges (buildCfg ast code)) =
         [\<lparr>e_from = b_id bb, e_to = t, e_label = Some ''true''\<rparr>,
          \<lparr>e_from = b_id bb, e_to = f, e_label = Some ''false''\<rparr>]"
    using b1 tf g1 unfolding T_def F_def by (intro exI[of _ bb] exI[of _ "r_entry tr"] exI[of _ "r_entry fr"]) simp
  from branch_node[OF k tb eb yt ye, of ctx p src]
  have 2: "\<exists>bb c1 tr c2 fr c4 lbl.
       makeBlock ctx lbl Branch n p [lbl] = (bb, c1) \<and>
       buildChildren c1 tb p src = (Some tr, c2) \<and>
       buildChildren (addEdge c2 (b_id bb) (r_entry tr) (Some ''true'')) eb p src = (Some fr, c4) \<and>
       buildNode ctx n p src =
         (Some \<lparr>r_entry = b_id bb, r_exits = r_exits tr @ r_exits fr\<rparr>,
          addEdge c4 (b_id bb) (r_entry fr) (Some ''false'')) \<and>
       b_id bb \<notin> set (r_exits tr @ r_exits fr)"
    by blast
  from 1 2 show ?thesis by (rule conjI)
qed

theorem branch_cfg_witness:
  "filter (\<lambda>m. kind m \<in> IF_TYPES) (subtree midIfTree) = [midIfNode] \<and>
   reaches midIfTree midIfNode \<and>
   findBody midIfNode = Some midIfThen \<and> findElse midIfNode = Some midIfElse \<and>
   yieldsBlocks midIfThen \<and> yieldsBlocks midIfElse \<and>
   (\<exists>bb t f.
       filter (\<lambda>b. b_kind b = Branch) (blocks (buildCfg midIfTree midIfCode)) = [bb] \<and> t \<noteq> f \<and>
       filter (\<lambda>e. e_from e = b_id bb) (edges (buildCfg midIfTree midIfCode)) =
         [\<lparr>e_from = b_id bb, e_to = t, e_label = Some ''true''\<rparr>,
          \<lparr>e_from = b_id bb, e_to = f, e_label = Some ''false''\<rparr>]) \<and>
   (\<exists>bb c1 tr c2 fr c4 lbl.
       makeBlock (initCtx midIfCode) lbl Branch midIfNode ''root-1'' [lbl] = (bb, c1) \<and>
       buildChildren c1 midIfThen ''root-1'' midIfCode = (Some tr, c2) \<and>
       buildChildren (addEdge c2 (b_id bb) (r_entry tr) (Some ''true'')) midIfElse ''root-1'' midIfCode
         = (Some fr, c4) \<and>
       buildNode (initCtx midIfCode) midIfNode ''root-1'' midIfCode =
         (Some \<lparr>r_entry = b_id bb, r_exits = r_exits tr @ r_exits fr\<rparr>,
          addEdge c4 (b_id bb) (r_entry fr) (Some ''false'')) \<and>
       b_id bb \<notin> set (r_exits tr @ r_exits fr)) \<and>
   map b_kind (blocks (buildCfg midIfTree midIfCode)) =
     [Entry, Statement, Branch, Return, Statement, Statement] \<and>
   edges (buildCfg midIfTree midIfCode) =
     [\<lparr>e_from = ''cfg_1'', e_to = ''cfg_2'', e_label = Some ''true''\<rparr>,
      \<lparr>e_from = ''cfg_1'', e_to = ''cfg_3'', e_label = Some ''false''\<rparr>,
      \<lparr>e_from = ''cfg_0'', e_to = ''cfg_1'', e_label = None\<rparr>,
      \<lparr>e_from = ''cfg_3'', e_to = ''cfg_4'', e_label = None\<rparr>,
      \<lparr>e_from = ''cfg_5'', e_to = ''cfg_0'', e_label = None\<rparr>]"
proof -
  have 1: "filter (\<lambda>m. kind m \<in> IF_TYPES) (subtree midIfTree) = [midIfNode]"
    by code_simp
  have 2: "reaches midIfTree midIfNode"
    by (rule reaches.child) (simp_all add: midIfTree_def midIfNode_def named_def)
  have 3: "findBody midIfNode = Some midIfThen" by code_simp
  have 4: "findElse midIfNode = Some midIfElse" by code_simp
  have 8: "map b_kind (blocks (buildCfg midIfTree midIfCode)) =
     [Entry, Statement, Branch, Return, Statement, Statement]" by code_simp
  have 9: "edges (buildCfg midIfTree midIfCode) =
     [\<lparr>e_from = ''cfg_1'', e_to = ''cfg_2'', e_label = Some ''true''\<rparr>,
      \<lparr>e_from = ''cfg_1'', e_to = ''cfg_3'', e_label = Some ''false''\<rparr>,
      \<lparr>e_from = ''cfg_0'', e_to = ''cfg_1'', e_label = None\<rparr>,
      \<lparr>e_from = ''cfg_3'', e_to = ''cfg_4'', e_label = None\<rparr>,
      \<lparr>e_from = ''cfg_5'', e_to = ''cfg_0'', e_label = None\<rparr>]" by code_simp
  have "yieldsNode (named ''return_statement'' 12 21
          [token ''return'' 12 18, named ''number'' 19 20 [], token '';'' 20 21])"
    by (rule yieldsNode.control) (simp add: named_def isControl_def RETURN_TYPES_def)
  then have 5: "yieldsBlocks midIfThen"
    unfolding yieldsBlocks_def midIfThen_def
    by (intro bexI[of _ "named ''return_statement'' 12 21
          [token ''return'' 12 18, named ''number'' 19 20 [], token '';'' 20 21]"])
      (simp_all add: named_def)
  have leaf: "isLeafStatement (named ''identifier'' 31 32 [])" by code_simp
  have "yieldsNode (named ''expression_statement'' 31 33
          [named ''identifier'' 31 32 [], token '';'' 32 33])"
    by (rule yieldsNode.container[OF _ _ _ _ yieldsNode.statement[OF leaf]])
      (simp_all add: named_def token_def isControl_def IF_TYPES_def LOOP_TYPES_def
        MATCH_TYPES_def RETURN_TYPES_def FUNCTION_TYPES_def CONTAINER_TYPES_def)
  then have "yieldsNode (named ''statement_block'' 29 35
         [token ''{'' 29 30,
          named ''expression_statement'' 31 33
           [named ''identifier'' 31 32 [], token '';'' 32 33],
          token ''}'' 34 35])"
    by (rule yieldsNode.container[rotated -1])
      (simp_all add: named_def token_def isControl_def IF_TYPES_def LOOP_TYPES_def
        MATCH_TYPES_def RETURN_TYPES_def FUNCTION_TYPES_def CONTAINER_TYPES_def)
  then have 6: "yieldsBlocks midIfElse"
    unfolding yieldsBlocks_def midIfElse_def
    by (intro bexI[of _ "named ''statement_block'' 29 35
         [token ''{'' 29 30,
          named ''expression_statement'' 31 33
           [named ''identifier'' 31 32 [], token '';'' 32 33],
          token ''}'' 34 35]"])
      (simp_all add: named_def)
  from branch_cfg[OF 1 2 3 4 5 6, of midIfCode "initCtx midIfCode" "''root-1''" midIfCode]
    1 2 3 4 5 6 8 9
  show ?thesis by (intro conjI) (simp_all only: simp_thms)
qed

end
